(* ===== verification/Prelude.thy ===== *)
theory Prelude
  imports "HOL-Library.Word" "HOL-Library.Monad_Syntax" "HOL-Library.Multiset"
begin

text \<open>
  Shared vocabulary of the development.

  \<^item> Fixed-width integers: \<open>u8\<close>, \<open>u16\<close>, \<open>u32\<close>, \<open>u64\<close> are machine words; \<open>i32\<close> and \<open>i64\<close>
    narrow a mathematical integer to a signed 32 or 64 bit one, as \<open>static_cast<int32_t>\<close> and
    \<open>static_cast<int64_t>\<close> do.
  \<^item> Raw buffers: the tensor kernels read and write through bare pointers.  A buffer is a list,
    \<open>rd\<close> and \<open>wr\<close> access one element, and an access outside the buffer (undefined behaviour in
    C++) is \<open>None\<close>.  A theorem that a kernel returns \<open>Some\<close> is therefore a memory safety theorem.
  \<^item> Loops: \<open>for_range lo hi body\<close> is \<open>for (i = lo; i < hi; ++i) body\<close>.
  \<^item> Total correctness: \<open>yields m Q\<close> says that \<open>m\<close> returns and its result satisfies \<open>Q\<close>; the rules
    collected in \<open>yields_intros\<close> decompose a kernel into its accesses and loops.
\<close>

unbundle bit_operations_syntax

named_theorems yields_intros \<open>total correctness rules for buffer programs\<close>

section \<open>Machine integers\<close>

type_synonym u8 = "8 word"
type_synonym u16 = "16 word"
type_synonym u32 = "32 word"
type_synonym u64 = "64 word"
type_synonym bytes = "u8 list"

definition i32 :: "int \<Rightarrow> int" where
  "i32 x = signed_take_bit 31 x"

definition i64 :: "int \<Rightarrow> int" where
  "i64 x = signed_take_bit 63 x"

definition in_i32 :: "int \<Rightarrow> bool" where
  "in_i32 x \<longleftrightarrow> - (2 ^ 31) \<le> x \<and> x < 2 ^ 31"

definition in_i64 :: "int \<Rightarrow> bool" where
  "in_i64 x \<longleftrightarrow> - (2 ^ 63) \<le> x \<and> x < 2 ^ 63"

lemma i32_id [simp]: "in_i32 x \<Longrightarrow> i32 x = x"
  by (simp add: in_i32_def i32_def signed_take_bit_int_eq_self_iff)

lemma i64_id [simp]: "in_i64 x \<Longrightarrow> i64 x = x"
  by (simp add: in_i64_def i64_def signed_take_bit_int_eq_self_iff)

lemma in_i32_i32 [simp]: "in_i32 (i32 x)"
  using signed_take_bit_int_greater_eq_minus_exp [of 31 x] signed_take_bit_int_less_exp [of 31 x]
  by (simp add: in_i32_def i32_def)

lemma in_i64_i64 [simp]: "in_i64 (i64 x)"
  using signed_take_bit_int_greater_eq_minus_exp [of 63 x] signed_take_bit_int_less_exp [of 63 x]
  by (simp add: in_i64_def i64_def)

lemma in_i32_imp_i64: "in_i32 x \<Longrightarrow> in_i64 x"
  by (simp add: in_i32_def in_i64_def)

text \<open>C++ integer division and remainder truncate towards zero.\<close>

definition cdiv :: "int \<Rightarrow> int \<Rightarrow> int" where
  "cdiv a b = sgn a * sgn b * (\<bar>a\<bar> div \<bar>b\<bar>)"

definition cmod :: "int \<Rightarrow> int \<Rightarrow> int" where
  "cmod a b = a - cdiv a b * b"

lemma cdiv_nonneg [simp]: "0 \<le> a \<Longrightarrow> 0 < b \<Longrightarrow> cdiv a b = a div b"
  by (cases "a = 0") (auto simp: cdiv_def)

lemma cmod_nonneg [simp]: "0 \<le> a \<Longrightarrow> 0 < b \<Longrightarrow> cmod a b = a mod b"
  by (simp add: cmod_def minus_div_mult_eq_mod)

lemma unat_u8_less: "unat (b :: u8) < 256"
proof -
  have "unat b < 2 ^ LENGTH(8)" by (rule unsigned_less)
  then show ?thesis by simp
qed

lemma word_of_nat_unat: "word_of_nat (unat w) = (w :: 'a::len word)"
  by simp

definition fits64 :: "nat \<Rightarrow> bool" where
  "fits64 n \<longleftrightarrow> n < 18446744073709551616"

lemma unat_u64_of_nat: "fits64 n \<Longrightarrow> unat (word_of_nat n :: u64) = n"
  by (simp add: fits64_def unsigned_of_nat take_bit_nat_eq_self)

section \<open>Bounds-checked buffers\<close>

definition rd :: "'a list \<Rightarrow> int \<Rightarrow> 'a option" where
  "rd xs i = (if 0 \<le> i \<and> i < int (length xs) then Some (xs ! nat i) else None)"

definition wr :: "'a list \<Rightarrow> int \<Rightarrow> 'a \<Rightarrow> 'a list option" where
  "wr xs i v = (if 0 \<le> i \<and> i < int (length xs) then Some (xs[nat i := v]) else None)"

text \<open>The buffer read as a total function; meaningful only inside the bounds.\<close>

definition at :: "'a list \<Rightarrow> int \<Rightarrow> 'a" where
  "at xs i = xs ! nat i"

abbreviation in_bounds :: "'a list \<Rightarrow> int \<Rightarrow> bool" where
  "in_bounds xs i \<equiv> 0 \<le> i \<and> i < int (length xs)"

lemma rd_at: "in_bounds xs i \<Longrightarrow> rd xs i = Some (at xs i)"
  by (simp add: rd_def at_def)

lemma wr_upd: "in_bounds xs i \<Longrightarrow> wr xs i v = Some (xs[nat i := v])"
  by (simp add: wr_def)

lemma at_upd: "in_bounds xs i \<Longrightarrow> 0 \<le> j \<Longrightarrow> at (xs[nat i := v]) j = (if j = i then v else at xs j)"
  by (auto simp: at_def nth_list_update)

lemma at_upd_other [simp]: "0 \<le> i \<Longrightarrow> 0 \<le> j \<Longrightarrow> j \<noteq> i \<Longrightarrow> at (xs[nat i := v]) j = at xs j"
  by (simp add: at_def)

lemma at_upd_same [simp]: "in_bounds xs i \<Longrightarrow> at (xs[nat i := v]) i = v"
  by (auto simp: at_def nth_list_update)

lemma list_eq_at:
  assumes "length xs = length ys" and "\<And>i. in_bounds xs i \<Longrightarrow> at xs i = at ys i"
  shows "xs = ys"
proof (rule nth_equalityI)
  fix i assume "i < length xs"
  with assms(2) [of "int i"] show "xs ! i = ys ! i" by (simp add: at_def)
qed (fact assms(1))

section \<open>Total correctness of buffer programs\<close>

definition yields :: "'a option \<Rightarrow> ('a \<Rightarrow> bool) \<Rightarrow> bool" where
  "yields m Q \<longleftrightarrow> (\<exists>x. m = Some x \<and> Q x)"

lemma yields_Some [simp]: "yields (Some x) Q \<longleftrightarrow> Q x"
  by (simp add: yields_def)

lemma yields_None [simp]: "\<not> yields None Q"
  by (simp add: yields_def)

lemma yields_mono: "yields m Q \<Longrightarrow> (\<And>x. Q x \<Longrightarrow> R x) \<Longrightarrow> yields m R"
  by (auto simp: yields_def)

lemma yields_bind: "yields m (\<lambda>x. yields (f x) Q) \<Longrightarrow> yields (Option.bind m f) Q"
  by (auto simp: yields_def)

lemma yields_bindI: "yields m R \<Longrightarrow> (\<And>x. R x \<Longrightarrow> yields (f x) Q) \<Longrightarrow> yields (Option.bind m f) Q"
  by (auto simp: yields_def)

lemma yields_rd [yields_intros]: "in_bounds xs i \<Longrightarrow> Q (at xs i) \<Longrightarrow> yields (rd xs i) Q"
  by (simp add: rd_at)

lemma yields_wr [yields_intros]: "in_bounds xs i \<Longrightarrow> Q (xs[nat i := v]) \<Longrightarrow> yields (wr xs i v) Q"
  by (simp add: wr_upd)

lemma yields_rd_bind [yields_intros]:
  "in_bounds xs i \<Longrightarrow> yields (f (at xs i)) Q \<Longrightarrow> yields (Option.bind (rd xs i) f) Q"
  by (simp add: rd_at)

lemma yields_wr_bind [yields_intros]:
  "in_bounds xs i \<Longrightarrow> yields (f (xs[nat i := v])) Q \<Longrightarrow> yields (Option.bind (wr xs i v) f) Q"
  by (simp add: wr_upd)

lemma yieldsD: "yields m Q \<Longrightarrow> \<exists>x. m = Some x \<and> Q x"
  by (simp add: yields_def)

section \<open>Loops\<close>

fun for_each :: "'i list \<Rightarrow> ('i \<Rightarrow> 's \<Rightarrow> 's option) \<Rightarrow> 's \<Rightarrow> 's option" where
  "for_each [] body s = Some s"
| "for_each (i # is) body s = Option.bind (body i s) (for_each is body)"

definition for_range :: "int \<Rightarrow> int \<Rightarrow> (int \<Rightarrow> 's \<Rightarrow> 's option) \<Rightarrow> 's \<Rightarrow> 's option" where
  "for_range lo hi body s = for_each [lo..hi - 1] body s"

lemma for_each_append:
  "for_each (is @ js) body s = Option.bind (for_each is body s) (for_each js body)"
  by (induction "is" arbitrary: s) (auto simp: bind_eq_None_conv split: Option.bind_split)

lemma for_range_empty [simp]: "hi \<le> lo \<Longrightarrow> for_range lo hi body s = Some s"
  by (simp add: for_range_def)

lemma for_range_rec:
  "lo < hi \<Longrightarrow> for_range lo hi body s = Option.bind (body lo s) (for_range (lo + 1) hi body)"
  by (auto simp: for_range_def upto_rec1 fun_eq_iff intro!: arg_cong2 [where f = Option.bind])

lemma for_range_snoc:
  assumes "lo \<le> hi"
  shows "for_range lo (hi + 1) body s = Option.bind (for_range lo hi body s) (body hi)"
proof -
  have "[lo..hi] = [lo..hi - 1] @ [hi]"
    using assms by (simp add: upto_rec2)
  moreover have "for_each [hi] body = body hi"
    by (rule ext) (simp add: bind_eq_None_conv split: Option.bind_split)
  ultimately show ?thesis
    by (simp add: for_range_def for_each_append)
qed

lemma yields_for_range:
  assumes "lo \<le> hi" and "P lo s"
    and "\<And>i s. lo \<le> i \<Longrightarrow> i < hi \<Longrightarrow> P i s \<Longrightarrow> yields (body i s) (P (i + 1))"
  shows "yields (for_range lo hi body s) (P hi)"
  using assms
proof (induction "nat (hi - lo)" arbitrary: lo s)
  case 0
  then show ?case by simp
next
  case (Suc n)
  then have lt: "lo < hi" by simp
  from Suc.prems lt have "yields (body lo s) (P (lo + 1))" by simp
  moreover have "yields (for_range (lo + 1) hi body s') (P hi)" if "P (lo + 1) s'" for s'
    using Suc.hyps(2) Suc.prems lt that by (intro Suc.hyps(1)) auto
  ultimately show ?case
    using lt by (simp add: for_range_rec yields_bindI)
qed

lemma yields_for_rangeI:
  assumes "P lo s"
    and "\<And>i s. lo \<le> i \<Longrightarrow> i < hi \<Longrightarrow> P i s \<Longrightarrow> yields (body i s) (P (i + 1))"
    and "\<And>s. P (max lo hi) s \<Longrightarrow> Q s"
  shows "yields (for_range lo hi body s) Q"
proof (cases "lo \<le> hi")
  case True
  have "yields (for_range lo hi body s) (P hi)"
    using True assms(1,2) by (rule yields_for_range)
  then show ?thesis
    using True assms(3) by (auto elim: yields_mono simp: max_def)
next
  case False
  with assms(1,3) show ?thesis by (simp add: max_def)
qed

section \<open>Bit fields\<close>

lemma push_or_nat:
  assumes "b < 2 ^ n" shows "push_bit n a OR b = 2 ^ n * a + (b :: nat)"
proof -
  have b: "take_bit n b = b" using assms by (simp add: take_bit_nat_eq_self)
  have "push_bit n a AND take_bit n b = 0"
    by (rule bit_eqI) (auto simp: bit_and_iff bit_push_bit_iff bit_take_bit_iff)
  then show ?thesis using b by (simp add: disjunctive_add_eq_or [symmetric] push_bit_eq_mult)
qed

section \<open>Stable sorting and maps\<close>

lemma sort_key_map: "sort_key f (map g xs) = map g (sort_key (\<lambda>x. f (g x)) xs)"
proof -
  have "insort_key f (g x) (map g ys) = map g (insort_key (\<lambda>x. f (g x)) x ys)" for x ys
    by (induction ys) simp_all
  then show ?thesis by (induction xs) simp_all
qed

end
