(* ===== verification/Phrase_Matcher.thy ===== *)
theory Phrase_Matcher
  imports Prelude "HOL-Library.Sublist"
begin

text \<open>
  The multi-phrase matcher of \<open>src/csrc/phrase_matcher.cpp\<close>: an Aho-Corasick automaton over bytes,
  built by \<open>Automaton::add\<close> and \<open>Automaton::finish\<close>, and driven by \<open>scan\<close> over the chunks of a
  token stream.

  A node is a record with the source's fields.  \<open>std::unordered_map\<close> fixes no iteration order, so
  the loops over edges take the order as a parameter \<open>iter\<close> that lists a map's entries; the
  theorems hold for every such order.  \<open>advance\<close> and the breadth-first loop of \<open>finish\<close> are loops
  with no evident bound: they are partial functions whose result \<open>None\<close> is "does not return or reads
  outside \<open>nodes\<close>", and the theorems prove that they return.

  The proofs label every node with the byte string that leads to it (\<open>trie\<close>), show that \<open>add\<close>
  keeps the labelling, that \<open>finish\<close> gives every node the longest proper suffix as its failure link
  and the longest pattern suffix as its terminal length (\<open>finished\<close>), and then that \<open>scan\<close> reports
  the earliest start of any pattern occurrence, across chunk boundaries.
\<close>

section \<open>The automaton\<close>

record node =
  edges :: "u8 \<Rightarrow> nat option"
  failure :: nat
  depth :: nat
  terminal :: nat

type_synonym automaton = "node list"

definition new_node :: node where
  "new_node = \<lparr>edges = Map.empty, failure = 0, depth = 0, terminal = 0\<rparr>"

definition empty_automaton :: automaton where
  "empty_automaton = [new_node]"

partial_function (option) advance :: "automaton \<Rightarrow> nat \<Rightarrow> u8 \<Rightarrow> nat option" where
  "advance nodes state byte =
     (if state < length nodes then
        case edges (nodes ! state) byte of
          Some next \<Rightarrow> Some next
        | None \<Rightarrow> if state = 0 then Some 0 else advance nodes (failure (nodes ! state)) byte
      else None)"

text \<open>One iteration of the loop of \<open>add\<close>: \<open>emplace\<close> keeps an existing edge; a new edge leads to a
  node appended with depth one more than its parent.\<close>

definition add_step :: "automaton \<Rightarrow> nat \<Rightarrow> u8 \<Rightarrow> automaton \<times> nat" where
  "add_step nodes state byte =
     (case edges (nodes ! state) byte of
        Some next \<Rightarrow> (nodes, next)
      | None \<Rightarrow>
          (let next = length nodes;
               nodes1 = nodes[state := (nodes ! state)\<lparr>edges := (edges (nodes ! state))(byte \<mapsto> next)\<rparr>];
               d = depth (nodes1 ! state) + 1
           in (nodes1 @ [new_node\<lparr>depth := d\<rparr>], next)))"

fun add_loop :: "automaton \<Rightarrow> nat \<Rightarrow> bytes \<Rightarrow> automaton \<times> nat" where
  "add_loop nodes state [] = (nodes, state)"
| "add_loop nodes state (byte # rest) =
     (case add_step nodes state byte of (nodes', next) \<Rightarrow> add_loop nodes' next rest)"

definition add :: "automaton \<Rightarrow> bytes \<Rightarrow> automaton" where
  "add nodes pattern =
     (case add_loop nodes 0 pattern of
        (nodes', state) \<Rightarrow> nodes'[state := (nodes' ! state)\<lparr>terminal := length pattern\<rparr>])"

type_synonym edge_order = "(u8 \<Rightarrow> nat option) \<Rightarrow> (u8 \<times> nat) list"

text \<open>The inner loop of \<open>finish\<close>, over the edges of one popped node.\<close>

fun finish_children :: "automaton \<Rightarrow> nat \<Rightarrow> (u8 \<times> nat) list \<Rightarrow> nat list \<Rightarrow> (automaton \<times> nat list) option" where
  "finish_children nodes parent [] queue = Some (nodes, queue)"
| "finish_children nodes parent ((byte, child) # rest) queue =
     (case advance nodes (failure (nodes ! parent)) byte of
        None \<Rightarrow> None
      | Some fl \<Rightarrow>
          (if fl < length nodes \<and> child < length nodes then
             let nodes1 = nodes[child := (nodes ! child)\<lparr>failure := fl\<rparr>];
                 nodes2 = nodes1[child := (nodes1 ! child)
                            \<lparr>terminal := max (terminal (nodes1 ! child)) (terminal (nodes1 ! fl))\<rparr>]
             in finish_children nodes2 parent rest (queue @ [child])
           else None))"

partial_function (option) finish_loop :: "edge_order \<Rightarrow> automaton \<Rightarrow> nat list \<Rightarrow> automaton option" where
  "finish_loop iter nodes queue =
     (case queue of
        [] \<Rightarrow> Some nodes
      | parent # rest \<Rightarrow>
          (if parent < length nodes then
             Option.bind (finish_children nodes parent (iter (edges (nodes ! parent))) rest)
               (\<lambda>r. finish_loop iter (fst r) (snd r))
           else None))"

definition finish :: "edge_order \<Rightarrow> automaton \<Rightarrow> automaton option" where
  "finish iter nodes = finish_loop iter nodes (map snd (iter (edges (nodes ! 0))))"

section \<open>The Python entry points\<close>

text \<open>\<open>compile\<close> takes any Python object: not a sequence, or a sequence whose items are byte
  strings or something else.  Every early return of the source is an error value.\<close>

datatype py_item = PyBytes bytes | NotBytes

datatype phrase_error =
    NotASequence
  | PatternCount        \<comment> \<open>Expected 1..2048 byte patterns\<close>
  | PatternNotBytes     \<comment> \<open>raised by PyBytes_AsStringAndSize\<close>
  | EmptyOrOverBudget   \<comment> \<open>Empty pattern or phrase byte budget exceeded\<close>
  | InvalidState        \<comment> \<open>Invalid phrase automaton state\<close>

fun compile_items :: "automaton \<Rightarrow> nat \<Rightarrow> py_item list \<Rightarrow> phrase_error + automaton" where
  "compile_items nodes total_bytes [] = Inr nodes"
| "compile_items nodes total_bytes (NotBytes # items) = Inl PatternNotBytes"
| "compile_items nodes total_bytes (PyBytes pattern # items) =
     (let total = total_bytes + length pattern in
      if length pattern = 0 \<or> total > 262144 then Inl EmptyOrOverBudget
      else compile_items (add nodes pattern) total items)"

definition compile :: "edge_order \<Rightarrow> py_item list option \<Rightarrow> (phrase_error + automaton) option" where
  "compile iter patterns =
     (case patterns of
        None \<Rightarrow> Some (Inl NotASequence)
      | Some items \<Rightarrow>
          (if length items = 0 \<or> length items > 2048 then Some (Inl PatternCount)
           else case compile_items empty_automaton 0 items of
                  Inl e \<Rightarrow> Some (Inl e)
                | Inr nodes \<Rightarrow> map_option Inr (finish iter nodes)))"

text \<open>The loop of \<open>scan\<close>: position, current state and the earliest start found so far.\<close>

fun scan_loop :: "automaton \<Rightarrow> nat \<Rightarrow> int option \<Rightarrow> nat \<Rightarrow> bytes \<Rightarrow> (nat \<times> int option) option" where
  "scan_loop nodes i earliest state [] = Some (state, earliest)"
| "scan_loop nodes i earliest state (byte # rest) =
     (case advance nodes state byte of
        None \<Rightarrow> None
      | Some state' \<Rightarrow>
          (if state' < length nodes then
             let t = terminal (nodes ! state');
                 start = int i + 1 - int t;
                 earliest' =
                   (if t \<noteq> 0 then
                      (case earliest of
                         None \<Rightarrow> Some start
                       | Some e \<Rightarrow> Some (if start < e then start else e))
                    else earliest)
             in scan_loop nodes (i + 1) earliest' state' rest
           else None))"

definition scan :: "automaton \<Rightarrow> int \<Rightarrow> bytes \<Rightarrow> (phrase_error + nat \<times> int option \<times> nat) option" where
  "scan nodes state data =
     (if state < 0 \<or> nat state \<ge> length nodes then Some (Inl InvalidState)
      else map_option (\<lambda>(st, match). Inr (st, match, depth (nodes ! st)))
             (scan_loop nodes 0 None (nat state) data))"

section \<open>Labelled tries\<close>

text \<open>\<open>trie nodes L\<close>: \<open>L ! i\<close> is the byte string that leads from the root to node \<open>i\<close>.\<close>

definition trie :: "automaton \<Rightarrow> bytes list \<Rightarrow> bool" where
  "trie nodes L \<longleftrightarrow>
     length L = length nodes \<and> L \<noteq> [] \<and> L ! 0 = [] \<and> distinct L \<and>
     (\<forall>i < length nodes. depth (nodes ! i) = length (L ! i)) \<and>
     (\<forall>i < length nodes. \<forall>b j.
        edges (nodes ! i) b = Some j \<longleftrightarrow> j < length nodes \<and> L ! j = L ! i @ [b]) \<and>
     (\<forall>w b. w @ [b] \<in> set L \<longrightarrow> w \<in> set L)"

text \<open>\<open>building nodes L P\<close>: the state between calls of \<open>add\<close>, after the patterns \<open>P\<close>.\<close>

definition building :: "automaton \<Rightarrow> bytes list \<Rightarrow> bytes set \<Rightarrow> bool" where
  "building nodes L P \<longleftrightarrow>
     trie nodes L \<and> P \<subseteq> set L \<and>
     (\<forall>i < length nodes. failure (nodes ! i) = 0 \<and>
        terminal (nodes ! i) = (if L ! i \<in> P then length (L ! i) else 0))"

lemma trie_length: "trie nodes L \<Longrightarrow> length L = length nodes"
  by (simp add: trie_def)

lemma trie_nonempty: "trie nodes L \<Longrightarrow> 0 < length nodes"
  by (auto simp: trie_def)

lemma trie_root: "trie nodes L \<Longrightarrow> L ! 0 = []"
  by (simp add: trie_def)

lemma trie_label: "trie nodes L \<Longrightarrow> i < length nodes \<Longrightarrow> L ! i \<in> set L"
  by (simp add: trie_def)

lemma trie_index:
  assumes "trie nodes L" and "w \<in> set L"
  obtains i where "i < length nodes" and "L ! i = w"
  using assms by (metis in_set_conv_nth trie_length)

lemma trie_edge:
  "trie nodes L \<Longrightarrow> i < length nodes \<Longrightarrow>
     edges (nodes ! i) b = Some j \<longleftrightarrow> j < length nodes \<and> L ! j = L ! i @ [b]"
  by (simp add: trie_def)

lemma trie_depth: "trie nodes L \<Longrightarrow> i < length nodes \<Longrightarrow> depth (nodes ! i) = length (L ! i)"
  by (simp add: trie_def)

lemma trie_inj:
  "trie nodes L \<Longrightarrow> i < length nodes \<Longrightarrow> j < length nodes \<Longrightarrow> L ! i = L ! j \<longleftrightarrow> i = j"
  by (simp add: trie_def nth_eq_iff_index_eq)

lemma trie_no_edge:
  assumes "trie nodes L" and "i < length nodes" and "edges (nodes ! i) b = None"
  shows "L ! i @ [b] \<notin> set L"
proof
  assume "L ! i @ [b] \<in> set L"
  then obtain j where "j < length nodes" "L ! j = L ! i @ [b]"
    using assms(1) by (metis in_set_conv_nth trie_length)
  with assms show False using trie_edge [of nodes L i b j] by simp
qed

lemma trie_snocD: "trie nodes L \<Longrightarrow> w @ [b] \<in> set L \<Longrightarrow> w \<in> set L"
  by (auto simp: trie_def)

lemma trie_empty: "trie empty_automaton [[]]"
  by (auto simp: trie_def empty_automaton_def new_node_def)

lemma building_empty: "building empty_automaton [[]] {}"
  by (simp add: building_def trie_empty) (simp add: empty_automaton_def new_node_def)

lemma building_trie: "building nodes L P \<Longrightarrow> trie nodes L"
  by (simp add: building_def)

section \<open>\<open>add\<close> inserts a pattern\<close>

lemma trie_extend:
  assumes t: "trie nodes L" and st: "state < length nodes" and none: "edges (nodes ! state) b = None"
    and n: "n = length nodes"
    and nodes': "nodes' = nodes[state := (nodes ! state)\<lparr>edges := (edges (nodes ! state))(b \<mapsto> n)\<rparr>]
                    @ [new_node\<lparr>depth := depth (nodes ! state) + 1\<rparr>]"
  shows "trie nodes' (L @ [L ! state @ [b]])" (is "trie _ ?L")
proof -
  have fresh: "L ! state @ [b] \<notin> set L"
    using t st none by (rule trie_no_edge)
  have len: "length L = length nodes" "length nodes' = Suc (length nodes)"
    using trie_length [OF t] by (simp_all add: nodes')
  have lab: "?L ! i = L ! i" if "i < length nodes" for i
    using that len by (simp add: nth_append)
  have labn: "?L ! length nodes = L ! state @ [b]"
    using len by (simp add: nth_append)
  have edge: "edges (nodes' ! i) c = Some j \<longleftrightarrow> j < length nodes' \<and> ?L ! j = ?L ! i @ [c]"
    if i: "i < length nodes'" for i c j
  proof (cases "i = length nodes")
    case True
    have "\<not> (j < length nodes' \<and> ?L ! j = ?L ! i @ [c])"
    proof
      assume j: "j < length nodes' \<and> ?L ! j = ?L ! i @ [c]"
      then have eq: "?L ! j = L ! state @ [b, c]" using True labn by simp
      show False
      proof (cases "j = length nodes")
        case True
        with eq labn show False by simp
      next
        case False
        with j len have "j < length nodes" by simp
        with eq len lab have "(L ! state @ [b]) @ [c] \<in> set L"
          by (metis append.assoc append_Cons append_Nil nth_mem)
        with t fresh show False using trie_snocD by blast
      qed
    qed
    then show ?thesis using True len by (simp add: nodes' nth_append new_node_def)
  next
    case False
    with i len have i': "i < length nodes" by simp
    have old: "edges (nodes ! i) c = Some j \<longleftrightarrow> j < length nodes \<and> L ! j = L ! i @ [c]"
      using t i' by (rule trie_edge)
    have new: "?L ! length nodes = ?L ! i @ [c] \<longleftrightarrow> i = state \<and> c = b"
      using i' st labn lab [OF i'] trie_inj [OF t i' st] by auto
    show ?thesis
      using i' st old new len lab n none
      by (auto simp: nodes' nth_append nth_list_update less_Suc_eq)
  qed
  have dep: "depth (nodes' ! i) = length (?L ! i)" if "i < length nodes'" for i
    using that len trie_depth [OF t] st lab labn
    by (auto simp: nodes' nth_append nth_list_update less_Suc_eq)
  have "w \<in> set ?L" if "w @ [c] \<in> set ?L" for w c
    using that t st len trie_snocD [OF t] by (auto simp: in_set_conv_nth)
  then show ?thesis
    using t fresh len dep edge lab trie_nonempty [OF t] by (simp add: trie_def)
qed

lemma add_step_correct:
  assumes bld: "building nodes L P" and st: "state < length nodes"
    and step: "add_step nodes state b = (nodes', next)"
  shows "\<exists>L'. building nodes' L' P \<and> next < length nodes' \<and> L' ! next = L ! state @ [b] \<and>
     set L' = insert (L ! state @ [b]) (set L) \<and> prefix L L'"
proof (cases "edges (nodes ! state) b")
  case (Some j)
  have t: "trie nodes L" using bld by (rule building_trie)
  from Some have "j < length nodes" "L ! j = L ! state @ [b]"
    using trie_edge [OF t st] by auto
  with Some step bld trie_label [OF t \<open>j < length nodes\<close>] show ?thesis
    by (intro exI [of _ L]) (auto simp: add_step_def)
next
  case None
  let ?L = "L @ [L ! state @ [b]]"
  have t: "trie nodes L" using bld by (rule building_trie)
  from None step have nodes': "nodes' = nodes[state := (nodes ! state)
      \<lparr>edges := (edges (nodes ! state))(b \<mapsto> length nodes)\<rparr>]
        @ [new_node\<lparr>depth := depth (nodes ! state) + 1\<rparr>]" and nx: "next = length nodes"
    using st by (auto simp: add_step_def Let_def)
  have fresh: "L ! state @ [b] \<notin> P"
    using bld trie_no_edge [OF t st None] by (auto simp: building_def)
  have t': "trie nodes' ?L"
    by (rule trie_extend [OF t st None refl nodes'])
  have "building nodes' ?L P"
    using bld t' fresh trie_length [OF t] st
    by (auto simp: building_def nodes' nth_append nth_list_update less_Suc_eq new_node_def)
  then show ?thesis
    using nodes' nx trie_length [OF t] by (intro exI [of _ ?L]) (auto simp: nth_append)
qed

lemma add_loop_correct:
  assumes "building nodes L P" and "state < length nodes"
    and "add_loop nodes state bs = (nodes', lst)"
  shows "\<exists>L'. building nodes' L' P \<and> lst < length nodes' \<and> L' ! lst = L ! state @ bs \<and>
     set L' = set L \<union> {L ! state @ w | w. prefix w bs} \<and> prefix L L'"
  using assms
proof (induction bs arbitrary: nodes L state)
  case Nil
  then show ?case
    by (intro exI [of _ L]) (auto simp: building_def trie_label)
next
  case (Cons b bs)
  obtain n1 s1 where step: "add_step nodes state b = (n1, s1)" by fastforce
  from add_step_correct [OF Cons.prems(1,2) step] obtain L1 where
    L1: "building n1 L1 P" "s1 < length n1" "L1 ! s1 = L ! state @ [b]"
      "set L1 = insert (L ! state @ [b]) (set L)" "prefix L L1" by auto
  from Cons.prems(3) step have loop: "add_loop n1 s1 bs = (nodes', lst)" by simp
  from Cons.IH [OF L1(1,2) loop] obtain L' where
    L': "building nodes' L' P" "lst < length nodes'" "L' ! lst = L1 ! s1 @ bs"
      "set L' = set L1 \<union> {L1 ! s1 @ w | w. prefix w bs}" "prefix L1 L'" by auto
  have "set L' = set L \<union> {L ! state @ w | w. prefix w (b # bs)}"
    using trie_label [OF building_trie [OF Cons.prems(1)] Cons.prems(2)] L1(3,4) L'(4)
    by (auto simp: prefix_Cons)
  with L' L1 show ?case
    by (intro exI [of _ L']) (auto intro: prefix_order.trans)
qed

lemma building_terminal:
  assumes bld: "building nodes L P" and st: "state < length nodes"
  shows "building (nodes[state := (nodes ! state)\<lparr>terminal := length (L ! state)\<rparr>]) L (insert (L ! state) P)"
    (is "building ?nodes _ _")
proof -
  have t: "trie nodes L" using bld by (rule building_trie)
  have same: "edges (?nodes ! i) = edges (nodes ! i) \<and> depth (?nodes ! i) = depth (nodes ! i)"
    if "i < length nodes" for i
    using that st by (simp add: nth_list_update)
  have "trie ?nodes L"
    using t same by (simp add: trie_def)
  moreover have "terminal (?nodes ! i) = (if L ! i \<in> insert (L ! state) P then length (L ! i) else 0)"
    if "i < length nodes" for i
    using that bld st trie_inj [OF t that st] by (auto simp: building_def nth_list_update)
  moreover have "failure (?nodes ! i) = 0" if "i < length nodes" for i
    using that bld st by (auto simp: building_def nth_list_update)
  ultimately show ?thesis
    using bld trie_label [OF t st] by (auto simp: building_def)
qed

text \<open>The labels of the trie are the prefixes of the patterns.\<close>

definition prefix_closure :: "bytes set \<Rightarrow> bytes set" where
  "prefix_closure P = {w. w = [] \<or> (\<exists>p\<in>P. prefix w p)}"

lemma add_correct:
  assumes bld: "building nodes L P" and labels: "set L = prefix_closure P"
  shows "\<exists>L'. building (add nodes pattern) L' (insert pattern P) \<and>
     set L' = prefix_closure (insert pattern P)"
proof -
  have t: "trie nodes L" using bld by (rule building_trie)
  obtain n1 s1 where loop: "add_loop nodes 0 pattern = (n1, s1)" by fastforce
  from add_loop_correct [OF bld trie_nonempty [OF t] loop] trie_root [OF t] obtain L' where
    L': "building n1 L' P" "s1 < length n1" "L' ! s1 = pattern"
      "set L' = set L \<union> {w. prefix w pattern}" by auto
  have "building (add nodes pattern) L' (insert pattern P)"
    using building_terminal [OF L'(1,2)] L'(3) loop by (simp add: add_def)
  moreover have "set L' = prefix_closure (insert pattern P)"
    using L'(4) labels by (auto simp: prefix_closure_def)
  ultimately show ?thesis by blast
qed

section \<open>Longest suffixes\<close>

text \<open>\<open>longest_suffix S w v\<close>: \<open>v\<close> is the longest member of \<open>S\<close> that is a suffix of \<open>w\<close>.\<close>

definition longest_suffix :: "bytes set \<Rightarrow> bytes \<Rightarrow> bytes \<Rightarrow> bool" where
  "longest_suffix S w v \<longleftrightarrow> v \<in> S \<and> suffix v w \<and> (\<forall>u\<in>S. suffix u w \<longrightarrow> suffix u v)"

definition longest_proper_suffix :: "bytes set \<Rightarrow> bytes \<Rightarrow> bytes \<Rightarrow> bool" where
  "longest_proper_suffix S w v \<longleftrightarrow>
     v \<in> S \<and> strict_suffix v w \<and> (\<forall>u\<in>S. strict_suffix u w \<longrightarrow> suffix u v)"

definition snoc_closed :: "bytes set \<Rightarrow> bool" where
  "snoc_closed S \<longleftrightarrow> (\<forall>w b. w @ [b] \<in> S \<longrightarrow> w \<in> S)"

lemma longest_proper_suffix_length: "longest_proper_suffix S w v \<Longrightarrow> length v < length w"
  by (auto simp: longest_proper_suffix_def strict_suffix_def suffix_def)

lemma longest_suffix_unique: "longest_suffix S w v \<Longrightarrow> longest_suffix S w v' \<Longrightarrow> v = v'"
  by (meson longest_suffix_def suffix_order.antisym)

lemma longest_suffix_self: "v \<in> S \<Longrightarrow> longest_suffix S v v"
  by (simp add: longest_suffix_def)

lemma longest_suffix_snocI:
  assumes "v' \<in> S" and "suffix v' (w @ [b])"
    and "\<And>u. u @ [b] \<in> S \<Longrightarrow> suffix u w \<Longrightarrow> suffix (u @ [b]) v'"
  shows "longest_suffix S (w @ [b]) v'"
  unfolding longest_suffix_def
proof (intro conjI ballI impI)
  fix u assume "u \<in> S" "suffix u (w @ [b])"
  with assms(3) show "suffix u v'" by (cases u rule: rev_cases) auto
qed (use assms in auto)

text \<open>Reading one byte: only the current longest suffix matters.\<close>

lemma longest_suffix_step:
  assumes "snoc_closed S" and w: "longest_suffix S w v" and v: "longest_suffix S (v @ [b]) v'"
  shows "longest_suffix S (w @ [b]) v'"
proof (rule longest_suffix_snocI)
  show "v' \<in> S" using v by (simp add: longest_suffix_def)
  show "suffix v' (w @ [b])"
    using w v by (auto simp: longest_suffix_def intro: suffix_order.trans)
  fix u assume u: "u @ [b] \<in> S" "suffix u w"
  with assms(1) have "u \<in> S" by (auto simp: snoc_closed_def)
  with u w have "suffix (u @ [b]) (v @ [b])" by (auto simp: longest_suffix_def)
  with u v show "suffix (u @ [b]) v'" by (auto simp: longest_suffix_def)
qed

text \<open>Where the longest suffix has no edge, its failure link decides.\<close>

lemma longest_suffix_fail:
  assumes "snoc_closed S" and "v @ [b] \<notin> S"
    and f: "longest_proper_suffix S v f" and v': "longest_suffix S (f @ [b]) v'"
  shows "longest_suffix S (v @ [b]) v'"
proof (rule longest_suffix_snocI)
  show "v' \<in> S" using v' by (simp add: longest_suffix_def)
  show "suffix v' (v @ [b])"
    using f v' by (auto simp: longest_suffix_def longest_proper_suffix_def strict_suffix_def
        intro: suffix_order.trans)
  fix u assume u: "u @ [b] \<in> S" "suffix u v"
  with assms(1,2) have "u \<in> S" "strict_suffix u v"
    by (auto simp: snoc_closed_def strict_suffix_def)
  with f have "suffix (u @ [b]) (f @ [b])" by (auto simp: longest_proper_suffix_def)
  with u v' show "suffix (u @ [b]) v'" by (auto simp: longest_suffix_def)
qed

lemma longest_proper_suffix_snoc:
  assumes "snoc_closed S" and f: "longest_proper_suffix S v f" and v': "longest_suffix S (f @ [b]) v'"
  shows "longest_proper_suffix S (v @ [b]) v'"
proof -
  have "length f < length v"
    using f by (rule longest_proper_suffix_length)
  moreover have "suffix v' (f @ [b])" "suffix f v"
    using f v' by (auto simp: longest_suffix_def longest_proper_suffix_def strict_suffix_def)
  ultimately have "strict_suffix v' (v @ [b])"
    by (auto simp: strict_suffix_def suffix_def)
  moreover have "suffix u v'" if "u \<in> S" "strict_suffix u (v @ [b])" for u
  proof (cases u rule: rev_cases)
    case (snoc u' c)
    with that assms(1) have "c = b" "u' \<in> S" "strict_suffix u' v"
      by (auto simp: snoc_closed_def strict_suffix_def)
    with f snoc have "suffix u (f @ [b])" by (auto simp: longest_proper_suffix_def)
    with v' that show ?thesis by (auto simp: longest_suffix_def)
  qed simp
  ultimately show ?thesis
    using v' by (simp add: longest_proper_suffix_def longest_suffix_def)
qed

text \<open>\<open>longest_pattern P w t\<close>: \<open>t\<close> is the length of the longest pattern that ends \<open>w\<close>, 0 if none does.\<close>

definition longest_pattern :: "bytes set \<Rightarrow> bytes \<Rightarrow> nat \<Rightarrow> bool" where
  "longest_pattern P w t \<longleftrightarrow>
     (\<forall>p\<in>P. suffix p w \<longrightarrow> length p \<le> t) \<and> (t = 0 \<or> (\<exists>p\<in>P. suffix p w \<and> length p = t))"

lemma longest_pattern_suffix:
  "longest_suffix S w v \<Longrightarrow> P \<subseteq> S \<Longrightarrow> longest_pattern P w t \<longleftrightarrow> longest_pattern P v t"
  unfolding longest_pattern_def longest_suffix_def
  by (metis subsetD suffix_order.trans)

lemma longest_pattern_merge:
  assumes "longest_proper_suffix S w f" and "P \<subseteq> S" and "longest_pattern P f t"
  shows "longest_pattern P w (max (if w \<in> P then length w else 0) t)"
proof -
  have fw: "suffix f w" "length f \<le> length w"
    using assms(1) by (auto simp: longest_proper_suffix_def strict_suffix_def suffix_length_le)
  have t: "t \<le> length f"
    using assms(3) by (auto simp: longest_pattern_def suffix_length_le)
  have "length p \<le> max (if w \<in> P then length w else 0) t" if p: "p \<in> P" "suffix p w" for p
  proof (cases "p = w")
    case False
    with p have "strict_suffix p w" by (simp add: strict_suffix_def)
    with p assms(1,2) have "suffix p f" by (auto simp: longest_proper_suffix_def)
    with p assms(3) have "length p \<le> t" by (auto simp: longest_pattern_def)
    then show ?thesis by simp
  qed (use p in simp)
  moreover have "\<exists>p\<in>P. suffix p w \<and> length p = max (if w \<in> P then length w else 0) t"
    if "max (if w \<in> P then length w else 0) t \<noteq> 0"
  proof (cases "w \<in> P")
    case True
    with fw t show ?thesis by (intro bexI [of _ w]) auto
  next
    case False
    with that assms(3) fw(1) show ?thesis
      by (auto simp: longest_pattern_def intro: suffix_order.trans)
  qed
  ultimately show ?thesis unfolding longest_pattern_def by blast
qed

lemma trie_snoc_closed: "trie nodes L \<Longrightarrow> snoc_closed (set L)"
  by (auto simp: trie_def snoc_closed_def)

section \<open>\<open>advance\<close> follows the failure links\<close>

definition failure_ok :: "automaton \<Rightarrow> bytes list \<Rightarrow> nat \<Rightarrow> bool" where
  "failure_ok nodes L i \<longleftrightarrow>
     failure (nodes ! i) < length nodes \<and>
     longest_proper_suffix (set L) (L ! i) (L ! failure (nodes ! i))"

definition node_ok :: "automaton \<Rightarrow> bytes list \<Rightarrow> bytes set \<Rightarrow> nat \<Rightarrow> bool" where
  "node_ok nodes L P i \<longleftrightarrow>
     (i \<noteq> 0 \<longrightarrow> failure_ok nodes L i) \<and> longest_pattern P (L ! i) (terminal (nodes ! i))"

lemma advance_correct:
  assumes t: "trie nodes L" and "state < length nodes"
    and "\<And>i. i < length nodes \<Longrightarrow> i \<noteq> 0 \<Longrightarrow> length (L ! i) \<le> length (L ! state) \<Longrightarrow> failure_ok nodes L i"
  shows "\<exists>j < length nodes. advance nodes state b = Some j \<and>
     longest_suffix (set L) (L ! state @ [b]) (L ! j)"
  using assms(2,3)
proof (induction "length (L ! state)" arbitrary: state rule: less_induct)
  case less
  show ?case
  proof (cases "edges (nodes ! state) b")
    case (Some j)
    with t less.prems(1) have j: "j < length nodes" "L ! j = L ! state @ [b]"
      using trie_edge by auto
    with trie_label [OF t j(1)] Some less.prems(1) show ?thesis
      by (auto simp: advance.simps intro!: longest_suffix_self)
  next
    case None
    have no: "L ! state @ [b] \<notin> set L"
      using t less.prems(1) None by (rule trie_no_edge)
    show ?thesis
    proof (cases "state = 0")
      case True
      have "longest_suffix (set L) ([] @ [b]) []"
        using no True trie_root [OF t] trie_label [OF t trie_nonempty [OF t]]
        by (intro longest_suffix_snocI) auto
      with True None trie_root [OF t] trie_nonempty [OF t] show ?thesis
        by (auto simp: advance.simps)
    next
      case False
      let ?f = "failure (nodes ! state)"
      from False less.prems have f: "?f < length nodes"
        "longest_proper_suffix (set L) (L ! state) (L ! ?f)"
        by (auto simp: failure_ok_def)
      then have len: "length (L ! ?f) < length (L ! state)"
        by (blast dest: longest_proper_suffix_length)
      obtain j where j: "j < length nodes" "advance nodes ?f b = Some j"
        "longest_suffix (set L) (L ! ?f @ [b]) (L ! j)"
        using less.hyps [OF len f(1)] less.prems(2) len by fastforce
      have "longest_suffix (set L) (L ! state @ [b]) (L ! j)"
        using trie_snoc_closed [OF t] no f(2) j(3) by (rule longest_suffix_fail)
      moreover have "advance nodes state b = Some j"
        using None False less.prems(1) j(2) by (simp add: advance.simps [of nodes state])
      ultimately show ?thesis using j(1) by blast
    qed
  qed
qed

section \<open>\<open>finish\<close> computes failure links and terminal lengths\<close>

definition edge_order_ok :: "edge_order \<Rightarrow> bool" where
  "edge_order_ok iter \<longleftrightarrow> (\<forall>m. distinct (iter m) \<and> set (iter m) = {(b, j). m b = Some j})"

text \<open>
  The invariant of the breadth-first search.  \<open>X\<close> holds the popped nodes (and the root), \<open>queue\<close>
  the discovered ones, \<open>R\<close> the children of the node being expanded that are still to be visited;
  \<open>d\<close> is the depth of the node being expanded.
\<close>

definition bfs_inv :: "automaton \<Rightarrow> bytes list \<Rightarrow> bytes set \<Rightarrow> nat set \<Rightarrow> nat list \<Rightarrow> nat set \<Rightarrow> nat \<Rightarrow> bool" where
  "bfs_inv nodes L P X queue R d \<longleftrightarrow>
     trie nodes L \<and> P \<subseteq> set L \<and> 0 \<in> X \<and>
     X \<union> set queue \<union> R \<subseteq> {..<length nodes} \<and>
     distinct queue \<and> X \<inter> set queue = {} \<and> (X \<union> set queue) \<inter> R = {} \<and>
     (\<forall>i \<in> X \<union> set queue. node_ok nodes L P i) \<and>
     (\<forall>i < length nodes. i \<notin> X \<union> set queue \<longrightarrow>
        terminal (nodes ! i) = (if L ! i \<in> P then length (L ! i) else 0)) \<and>
     (\<forall>i \<in> X. \<forall>j < length nodes. \<forall>b. L ! j = L ! i @ [b] \<longrightarrow> j \<in> X \<union> set queue \<union> R) \<and>
     (\<forall>i < length nodes. \<forall>j \<in> X \<union> set queue \<union> R. \<forall>b. L ! j = L ! i @ [b] \<longrightarrow> i \<in> X) \<and>
     (\<forall>j \<in> R. length (L ! j) = d + 1) \<and>
     (\<forall>j \<in> set queue. d \<le> length (L ! j) \<and> length (L ! j) \<le> d + 1) \<and>
     sorted (map (\<lambda>j. length (L ! j)) queue)"

lemma bfs_invD:
  assumes "bfs_inv nodes L P X queue R d"
  shows bfs_inv_trie: "trie nodes L"
    and bfs_inv_patterns: "P \<subseteq> set L"
    and bfs_inv_root: "0 \<in> X"
    and bfs_inv_range: "X \<union> set queue \<union> R \<subseteq> {..<length nodes}"
    and bfs_inv_node_ok: "\<And>i. i \<in> X \<union> set queue \<Longrightarrow> node_ok nodes L P i"
    and bfs_inv_child: "\<And>i j b. i \<in> X \<Longrightarrow> j < length nodes \<Longrightarrow> L ! j = L ! i @ [b] \<Longrightarrow> j \<in> X \<union> set queue \<union> R"
    and bfs_inv_parent: "\<And>i j b. i < length nodes \<Longrightarrow> j \<in> X \<union> set queue \<union> R \<Longrightarrow> L ! j = L ! i @ [b] \<Longrightarrow> i \<in> X"
    and bfs_inv_pending: "\<And>j. j \<in> R \<Longrightarrow> length (L ! j) = d + 1"
    and bfs_inv_queue: "\<And>j. j \<in> set queue \<Longrightarrow> d \<le> length (L ! j) \<and> length (L ! j) \<le> d + 1"
    and bfs_inv_sorted: "sorted (map (\<lambda>j. length (L ! j)) queue)"
  using assms by (simp_all only: bfs_inv_def)

text \<open>Every node no deeper than the one being expanded has been discovered.\<close>

lemma bfs_inv_discovered:
  assumes inv: "bfs_inv nodes L P X queue R d" and "i < length nodes" and "length (L ! i) \<le> d"
  shows "i \<in> X \<union> set queue"
  using assms(2,3)
proof (induction "length (L ! i)" arbitrary: i rule: less_induct)
  case less
  have t: "trie nodes L" using inv by (rule bfs_inv_trie)
  show ?case
  proof (cases "L ! i" rule: rev_cases)
    case Nil
    with t less.prems(1) have "i = 0"
      using trie_inj [OF t less.prems(1) trie_nonempty [OF t]] trie_root [OF t] by simp
    with inv show ?thesis by (simp add: bfs_inv_def)
  next
    case (snoc w b)
    with t less.prems(1) have "w \<in> set L"
      using trie_label [OF t] trie_snocD [OF t] by metis
    with t obtain k where k: "k < length nodes" "L ! k = w" by (rule trie_index)
    with snoc less.prems less.hyps [of k] have "k \<in> X \<union> set queue" by simp
    moreover have "k \<notin> set queue"
      using bfs_inv_queue [OF inv, of k] k snoc less.prems(2) by auto
    ultimately have "i \<in> X \<union> set queue \<union> R"
      using bfs_inv_child [OF inv _ less.prems(1)] k snoc by auto
    moreover have "i \<notin> R" using bfs_inv_pending [OF inv, of i] less.prems(2) by auto
    ultimately show ?thesis by simp
  qed
qed

lemma trie_update:
  assumes "trie nodes L" and "edges v = edges (nodes ! c)" and "depth v = depth (nodes ! c)"
  shows "trie (nodes[c := v]) L"
proof -
  have "edges (nodes[c := v] ! i) = edges (nodes ! i) \<and> depth (nodes[c := v] ! i) = depth (nodes ! i)"
    for i using assms(2,3) by (cases "c < length nodes") (auto simp: nth_list_update list_update_beyond)
  with assms(1) show ?thesis by (simp add: trie_def)
qed

text \<open>Visiting one child: its failure link and terminal length become right.\<close>

lemma bfs_visit:
  assumes inv: "bfs_inv nodes L P X queue R d" and c: "c \<in> R"
    and f: "f < length nodes" "longest_proper_suffix (set L) (L ! c) (L ! f)"
    and v: "v = (nodes ! c)\<lparr>failure := f, terminal := max (terminal (nodes ! c)) (terminal (nodes ! f))\<rparr>"
  shows "bfs_inv (nodes[c := v]) L P X (queue @ [c]) (R - {c}) d"
proof -
  let ?nodes = "nodes[c := v]"
  have t: "trie nodes L" using inv by (rule bfs_inv_trie)
  have c': "c < length nodes" "c \<notin> X \<union> set queue" "length (L ! c) = d + 1"
    using inv c by (auto simp: bfs_inv_def)
  have fl: "length (L ! f) \<le> d"
    using longest_proper_suffix_length [OF f(2)] c'(3) by simp
  have f_ok: "longest_pattern P (L ! f) (terminal (nodes ! f))"
    using bfs_inv_node_ok [OF inv bfs_inv_discovered [OF inv f(1) fl]] by (simp add: node_ok_def)
  have old: "?nodes ! i = nodes ! i" if "i \<noteq> c" for i
    using that by simp
  have new: "?nodes ! c = v" using c'(1) by simp
  have term_c: "terminal (nodes ! c) = (if L ! c \<in> P then length (L ! c) else 0)"
    using inv c' by (simp add: bfs_inv_def)
  have "node_ok ?nodes L P c"
    unfolding node_ok_def failure_ok_def new
    using f longest_pattern_merge [OF f(2) _ f_ok] inv term_c by (simp add: v bfs_inv_def)
  moreover have "node_ok ?nodes L P i" if "i \<in> X \<union> set queue" for i
  proof -
    have "i \<noteq> c" "node_ok nodes L P i"
      using that bfs_inv_node_ok [OF inv] c'(2) by blast+
    then show ?thesis by (simp add: node_ok_def failure_ok_def)
  qed
  ultimately have ok: "\<forall>i \<in> X \<union> set (queue @ [c]). node_ok ?nodes L P i" by auto
  have t': "trie ?nodes L" by (rule trie_update [OF t]) (simp_all add: v)
  have rest: "\<forall>i < length nodes. i \<notin> X \<union> set (queue @ [c]) \<longrightarrow>
      terminal (?nodes ! i) = (if L ! i \<in> P then length (L ! i) else 0)"
    using inv old by (auto simp: bfs_inv_def)
  have sorted: "sorted (map (\<lambda>j. length (L ! j)) (queue @ [c]))"
    using inv c'(3) by (auto simp: bfs_inv_def sorted_append)
  have sets: "set (queue @ [c]) \<union> (R - {c}) = set queue \<union> R"
    using c by auto
  show ?thesis
    unfolding bfs_inv_def Un_assoc sets length_list_update
  proof (intro conjI)
    show "trie ?nodes L" "\<forall>i\<in>X \<union> set (queue @ [c]). node_ok ?nodes L P i"
      "sorted (map (\<lambda>j. length (L ! j)) (queue @ [c]))" by fact+
    show "\<forall>i < length nodes. i \<notin> X \<union> set (queue @ [c]) \<longrightarrow>
      terminal (?nodes ! i) = (if L ! i \<in> P then length (L ! i) else 0)" by fact
  qed (use inv c c' in \<open>simp_all add: bfs_inv_def Un_assoc\<close>; blast?)+
qed

lemma finish_children_correct:
  assumes "bfs_inv nodes L P X queue (snd ` set es) d"
    and "parent \<in> X" and "parent \<noteq> 0" and "length (L ! parent) = d"
    and "distinct (map snd es)" and "\<forall>(b, c) \<in> set es. L ! c = L ! parent @ [b]"
  shows "\<exists>nodes' queue'. finish_children nodes parent es queue = Some (nodes', queue') \<and>
     bfs_inv nodes' L P X queue' {} d \<and> length nodes' = length nodes"
  using assms
proof (induction es arbitrary: nodes queue)
  case Nil
  then show ?case by simp
next
  case (Cons e es)
  obtain b c where e: "e = (b, c)" by force
  note inv = Cons.prems(1)
  have t: "trie nodes L" using inv by (rule bfs_inv_trie)
  have c: "c < length nodes" "L ! c = L ! parent @ [b]"
    using inv Cons.prems(6) e by (auto simp: bfs_inv_def)
  have parent: "failure_ok nodes L parent"
    using bfs_inv_node_ok [OF inv, of parent] Cons.prems(2,3) by (simp add: node_ok_def)
  let ?fp = "failure (nodes ! parent)"
  have fp: "?fp < length nodes" "longest_proper_suffix (set L) (L ! parent) (L ! ?fp)"
    using parent by (auto simp: failure_ok_def)
  have "failure_ok nodes L i" if "i < length nodes" "i \<noteq> 0" "length (L ! i) \<le> length (L ! ?fp)" for i
    using bfs_inv_node_ok [OF inv bfs_inv_discovered [OF inv that(1)]] that
      longest_proper_suffix_length [OF fp(2)] Cons.prems(4) by (simp add: node_ok_def)
  from advance_correct [OF t fp(1) this] obtain f where
    f: "f < length nodes" "advance nodes ?fp b = Some f"
      "longest_suffix (set L) (L ! ?fp @ [b]) (L ! f)" by blast
  have fc: "longest_proper_suffix (set L) (L ! c) (L ! f)"
    using longest_proper_suffix_snoc [OF trie_snoc_closed [OF t] fp(2) f(3)] c(2) by simp
  define v where "v = (nodes ! c)\<lparr>failure := f, terminal := max (terminal (nodes ! c)) (terminal (nodes ! f))\<rparr>"
  have "f \<noteq> c" using longest_proper_suffix_length [OF fc] by auto
  then have upd: "finish_children nodes parent (e # es) queue = finish_children (nodes[c := v]) parent es (queue @ [c])"
    using f(1,2) c(1) e by (simp add: v_def Let_def)
  have "bfs_inv (nodes[c := v]) L P X (queue @ [c]) (snd ` set (e # es) - {c}) d"
    using inv f(1) fc v_def by (intro bfs_visit) (auto simp: e)
  moreover have "snd ` set (e # es) - {c} = snd ` set es"
    using Cons.prems(5) e by force
  ultimately have "bfs_inv (nodes[c := v]) L P X (queue @ [c]) (snd ` set es) d" by simp
  from Cons.IH [OF this] Cons.prems upd show ?case by simp
qed

lemma edge_order_children:
  assumes "edge_order_ok iter" and t: "trie nodes L" and i: "i < length nodes"
  shows "distinct (map snd (iter (edges (nodes ! i))))"
    and "\<forall>(b, c) \<in> set (iter (edges (nodes ! i))). L ! c = L ! i @ [b]"
    and "snd ` set (iter (edges (nodes ! i))) = {j. j < length nodes \<and> (\<exists>b. L ! j = L ! i @ [b])}"
proof -
  have *: "set (iter (edges (nodes ! i))) = {(b, j). j < length nodes \<and> L ! j = L ! i @ [b]}"
    using assms(1) trie_edge [OF t i] by (simp add: edge_order_ok_def)
  then show "\<forall>(b, c) \<in> set (iter (edges (nodes ! i))). L ! c = L ! i @ [b]"
    and "snd ` set (iter (edges (nodes ! i))) = {j. j < length nodes \<and> (\<exists>b. L ! j = L ! i @ [b])}"
    by (auto simp: image_iff)
  have "inj_on snd (set (iter (edges (nodes ! i))))"
    by (auto simp: inj_on_def *)
  with assms(1) show "distinct (map snd (iter (edges (nodes ! i))))"
    by (simp add: edge_order_ok_def distinct_map)
qed

text \<open>Popping a node: its children become the pending ones.\<close>

lemma bfs_pop:
  assumes inv: "bfs_inv nodes L P X (parent # queue) {} d"
  shows "bfs_inv nodes L P (insert parent X) queue
           {j. j < length nodes \<and> (\<exists>b. L ! j = L ! parent @ [b])} (length (L ! parent))"
    (is "bfs_inv _ _ _ _ _ ?R _")
proof -
  have t: "trie nodes L" using inv by (rule bfs_inv_trie)
  have p: "parent < length nodes" "parent \<notin> X" "parent \<notin> set queue"
    using inv by (auto simp: bfs_inv_def)
  have uniq: "i = parent" if "i < length nodes" "L ! i @ [b] = L ! parent @ [c]" for i b c
    using that trie_inj [OF t that(1) p(1)] by simp
  have fresh: "j \<notin> insert parent X \<union> set queue" if "j \<in> ?R" for j
  proof
    assume "j \<in> insert parent X \<union> set queue"
    moreover from that obtain b where "L ! j = L ! parent @ [b]" by blast
    ultimately have "parent \<in> X" using bfs_inv_parent [OF inv p(1), of j] by auto
    with p(2) show False by simp
  qed
  have parents: "i \<in> insert parent X"
    if "i < length nodes" "j \<in> insert parent X \<union> set queue \<union> ?R" "L ! j = L ! i @ [b]" for i j b
    using that bfs_inv_parent [OF inv that(1), of j b] uniq [OF that(1)] by auto
  have "\<forall>j \<in> set queue. length (L ! parent) \<le> length (L ! j) \<and> length (L ! j) \<le> length (L ! parent) + 1"
    using bfs_inv_sorted [OF inv] bfs_inv_queue [OF inv, of parent] bfs_inv_queue [OF inv] by fastforce
  moreover have "sorted (map (\<lambda>j. length (L ! j)) queue)"
    using bfs_inv_sorted [OF inv] by simp
  ultimately show ?thesis
    unfolding bfs_inv_def
  proof (intro conjI)
    show "(insert parent X \<union> set queue) \<inter> ?R = {}" using fresh by blast
    show "\<forall>i<length nodes. \<forall>j\<in>insert parent X \<union> set queue \<union> ?R. \<forall>b. L ! j = L ! i @ [b] \<longrightarrow> i \<in> insert parent X"
      using parents by blast
    show "\<forall>i\<in>insert parent X. \<forall>j<length nodes. \<forall>b. L ! j = L ! i @ [b] \<longrightarrow> j \<in> insert parent X \<union> set queue \<union> ?R"
    proof (intro ballI allI impI)
      fix i j b
      assume i: "i \<in> insert parent X" and j: "j < length nodes" "L ! j = L ! i @ [b]"
      show "j \<in> insert parent X \<union> set queue \<union> ?R"
      proof (cases "i = parent")
        case False
        with i have "i \<in> X" by simp
        from bfs_inv_child [OF inv this j] show ?thesis by auto
      qed (use j in blast)
    qed
    show "\<forall>j\<in>?R. length (L ! j) = length (L ! parent) + 1" by auto
  qed (use inv p in \<open>simp_all add: bfs_inv_def; blast?\<close>)+
qed

lemma bfs_inv_done: "bfs_inv nodes L P X [] {} d \<longleftrightarrow> bfs_inv nodes L P X [] {} d'"
  by (simp only: bfs_inv_def list.set ball_simps)

definition finished :: "automaton \<Rightarrow> bytes list \<Rightarrow> bytes set \<Rightarrow> bool" where
  "finished nodes L P \<longleftrightarrow> trie nodes L \<and> P \<subseteq> set L \<and> (\<forall>i < length nodes. node_ok nodes L P i)"

lemma finish_loop_correct:
  assumes "edge_order_ok iter" and "bfs_inv nodes L P X queue {} d"
  shows "\<exists>nodes'. finish_loop iter nodes queue = Some nodes' \<and> finished nodes' L P"
  using assms(2)
proof (induction "length nodes - card X" arbitrary: nodes X queue d rule: less_induct)
  case less
  note inv = less.prems
  have t: "trie nodes L" using inv by (rule bfs_inv_trie)
  show ?case
  proof (cases queue)
    case Nil
    have "node_ok nodes L P i" if i: "i < length nodes" for i
    proof -
      have "bfs_inv nodes L P X queue {} (length (L ! i))"
        using inv bfs_inv_done unfolding Nil by blast
      from bfs_inv_discovered [OF this i] have "i \<in> X \<union> set queue" by simp
      with inv show ?thesis by (rule bfs_inv_node_ok)
    qed
    with t bfs_inv_patterns [OF inv] Nil show ?thesis
      by (simp add: finish_loop.simps finished_def)
  next
    case (Cons parent rest)
    let ?es = "iter (edges (nodes ! parent))" and ?X = "insert parent X"
    have p: "parent < length nodes" "parent \<notin> X" "parent \<noteq> 0" "X \<subseteq> {..<length nodes}"
      using inv Cons by (auto simp: bfs_inv_def)
    note ch = edge_order_children [OF assms(1) t p(1)]
    have "bfs_inv nodes L P ?X rest (snd ` set ?es) (length (L ! parent))"
      using bfs_pop [OF inv [unfolded Cons]] by (simp add: ch(3))
    from finish_children_correct [OF this _ p(3) refl ch(1,2)] obtain nodes' queue' where
      step: "finish_children nodes parent ?es rest = Some (nodes', queue')"
        "bfs_inv nodes' L P ?X queue' {} (length (L ! parent))" "length nodes' = length nodes"
      by auto
    have "finite X" using p(4) by (rule finite_subset) simp
    moreover have "card ?X \<le> length nodes"
      using card_mono [of "{..<length nodes}" ?X] p(1,4) by simp
    ultimately have "length nodes' - card ?X < length nodes - card X"
      using p(2) step(3) by simp
    from less.hyps [OF this step(2)] Cons p(1) step(1) show ?thesis
      by (simp add: finish_loop.simps [of iter nodes])
  qed
qed

text \<open>The root's children have the root as their failure link from the start.\<close>

lemma bfs_init:
  assumes bld: "building nodes L P" and "[] \<notin> P" and iter: "edge_order_ok iter"
  shows "bfs_inv nodes L P {0} (map snd (iter (edges (nodes ! 0)))) {} 1" (is "bfs_inv _ _ _ _ ?q _ _")
proof -
  have t: "trie nodes L" using bld by (rule building_trie)
  note z = trie_nonempty [OF t] and root = trie_root [OF t]
  note ch = edge_order_children [OF iter t z]
  have q: "set ?q = {j. j < length nodes \<and> (\<exists>b. L ! j = [b])}"
    using ch(3) root by simp
  have q1: "length (L ! j) = 1" if "j \<in> set ?q" for j
    using that unfolding q by auto
  have root_ok: "node_ok nodes L P 0"
    using bld assms(2) z root by (auto simp: node_ok_def longest_pattern_def building_def)
  have ok: "node_ok nodes L P j" if j: "j \<in> set ?q" for j
  proof -
    from j obtain b where jb: "j < length nodes" "L ! j = [b]" unfolding q by blast
    have sub: "u = []" if "strict_suffix u [b]" for u
      using that by (auto simp: strict_suffix_def suffix_Cons)
    have fail: "failure_ok nodes L j"
      using bld jb z root trie_label [OF t z] sub
      by (auto simp: failure_ok_def building_def longest_proper_suffix_def strict_suffix_def)
    have "longest_pattern P (L ! j) (terminal (nodes ! j))"
      using bld jb assms(2) by (auto simp: longest_pattern_def building_def suffix_Cons)
    with fail show ?thesis by (simp add: node_ok_def)
  qed
  have "j \<noteq> 0" if "j \<in> set ?q" for j using q1 [OF that] root by (cases "j = 0") simp_all
  moreover have "i = 0" if "i < length nodes" "j \<in> insert 0 (set ?q)" "L ! j = L ! i @ [b]" for i j b
    using that q1 [of j] root trie_inj [OF t that(1) z] by auto
  moreover have "sorted (map (\<lambda>j. length (L ! j)) ?q)"
    using q1 by (auto simp: sorted_iff_nth_mono)
  ultimately show ?thesis
    unfolding bfs_inv_def
  proof (intro conjI)
    show "\<forall>i\<in>{0} \<union> set ?q. node_ok nodes L P i" using ok root_ok by blast
    show "\<forall>i\<in>{0}. \<forall>j<length nodes. \<forall>b. L ! j = L ! i @ [b] \<longrightarrow> j \<in> {0} \<union> set ?q \<union> {}"
      using root unfolding q by simp
    show "distinct ?q" by (fact ch(1))
    show "{0} \<union> set ?q \<union> {} \<subseteq> {..<length nodes}" using z unfolding q by auto
    show "\<forall>j\<in>set ?q. 1 \<le> length (L ! j) \<and> length (L ! j) \<le> 1 + 1" using q1 by simp
    show "\<forall>i<length nodes. i \<notin> {0} \<union> set ?q \<longrightarrow>
        terminal (nodes ! i) = (if L ! i \<in> P then length (L ! i) else 0)"
      using bld by (simp add: building_def)
  qed (use t bld in \<open>auto simp: building_def\<close>)
qed

lemma finish_correct:
  assumes "building nodes L P" and "[] \<notin> P" and "edge_order_ok iter"
  shows "\<exists>nodes'. finish iter nodes = Some nodes' \<and> finished nodes' L P"
  unfolding finish_def
  using assms(3) bfs_init [OF assms] by (rule finish_loop_correct)

section \<open>\<open>compile\<close>\<close>

fun total_length :: "bytes list \<Rightarrow> nat" where
  "total_length [] = 0"
| "total_length (p # ps) = length p + total_length ps"

definition patterns_ok :: "bytes list \<Rightarrow> bool" where
  "patterns_ok ps \<longleftrightarrow> ps \<noteq> [] \<and> length ps \<le> 2048 \<and> [] \<notin> set ps \<and> total_length ps \<le> 262144"

text \<open>\<open>accepts A L P\<close>: \<open>A\<close> is a finished automaton for the patterns \<open>P\<close> with node labels \<open>L\<close>.\<close>

definition accepts :: "automaton \<Rightarrow> bytes list \<Rightarrow> bytes set \<Rightarrow> bool" where
  "accepts A L P \<longleftrightarrow> finished A L P \<and> set L = prefix_closure P \<and> [] \<notin> P"

lemma compile_items_correct:
  assumes "building nodes L P" and "set L = prefix_closure P"
    and "[] \<notin> set ps" and "n + total_length ps \<le> 262144"
  shows "\<exists>nodes' L'. compile_items nodes n (map PyBytes ps) = Inr nodes' \<and>
     building nodes' L' (P \<union> set ps) \<and> set L' = prefix_closure (P \<union> set ps)"
  using assms
proof (induction ps arbitrary: nodes L P n)
  case Nil
  then show ?case by auto
next
  case (Cons p ps)
  from add_correct [OF Cons.prems(1,2)] obtain L1 where
    L1: "building (add nodes p) L1 (insert p P)" "set L1 = prefix_closure (insert p P)" by blast
  have "\<exists>nodes' L'. compile_items (add nodes p) (n + length p) (map PyBytes ps) = Inr nodes' \<and>
      building nodes' L' (insert p P \<union> set ps) \<and> set L' = prefix_closure (insert p P \<union> set ps)"
    using Cons.prems(3,4) by (intro Cons.IH [OF L1]) auto
  moreover have "p \<noteq> []" using Cons.prems(3) by auto
  ultimately show ?case using Cons.prems(4) by (simp add: Let_def)
qed

lemma compile_items_error:
  "compile_items nodes n items = Inr nodes' \<Longrightarrow>
     \<exists>ps. items = map PyBytes ps \<and> [] \<notin> set ps \<and> (items = [] \<or> n + total_length ps \<le> 262144)"
proof (induction nodes n items rule: compile_items.induct)
  case (3 nodes n p items)
  then show ?case
    by (fastforce simp: Let_def split: if_splits intro: exI [of _ "p # _"])
qed auto

lemma prefix_closure_empty: "prefix_closure {} = {[]}"
  by (simp add: prefix_closure_def)

lemma compile_correct:
  assumes "edge_order_ok iter" and "patterns_ok ps"
  shows "\<exists>A L. compile iter (Some (map PyBytes ps)) = Some (Inr A) \<and> accepts A L (set ps)"
proof -
  from assms(2) have ps: "[] \<notin> set ps" "0 + total_length ps \<le> 262144"
    by (auto simp: patterns_ok_def)
  from compile_items_correct [OF building_empty _ this] obtain nodes L where
    items: "compile_items empty_automaton 0 (map PyBytes ps) = Inr nodes"
      "building nodes L (set ps)" "set L = prefix_closure (set ps)"
    by (auto simp: prefix_closure_empty)
  from finish_correct [OF items(2) ps(1) assms(1)] obtain A where
    "finish iter nodes = Some A" "finished A L (set ps)" by blast
  with items assms(2) show ?thesis
    by (auto simp: compile_def accepts_def patterns_ok_def)
qed

lemma compile_success_iff:
  assumes "edge_order_ok iter"
  shows "(\<exists>A. compile iter (Some items) = Some (Inr A)) \<longleftrightarrow>
     (\<exists>ps. items = map PyBytes ps \<and> patterns_ok ps)"
proof
  assume "\<exists>A. compile iter (Some items) = Some (Inr A)"
  then show "\<exists>ps. items = map PyBytes ps \<and> patterns_ok ps"
    by (auto simp: compile_def patterns_ok_def split: if_splits sum.splits dest!: compile_items_error)
next
  assume "\<exists>ps. items = map PyBytes ps \<and> patterns_ok ps"
  with compile_correct [OF assms] show "\<exists>A. compile iter (Some items) = Some (Inr A)" by blast
qed

section \<open>\<open>scan\<close>\<close>

definition occurrence_starts :: "bytes set \<Rightarrow> bytes \<Rightarrow> bytes \<Rightarrow> int set" where
  "occurrence_starts P w data =
     {int i + 1 - int (length p) | i p. i < length data \<and> p \<in> P \<and> suffix p (w @ take (i + 1) data)}"

definition earliest_of :: "int set \<Rightarrow> int option \<Rightarrow> bool" where
  "earliest_of S m \<longleftrightarrow> (case m of None \<Rightarrow> S = {} | Some e \<Rightarrow> e \<in> S \<and> (\<forall>x\<in>S. e \<le> x))"

definition tracks :: "automaton \<Rightarrow> bytes list \<Rightarrow> bytes \<Rightarrow> nat \<Rightarrow> bool" where
  "tracks A L w state \<longleftrightarrow> state < length A \<and> longest_suffix (set L) w (L ! state)"

lemma accepts_trie: "accepts A L P \<Longrightarrow> trie A L"
  by (simp add: accepts_def finished_def)

lemma tracks_root: "accepts A L P \<Longrightarrow> tracks A L [] 0"
  using trie_nonempty [of A L] trie_root [of A L] trie_label [of A L 0]
  by (simp add: tracks_def longest_suffix_def accepts_trie)

lemma tracks_advance:
  assumes acc: "accepts A L P" and tr: "tracks A L w state"
  shows "\<exists>state'. advance A state b = Some state' \<and> tracks A L (w @ [b]) state'"
proof -
  have t: "trie A L" using acc by (rule accepts_trie)
  have "failure_ok A L i" if "i < length A" "i \<noteq> 0" for i
    using that acc by (auto simp: accepts_def finished_def node_ok_def)
  then obtain j where "j < length A" "advance A state b = Some j"
    "longest_suffix (set L) (L ! state @ [b]) (L ! j)"
    using advance_correct [OF t, of state b] tr by (auto simp: tracks_def)
  with tr longest_suffix_step [OF trie_snoc_closed [OF t]] show ?thesis
    by (auto simp: tracks_def)
qed

lemma tracks_terminal:
  assumes acc: "accepts A L P" and tr: "tracks A L w state"
  shows "longest_pattern P w (terminal (A ! state))"
proof -
  have "longest_pattern P (L ! state) (terminal (A ! state))" "P \<subseteq> set L"
    using acc tr by (auto simp: accepts_def finished_def node_ok_def tracks_def)
  with tr show ?thesis
    by (auto simp: tracks_def longest_pattern_suffix)
qed

lemma occurrence_starts_Cons:
  "occurrence_starts P w (b # data) =
     {1 - int (length p) | p. p \<in> P \<and> suffix p (w @ [b])} \<union>
     (\<lambda>x. x + 1) ` occurrence_starts P (w @ [b]) data"
proof -
  have "(\<exists>i p. x = int i + 1 - int (length p) \<and> i < length (b # data) \<and> p \<in> P \<and>
            suffix p (w @ take (i + 1) (b # data))) \<longleftrightarrow>
        (\<exists>p. x = 1 - int (length p) \<and> p \<in> P \<and> suffix p (w @ [b])) \<or>
        (\<exists>i p. x = int i + 1 - int (length p) + 1 \<and> i < length data \<and> p \<in> P \<and>
            suffix p (w @ b # take (i + 1) data))" (is "?l \<longleftrightarrow> ?r1 \<or> ?r2") for x
  proof
    assume ?l
    then obtain i p where ip: "x = int i + 1 - int (length p)" "i < length (b # data)" "p \<in> P"
      "suffix p (w @ take (i + 1) (b # data))" by blast
    then show "?r1 \<or> ?r2"
    proof (cases i)
      case (Suc k)
      with ip have "x = int k + 1 - int (length p) + 1" "k < length data"
        "suffix p (w @ b # take (k + 1) data)" by auto
      with ip(3) show ?thesis by blast
    qed auto
  next
    assume "?r1 \<or> ?r2"
    then show ?l
    proof
      assume ?r1
      then obtain p where "x = 1 - int (length p)" "p \<in> P" "suffix p (w @ [b])" by blast
      then show ?l by (intro exI [of _ 0] exI [of _ p]) auto
    next
      assume ?r2
      then obtain i p where ip: "x = int i + 1 - int (length p) + 1" "i < length data" "p \<in> P"
        "suffix p (w @ b # take (i + 1) data)" by blast
      then show ?l by (intro exI [of _ "Suc i"] exI [of _ p]) auto
    qed
  qed
  then show ?thesis
    by (auto simp: occurrence_starts_def image_iff)
qed

text \<open>One position: the longest pattern that ends here has the earliest start.\<close>

lemma earliest_of_step:
  assumes "earliest_of S m" and "longest_pattern P w t" and "[] \<notin> P"
  shows "earliest_of (S \<union> {c - int (length p) | p. p \<in> P \<and> suffix p w})
    (if t \<noteq> 0 then
       (case m of None \<Rightarrow> Some (c - int t) | Some e \<Rightarrow> Some (if c - int t < e then c - int t else e))
     else m)" (is "earliest_of (S \<union> ?T) _")
proof (cases "t = 0")
  case True
  with assms(2,3) have none: "?T = {}" by (auto simp: longest_pattern_def)
  show ?thesis unfolding none using True assms(1) by simp
next
  case False
  have "c - int t \<in> ?T" using assms(2) False by (auto simp: longest_pattern_def)
  moreover have "\<forall>x \<in> ?T. c - int t \<le> x" using assms(2) by (auto simp: longest_pattern_def)
  ultimately show ?thesis
    using assms(1) False by (fastforce simp: earliest_of_def split: option.splits)
qed

lemma scan_loop_correct:
  assumes "accepts A L P" and "tracks A L w state" and "earliest_of S m"
  shows "\<exists>state' m'. scan_loop A i m state data = Some (state', m') \<and> tracks A L (w @ data) state' \<and>
     earliest_of (S \<union> (\<lambda>x. x + int i) ` occurrence_starts P w data) m'"
  using assms(2,3)
proof (induction data arbitrary: i m state w S)
  case Nil
  then show ?case by (simp add: occurrence_starts_def)
next
  case (Cons b data)
  from tracks_advance [OF assms(1) Cons.prems(1)] obtain st where
    st: "advance A state b = Some st" "tracks A L (w @ [b]) st" by blast
  let ?t = "terminal (A ! st)"
  let ?m = "if ?t \<noteq> 0 then (case m of None \<Rightarrow> Some (int i + 1 - int ?t)
      | Some e \<Rightarrow> Some (if int i + 1 - int ?t < e then int i + 1 - int ?t else e)) else m"
  let ?S = "S \<union> {int i + 1 - int (length p) | p. p \<in> P \<and> suffix p (w @ [b])}"
  have m: "earliest_of ?S ?m"
    using Cons.prems(2) tracks_terminal [OF assms(1) st(2)] assms(1)
    by (intro earliest_of_step) (auto simp: accepts_def)
  have len: "st < length A" using st(2) by (simp add: tracks_def)
  have loop: "scan_loop A i m state (b # data) = scan_loop A (i + 1) ?m st data"
    using st(1) len by (simp add: Let_def)
  have shift: "(\<lambda>x. x + int i) ` {1 - int (length p) | p. Q p} = {int i + 1 - int (length p) | p. Q p}"
    for Q :: "bytes \<Rightarrow> bool" by (force simp: image_iff)
  have "?S \<union> (\<lambda>x. x + int (i + 1)) ` occurrence_starts P (w @ [b]) data =
      S \<union> (\<lambda>x. x + int i) ` occurrence_starts P w (b # data)"
    unfolding occurrence_starts_Cons image_Un shift image_image by (simp add: Un_assoc add.assoc)
  with Cons.IH [OF st(2) m, of "i + 1"] loop show ?case by simp
qed

lemma scan_correct:
  assumes "accepts A L P" and "tracks A L w state"
  shows "\<exists>state' match. scan A (int state) data = Some (Inr (state', match, length (L ! state'))) \<and>
     tracks A L (w @ data) state' \<and> earliest_of (occurrence_starts P w data) match"
proof -
  have "earliest_of {} None" by (simp add: earliest_of_def)
  from scan_loop_correct [OF assms this, of 0 data] obtain st m where
    "scan_loop A 0 None state data = Some (st, m)" "tracks A L (w @ data) st"
    "earliest_of (occurrence_starts P w data) m" by auto
  then show ?thesis
    using assms(2) trie_depth [OF accepts_trie [OF assms(1)], of st]
    by (auto simp: scan_def tracks_def)
qed

text \<open>A client feeds a stream chunk by chunk, passing the returned state back.\<close>

fun scan_chunks :: "automaton \<Rightarrow> nat \<Rightarrow> bytes list \<Rightarrow> nat option" where
  "scan_chunks A state [] = Some state"
| "scan_chunks A state (chunk # chunks) =
     (case scan A (int state) chunk of
        Some (Inr (state', match, d)) \<Rightarrow> scan_chunks A state' chunks
      | _ \<Rightarrow> None)"

lemma scan_chunks_correct:
  assumes "accepts A L P" and "tracks A L w state"
  shows "\<exists>state'. scan_chunks A state chunks = Some state' \<and> tracks A L (w @ concat chunks) state'"
  using assms(2)
proof (induction chunks arbitrary: w state)
  case (Cons chunk chunks)
  from scan_correct [OF assms(1) Cons.prems, of chunk] obtain st m where
    "scan A (int state) chunk = Some (Inr (st, m, length (L ! st)))" "tracks A L (w @ chunk) st"
    by blast
  with Cons.IH [of "w @ chunk" st] show ?case by simp
qed simp

section \<open>An edge order\<close>

text \<open>An order on the edges that exists: ascending bytes.\<close>

definition ascending_edges :: edge_order where
  "ascending_edges m =
     List.map_filter (\<lambda>b. map_option (Pair b) (m b)) (map word_of_nat [0..<256])"

lemma edge_order_ok_ascending: "edge_order_ok ascending_edges"
proof -
  have all: "set (map word_of_nat [0..<256]) = (UNIV :: u8 set)"
  proof (intro equalityI subsetI)
    fix b :: u8
    have "unat b \<in> set [0..<256]" using unat_u8_less by simp
    moreover have "word_of_nat (unat b) = b" by simp
    ultimately show "b \<in> set (map word_of_nat [0..<256])"
      by (metis imageI image_set)
  qed simp
  have inj: "inj_on (word_of_nat :: nat \<Rightarrow> u8) (set [0..<256])"
    by (rule inj_onI) (simp add: word_of_nat_eq_iff take_bit_eq_mod)
  have dist: "distinct (map word_of_nat [0..<256] :: u8 list)"
    using inj by (simp add: distinct_map)
  have "map fst (List.map_filter (\<lambda>b. map_option (Pair b) (m b)) bs) = filter (\<lambda>b. m b \<noteq> None) bs"
    for m :: "u8 \<Rightarrow> nat option" and bs
    by (induction bs) (auto simp: List.map_filter_def)
  with dist have "distinct (map fst (ascending_edges m))" for m
    by (simp add: ascending_edges_def del: map_map)
  moreover have "set (ascending_edges m) = {(b, j). m b = Some j}" for m
  proof -
    have "set (List.map_filter (\<lambda>b. map_option (Pair b) (m b)) bs) = {(b, j). b \<in> set bs \<and> m b = Some j}"
      for bs by (induction bs) (auto simp: map_filter_simps split: option.splits)
    with all show ?thesis by (simp add: ascending_edges_def)
  qed
  ultimately show ?thesis
    by (simp add: edge_order_ok_def distinct_map)
qed

section \<open>Main results\<close>

text \<open>C8. For every pattern list within the limits (1 to 2048 non-empty patterns, at most 262144
  bytes), \<open>compile\<close> terminates with an automaton, and a stream fed to it in arbitrary chunks is
  matched exactly: after the chunks, \<open>scan\<close> of the next piece of data returns, reports a match
  exactly when some pattern occurrence ends inside that data, gives the start of the earliest such
  occurrence (negative when it began in an earlier chunk), and returns as depth the length of the
  longest suffix of the whole stream that is a prefix of a pattern.\<close>

theorem phrase_matcher_correct:
  assumes "edge_order_ok iter" and "patterns_ok ps"
  shows "\<exists>A state state' match v.
     compile iter (Some (map PyBytes ps)) = Some (Inr A) \<and>
     scan_chunks A 0 chunks = Some state \<and>
     scan A (int state) data = Some (Inr (state', match, length v)) \<and>
     earliest_of (occurrence_starts (set ps) (concat chunks) data) match \<and>
     longest_suffix (prefix_closure (set ps)) (concat chunks @ data) v"
proof -
  from compile_correct [OF assms] obtain A L where
    A: "compile iter (Some (map PyBytes ps)) = Some (Inr A)" "accepts A L (set ps)" by blast
  from scan_chunks_correct [OF A(2) tracks_root [OF A(2)], of chunks] obtain state where
    state: "scan_chunks A 0 chunks = Some state" "tracks A L (concat chunks) state" by auto
  from scan_correct [OF A(2) state(2), of data] obtain state' match where
    "scan A (int state) data = Some (Inr (state', match, length (L ! state')))"
    "tracks A L (concat chunks @ data) state'"
    "earliest_of (occurrence_starts (set ps) (concat chunks) data) match" by blast
  with A state show ?thesis
    by (fastforce simp: tracks_def accepts_def)
qed

theorem phrase_matcher_correct_witness:
  "edge_order_ok ascending_edges \<and> patterns_ok [[1, 2], [2]] \<and>
   (\<exists>A state state' match v.
     compile ascending_edges (Some (map PyBytes [[1, 2], [2]])) = Some (Inr A) \<and>
     scan_chunks A 0 [[0, 1]] = Some state \<and>
     scan A (int state) [2, 1] = Some (Inr (state', match, length v)) \<and>
     earliest_of (occurrence_starts (set [[1, 2], [2]]) (concat [[0, 1]]) [2, 1]) match \<and>
     longest_suffix (prefix_closure (set [[1, 2], [2]])) (concat [[0, 1]] @ [2, 1]) v)"
proof -
  have ok: "patterns_ok [[1, 2], [2]]" by (simp add: patterns_ok_def)
  show ?thesis
    using edge_order_ok_ascending ok
      phrase_matcher_correct [OF edge_order_ok_ascending ok, of "[[0, 1]]" "[2, 1]"] by blast
qed

text \<open>C9. The depth that \<open>scan\<close> returns is a sufficient look-behind: a pattern occurrence that ends
  \<open>k\<close> bytes into data still to come reaches back into the bytes already scanned by at most that
  depth, so a caller that holds back the last \<open>depth\<close> bytes never releases part of a match.\<close>

theorem scan_depth_covers_future_matches:
  assumes "edge_order_ok iter" and "patterns_ok ps"
    and "compile iter (Some (map PyBytes ps)) = Some (Inr A)"
    and "scan_chunks A 0 chunks = Some state"
    and "scan A (int state) data = Some (Inr (state', match, d))"
    and p: "p \<in> set ps" "suffix p (concat chunks @ data @ take k later)" and k: "k \<le> length later"
  shows "length p \<le> d + k"
proof (cases "length p \<le> k")
  case False
  from compile_correct [OF assms(1,2)] assms(3) obtain L where acc: "accepts A L (set ps)" by auto
  from scan_chunks_correct [OF acc tracks_root [OF acc], of chunks] assms(4)
  have "tracks A L (concat chunks) state" by auto
  from scan_correct [OF acc this, of data] assms(5)
  have tr: "tracks A L (concat chunks @ data) state'" and d: "d = length (L ! state')" by auto
  from p(2) obtain zs where zs: "(concat chunks @ data) @ take k later = zs @ p"
    by (auto simp: suffix_def)
  moreover have "take k later \<noteq> us @ p" for us
    using False k by (auto dest: arg_cong [where f = length])
  ultimately obtain q where q: "p = q @ take k later" "concat chunks @ data = zs @ q"
    unfolding append_eq_append_conv2 by blast
  have "prefix q p" using q(1) by simp
  with p(1) acc have "q \<in> set L" by (auto simp: accepts_def prefix_closure_def)
  with tr q(2) have "suffix q (L ! state')" by (auto simp: tracks_def longest_suffix_def suffix_def)
  then show ?thesis using q(1) k d by (auto dest: suffix_length_le)
qed simp

theorem scan_depth_covers_future_matches_witness:
  "\<exists>A state state' match d.
     compile ascending_edges (Some (map PyBytes [[1, 2, 3]])) = Some (Inr A) \<and>
     scan_chunks A 0 [[9]] = Some state \<and>
     scan A (int state) [1, 2] = Some (Inr (state', match, d)) \<and> length [1, 2, 3 :: u8] \<le> d + 1"
proof -
  have ok: "patterns_ok [[1, 2, 3]]" by (simp add: patterns_ok_def)
  note e = edge_order_ok_ascending
  from compile_correct [OF e ok] obtain A L where
    A: "compile ascending_edges (Some (map PyBytes [[1, 2, 3]])) = Some (Inr A)"
      "accepts A L {[1, 2, 3]}" by auto
  from scan_chunks_correct [OF A(2) tracks_root [OF A(2)], of "[[9]]"] obtain state where
    state: "scan_chunks A 0 [[9]] = Some state" "tracks A L [9] state" by auto
  from scan_correct [OF A(2) state(2), of "[1, 2]"] obtain state' match d where
    sc: "scan A (int state) [1, 2] = Some (Inr (state', match, d))" by blast
  have "length [1, 2, 3 :: u8] \<le> d + 1"
    by (rule scan_depth_covers_future_matches [OF e ok A(1) state(1) sc, where later = "[3]"])
      (simp_all add: suffix_def)
  with A state sc show ?thesis by blast
qed

text \<open>C10. \<open>compile\<close> succeeds on exactly the sequences it documents: byte strings only, between 1 and
  2048 of them, none empty, at most 262144 bytes in total.  Every other sequence is an error.\<close>

theorem compile_accepts_iff:
  assumes "edge_order_ok iter"
  shows "(\<exists>A. compile iter (Some items) = Some (Inr A)) \<longleftrightarrow>
     (\<exists>ps. items = map PyBytes ps \<and> patterns_ok ps)"
  using assms by (rule compile_success_iff)

theorem compile_accepts_iff_witness:
  "(\<exists>A. compile ascending_edges (Some [PyBytes [7]]) = Some (Inr A)) \<and>
   \<not> (\<exists>A. compile ascending_edges (Some [PyBytes [7], NotBytes]) = Some (Inr A))"
proof -
  have "\<exists>ps. [PyBytes [7]] = map PyBytes ps \<and> patterns_ok ps"
    by (intro exI [of _ "[[7]]"]) (simp add: patterns_ok_def)
  moreover have "\<not> (\<exists>ps. [PyBytes [7], NotBytes] = map PyBytes ps \<and> patterns_ok ps)"
    by (auto simp: Cons_eq_map_conv)
  ultimately show ?thesis
    by (simp only: compile_accepts_iff [OF edge_order_ok_ascending]) simp
qed

end
