(* ===== verification/Bytes.thy ===== *)
theory Bytes
  imports Prelude
begin

text \<open>
  Byte strings: the conversions between machine words and byte sequences that the wire formats
  share, with the lemmas that invert them.  \<open>be_bytes k v\<close> and \<open>le_bytes k v\<close> are the low \<open>k\<close> bytes
  of \<open>v\<close> in big- and little-endian order, produced by shifting and truncating as the source does.
\<close>

definition byte_of :: "'a::len word \<Rightarrow> nat \<Rightarrow> u8" where
  "byte_of v shift = ucast (drop_bit shift v)"

definition be_bytes :: "nat \<Rightarrow> 'a::len word \<Rightarrow> bytes" where
  "be_bytes k v = map (\<lambda>i. byte_of v (8 * i)) (rev [0..<k])"

definition le_bytes :: "nat \<Rightarrow> 'a::len word \<Rightarrow> bytes" where
  "le_bytes k v = map (\<lambda>i. byte_of v (8 * i)) [0..<k]"

fun le_nat :: "bytes \<Rightarrow> nat" where
  "le_nat [] = 0"
| "le_nat (b # bs) = unat b + 256 * le_nat bs"

definition be_nat :: "bytes \<Rightarrow> nat" where
  "be_nat bs = le_nat (rev bs)"

text \<open>The bytes of a C string literal.\<close>

definition str :: "string \<Rightarrow> bytes" where
  "str s = map of_char s"

lemma length_be_bytes [simp]: "length (be_bytes k v) = k"
  by (simp add: be_bytes_def)

lemma length_le_bytes [simp]: "length (le_bytes k v) = k"
  by (simp add: le_bytes_def)

lemma be_bytes_0 [simp]: "be_bytes 0 v = []"
  by (simp add: be_bytes_def)

lemma rev_le_bytes: "rev (le_bytes k v) = be_bytes k v"
  by (simp add: be_bytes_def le_bytes_def rev_map)

lemma unat_byte_of: "unat (byte_of v s) = unat v div 2 ^ s mod 256"
  by (simp add: byte_of_def unsigned_ucast_eq unat_drop_bit_eq take_bit_eq_mod) (simp add: drop_bit_eq_div)

lemma le_nat_append: "le_nat (xs @ ys) = le_nat xs + 256 ^ length xs * le_nat ys"
  by (induction xs) (auto simp: algebra_simps)

lemma le_nat_less: "le_nat xs < 256 ^ length xs"
proof (induction xs)
  case (Cons b xs)
  have "unat b + 256 * le_nat xs < 256 + 256 * le_nat xs"
    using unat_u8_less by simp
  also have "\<dots> \<le> 256 * 256 ^ length xs"
    using Cons by linarith
  finally show ?case by simp
qed simp

lemma be_nat_less: "be_nat xs < 256 ^ length xs"
  using le_nat_less [of "rev xs"] by (simp add: be_nat_def)

lemma le_nat_le_bytes: "le_nat (le_bytes k v) = unat v mod 256 ^ k"
proof (induction k)
  case (Suc k)
  have "le_nat (le_bytes (Suc k) v) = unat v mod 256 ^ k + 256 ^ k * (unat v div 2 ^ (8 * k) mod 256)"
    using Suc by (simp add: le_bytes_def le_nat_append unat_byte_of)
  also have "(2::nat) ^ (8 * k) = 256 ^ k" by (simp add: power_mult)
  finally show ?case
    by (metis mod_mult2_eq mult.commute power_Suc add.commute)
qed (simp add: le_bytes_def)

lemma be_nat_be_bytes: "be_nat (be_bytes k v) = unat v mod 256 ^ k"
  by (simp add: be_nat_def flip: rev_le_bytes) (rule le_nat_le_bytes)

lemma le_nat_inj: "length xs = length ys \<Longrightarrow> le_nat xs = le_nat ys \<Longrightarrow> xs = ys"
proof (induction xs ys rule: list_induct2)
  case (Cons x xs y ys)
  have "unat x = unat y"
    using arg_cong [OF Cons.prems, of "\<lambda>n. n mod 256"] unat_u8_less [of x] unat_u8_less [of y] by simp
  moreover from this have "le_nat xs = le_nat ys" using Cons.prems by simp
  ultimately show ?case using Cons.IH by (simp add: word_unat_eq_iff)
qed simp

lemma be_nat_inj: "length xs = length ys \<Longrightarrow> be_nat xs = be_nat ys \<Longrightarrow> xs = ys"
  using le_nat_inj [of "rev xs" "rev ys"] by (simp add: be_nat_def)

lemma length_str [simp]: "length (str s) = length s"
  by (simp add: str_def)

lemma str_inj [simp]: "str a = str b \<longleftrightarrow> a = b"
proof -
  have "inj (of_char :: char \<Rightarrow> u8)"
  proof (rule injI)
    fix x y :: char assume eq: "(of_char x :: u8) = of_char y"
    have u: "unat (of_char c :: u8) = of_char c" for c :: char
    proof -
      have "(of_char c :: u8) = word_of_nat (of_char c)" by (simp add: of_nat_of_char)
      moreover have "(of_char c :: nat) < 256" by simp
      ultimately show ?thesis by (simp only: unsigned_of_nat) (simp add: take_bit_nat_eq_self)
    qed
    have "(of_char x :: nat) = of_char y" unfolding u [symmetric] eq ..
    then show "x = y" by simp
  qed
  then show ?thesis by (auto simp: str_def inj_map_eq_map)
qed

section \<open>Decimal numbers\<close>

text \<open>\<open>std::to_string\<close> of a non-negative number.\<close>

fun to_string :: "nat \<Rightarrow> bytes" where
  "to_string n = (if n < 10 then [48 + word_of_nat n] else to_string (n div 10) @ [48 + word_of_nat (n mod 10)])"

declare to_string.simps [simp del]

lemma to_string_digits: "c \<in> set (to_string n) \<Longrightarrow> 48 \<le> unat c \<and> unat c \<le> 57"
proof (induction n rule: to_string.induct)
  case (1 n)
  have "unat (48 + word_of_nat d :: u8) = 48 + d" if "d < 10" for d
    using that by (simp add: unat_word_ariths unsigned_of_nat take_bit_nat_eq_self)
  then show ?case using 1 by (subst (asm) to_string.simps) (auto split: if_splits)
qed

lemma to_string_value: "foldl (\<lambda>a c. 10 * a + (unat c - 48)) 0 (to_string n) = n"
proof (induction n rule: to_string.induct)
  case (1 n)
  have "unat (48 + word_of_nat d :: u8) = 48 + d" if "d < 10" for d
    using that by (simp add: unat_word_ariths unsigned_of_nat take_bit_nat_eq_self)
  then show ?case using 1 by (subst to_string.simps) simp
qed

end
