(* ===== verification/Cbor.thy ===== *)
theory Cbor
  imports Bytes "HOL-Library.List_Lexorder" "HOL-Library.Product_Lexorder"
begin

text \<open>
  The canonical CBOR encoder of \<open>src/csrc/proof/canonical_cbor.cpp\<close>.

  A \<open>Value\<close> is a datatype with the source's five kinds; \<open>std::string\<close> and \<open>std::vector<uint8_t>\<close> are
  byte lists.  Every encoder takes the output buffer and returns it extended.  \<open>std::sort\<close> orders the
  entries of a map by the length of the encoded key and then by its bytes; where keys are distinct
  the sorted order is unique, which is the only case in which the C++ result is determined.

  Against it stands a strict decoder in the style of RFC 8949, which accepts only shortest-form
  heads and strictly ascending keys.  The main results are that it inverts the encoder, that the
  encoding does not depend on the order in which a map's entries were given, and that no encoding is
  a prefix of another.
\<close>

section \<open>The encoder\<close>

datatype cbor_value =
    CInt int
  | CStr bytes
  | CBytes bytes
  | CArr "cbor_value list"
  | CMap "(bytes \<times> cbor_value) list"

definition encode_head :: "u8 \<Rightarrow> u64 \<Rightarrow> bytes \<Rightarrow> bytes" where
  "encode_head major v out =
     (let mt = push_bit 5 major in
      if v < 24 then out @ [mt OR ucast v]
      else if v \<le> 0xff then out @ [mt OR 24] @ [ucast v]
      else if v \<le> 0xffff then out @ [mt OR 25] @ [ucast (drop_bit 8 v)] @ [ucast v]
      else if v \<le> 0xffffffff then
        out @ [mt OR 26] @ map (\<lambda>shift. ucast (drop_bit shift v)) [24, 16, 8, 0]
      else
        out @ [mt OR 27] @ map (\<lambda>shift. ucast (drop_bit shift v)) [56, 48, 40, 32, 24, 16, 8, 0])"

definition encode_int :: "int \<Rightarrow> bytes \<Rightarrow> bytes" where
  "encode_int v out =
     (if v \<ge> 0 then encode_head 0 (word_of_int v) out
      else encode_head 1 (word_of_int (- (v + 1))) out)"

definition encode_text :: "bytes \<Rightarrow> bytes \<Rightarrow> bytes" where
  "encode_text s out = encode_head 3 (word_of_nat (length s)) out @ s"

text \<open>The comparison of \<open>std::sort\<close> in \<open>Value::encode\<close>: length first, then lexicographic.\<close>

definition key_rank :: "bytes \<Rightarrow> nat \<times> bytes" where
  "key_rank k = (length k, k)"

definition sort_entries :: "(bytes \<times> 'v) list \<Rightarrow> (bytes \<times> 'v) list" where
  "sort_entries es = sort_key (\<lambda>e. key_rank (fst e)) es"

lemma set_sort_entries [simp]: "set (sort_entries es) = set es"
  by (simp add: sort_entries_def)

lemma length_sort_entries [simp]: "length (sort_entries es) = length es"
  by (simp add: sort_entries_def)

function encode_value :: "cbor_value \<Rightarrow> bytes \<Rightarrow> bytes" where
  "encode_value (CInt i) out = encode_int i out"
| "encode_value (CStr s) out = encode_text s out"
| "encode_value (CBytes b) out = encode_head 2 (word_of_nat (length b)) out @ b"
| "encode_value (CArr arr) out =
     fold (\<lambda>item out. encode_value item out) arr (encode_head 4 (word_of_nat (length arr)) out)"
| "encode_value (CMap m) out =
     (let encoded = sort_entries (map (\<lambda>(key, v). (encode_text key [], v)) m)
      in fold (\<lambda>(key, v) out. encode_value v (out @ key)) encoded
           (encode_head 5 (word_of_nat (length encoded)) out))"
  by pat_completeness auto
termination
proof (relation "measure (\<lambda>(v, out). size v)", goal_cases)
  case (2 arr out item x)
  then show ?case by (simp add: less_Suc_eq_le size_list_estimation')
next
  case (3 m out x1 x2 key v)
  then show ?case by (auto simp: less_Suc_eq_le intro!: size_list_estimation')
qed simp

definition encode :: "cbor_value \<Rightarrow> bytes" where
  "encode v = encode_value v []"

section \<open>The encoding as a concatenation\<close>

definition head :: "u8 \<Rightarrow> u64 \<Rightarrow> bytes" where
  "head major v = encode_head major v []"

lemma encode_head_append: "encode_head major v out = out @ head major v"
  by (simp add: encode_head_def head_def Let_def)

lemma encode_int_append: "encode_int i out = out @ encode_int i []"
  by (simp add: encode_int_def encode_head_append)

lemma encode_text_append: "encode_text s out = out @ encode_text s []"
  by (simp add: encode_text_def encode_head_append)

lemma fold_append: "(\<And>x out. x \<in> set xs \<Longrightarrow> f x out = out @ g x) \<Longrightarrow> fold f xs out = out @ concat (map g xs)"
  by (induction xs arbitrary: out) auto

lemma encode_value_append: "encode_value v out = out @ encode v"
proof (induction v out rule: encode_value.induct)
  case (4 arr out)
  have "fold (\<lambda>item out. encode_value item out) arr o' = o' @ concat (map encode arr)" for o'
    by (rule fold_append) (rule 4)
  then show ?case by (simp add: encode_def encode_head_append)
next
  case (5 m out)
  let ?es = "sort_entries (map (\<lambda>(key, v). (encode_text key [], v)) m)"
  have "(\<lambda>(key, v) out. encode_value v (out @ key)) e o' = o' @ (\<lambda>(key, v). key @ encode v) e"
    if "e \<in> set ?es" for e o'
    using 5 [OF refl that, of "fst e" "snd e" o'] by (cases e) simp
  then have "fold (\<lambda>(key, v) out. encode_value v (out @ key)) ?es o' =
      o' @ concat (map (\<lambda>(key, v). key @ encode v) ?es)" for o'
    by (rule fold_append)
  then show ?case by (simp add: encode_def encode_head_append Let_def)
qed (auto simp: encode_def encode_head_append intro: encode_int_append encode_text_append)

definition text_bytes :: "bytes \<Rightarrow> bytes" where
  "text_bytes s = head 3 (word_of_nat (length s)) @ s"

lemma encode_text_Nil: "encode_text s [] = text_bytes s"
  by (simp add: encode_text_def head_def text_bytes_def)

lemma encode_simps:
  "encode (CInt i) = (if i \<ge> 0 then head 0 (word_of_int i) else head 1 (word_of_int (- (i + 1))))"
  "encode (CStr s) = text_bytes s"
  "encode (CBytes b) = head 2 (word_of_nat (length b)) @ b"
  "encode (CArr arr) = head 4 (word_of_nat (length arr)) @ concat (map encode arr)"
  "encode (CMap m) = head 5 (word_of_nat (length m)) @
     concat (map (\<lambda>(key, v). key @ encode v) (sort_entries (map (\<lambda>(key, v). (text_bytes key, v)) m)))"
proof -
  show "encode (CArr arr) = head 4 (word_of_nat (length arr)) @ concat (map encode arr)"
    by (simp add: encode_def encode_head_append)
      (simp add: encode_value_append fold_append [where g = encode])
  show "encode (CMap m) = head 5 (word_of_nat (length m)) @
     concat (map (\<lambda>(key, v). key @ encode v) (sort_entries (map (\<lambda>(key, v). (text_bytes key, v)) m)))"
  proof -
    have "fold (\<lambda>(key, v) out. encode_value v (out @ key)) es o' =
        o' @ concat (map (\<lambda>(key, v). key @ encode v) es)" for es o'
      by (rule fold_append) (auto simp: encode_value_append)
    then show ?thesis
      by (simp add: encode_def encode_head_append Let_def encode_text_Nil)
  qed
qed (simp_all add: encode_def encode_int_def encode_text_Nil head_def)

section \<open>A strict decoder\<close>

text \<open>\<open>dec_head\<close> reads one head and refuses an argument that a shorter head could carry.\<close>

definition min_arg :: "nat \<Rightarrow> nat" where
  "min_arg info = (if info = 24 then 24 else if info = 25 then 256 else if info = 26 then 65536 else 4294967296)"

definition dec_head :: "bytes \<Rightarrow> (nat \<times> nat \<times> bytes) option" where
  "dec_head bs =
     (case bs of
        [] \<Rightarrow> None
      | b # r \<Rightarrow>
          (let major = unat b div 32; info = unat b mod 32 in
           if info < 24 then Some (major, info, r)
           else if info \<le> 27 then
             (let k = 2 ^ (info - 24); n = be_nat (take k r) in
              if k \<le> length r \<and> min_arg info \<le> n then Some (major, n, drop k r) else None)
           else None))"

fun dec_items :: "(bytes \<Rightarrow> ('v \<times> bytes) option) \<Rightarrow> nat \<Rightarrow> bytes \<Rightarrow> ('v list \<times> bytes) option" where
  "dec_items d 0 bs = Some ([], bs)"
| "dec_items d (Suc n) bs =
     (case d bs of
        None \<Rightarrow> None
      | Some (v, r) \<Rightarrow> map_option (\<lambda>(vs, r'). (v # vs, r')) (dec_items d n r))"

fun dec_entries ::
  "(bytes \<Rightarrow> ('v \<times> bytes) option) \<Rightarrow> nat \<Rightarrow> bytes option \<Rightarrow> bytes \<Rightarrow> ((bytes \<times> 'v) list \<times> bytes) option"
where
  "dec_entries d 0 prev bs = Some ([], bs)"
| "dec_entries d (Suc n) prev bs =
     (case dec_head bs of
        None \<Rightarrow> None
      | Some (major, len, r) \<Rightarrow>
          if major = 3 \<and> len \<le> length r then
            (let key = take len r; r1 = drop len r; enc = take (length bs - length r1) bs in
             if (case prev of None \<Rightarrow> True | Some p \<Rightarrow> key_rank p < key_rank enc) then
               (case d r1 of
                  None \<Rightarrow> None
                | Some (v, r2) \<Rightarrow> map_option (\<lambda>(es, r'). ((key, v) # es, r')) (dec_entries d n (Some enc) r2))
             else None)
          else None)"

text \<open>The fuel bounds the nesting depth; \<open>decode\<close> passes the length of the input, and every level of
  nesting consumes at least one byte.\<close>

primrec dec_item :: "nat \<Rightarrow> bytes \<Rightarrow> (cbor_value \<times> bytes) option" where
  "dec_item 0 bs = None"
| "dec_item (Suc fuel) bs =
     (case dec_head bs of
        None \<Rightarrow> None
      | Some (major, n, r) \<Rightarrow>
          if major = 0 then (if n < 2 ^ 63 then Some (CInt (int n), r) else None)
          else if major = 1 then (if n < 2 ^ 63 then Some (CInt (- 1 - int n), r) else None)
          else if major = 2 then (if n \<le> length r then Some (CBytes (take n r), drop n r) else None)
          else if major = 3 then (if n \<le> length r then Some (CStr (take n r), drop n r) else None)
          else if major = 4 then map_option (\<lambda>(vs, r'). (CArr vs, r')) (dec_items (dec_item fuel) n r)
          else if major = 5 then map_option (\<lambda>(es, r'). (CMap es, r')) (dec_entries (dec_item fuel) n None r)
          else None)"

definition decode :: "bytes \<Rightarrow> (cbor_value \<times> bytes) option" where
  "decode bs = dec_item (length bs) bs"

section \<open>Decoding a head\<close>

lemma unat_initial_byte:
  assumes "m < 8" and "x < 32"
  shows "unat (push_bit 5 m OR x :: u8) = 32 * unat m + unat x"
proof -
  have *: "unat m < 8" "unat x < 32"
    using assms by (simp_all add: word_less_nat_alt)
  have "unat (push_bit 5 m) = take_bit 8 (push_bit 5 (unat m))"
    by (simp add: unsigned_push_bit_eq)
  also have "\<dots> = push_bit 5 (unat m)"
    using * by (simp add: push_bit_eq_mult take_bit_nat_eq_self)
  finally show ?thesis using * push_or_nat [of "unat x" 5 "unat m"]
    by (simp add: unsigned_or_eq push_bit_eq_mult)
qed

text \<open>The argument bytes that follow the initial byte, and its low five bits.\<close>

definition arg_len :: "u64 \<Rightarrow> nat" where
  "arg_len v = (if v < 24 then 0 else if v \<le> 0xff then 1 else if v \<le> 0xffff then 2
                else if v \<le> 0xffffffff then 4 else 8)"

definition arg_info :: "u64 \<Rightarrow> u8" where
  "arg_info v = (if v < 24 then ucast v else if v \<le> 0xff then 24 else if v \<le> 0xffff then 25
                 else if v \<le> 0xffffffff then 26 else 27)"

lemma head_bytes: "head major v = (push_bit 5 major OR arg_info v) # be_bytes (arg_len v) v"
  by (simp add: head_def encode_head_def arg_len_def arg_info_def be_bytes_def byte_of_def upt_conv_Cons)

lemma unat_arg_info:
  "unat (arg_info v) =
     (if unat v < 24 then unat v else if unat v \<le> 0xff then 24 else if unat v \<le> 0xffff then 25
      else if unat v \<le> 0xffffffff then 26 else 27)"
  by (simp add: arg_info_def word_less_nat_alt word_le_nat_alt unsigned_ucast_eq take_bit_nat_eq_self)

lemma arg_info_less: "arg_info v < 32"
  by (simp add: word_less_nat_alt unat_arg_info)

lemma dec_head_head:
  assumes "major < 8"
  shows "dec_head (head major v @ rest) = Some (unat major, unat v, rest)"
proof -
  have b: "unat (push_bit 5 major OR arg_info v) = 32 * unat major + unat (arg_info v)"
    using assms arg_info_less by (rule unat_initial_byte)
  have "unat v < 2 ^ LENGTH(64)" by (rule unsigned_less)
  then have v: "unat v < 18446744073709551616" by simp
  have n: "be_nat (be_bytes k v) = unat v mod 256 ^ k" for k by (rule be_nat_be_bytes)
  show ?thesis
    using v by (auto simp: dec_head_def head_bytes b unat_arg_info arg_len_def min_arg_def n Let_def
        word_less_nat_alt word_le_nat_alt)
qed

lemma dec_head_text: "fits64 (length s) \<Longrightarrow> dec_head (text_bytes s @ r) = Some (3, length s, s @ r)"
  by (simp add: text_bytes_def dec_head_head unat_u64_of_nat)

lemma text_bytes_inj:
  assumes "fits64 (length s)" and "fits64 (length t)"
    and "text_bytes s = text_bytes t"
  shows "s = t"
  using dec_head_text [OF assms(1), of "[]"] dec_head_text [OF assms(2), of "[]"] assms(3) by simp

lemma head_not_Nil [simp]: "head m v \<noteq> []"
  by (simp add: head_bytes)

section \<open>Decoding a value\<close>

text \<open>\<open>wf_value\<close> holds of the values that a C++ \<open>Value\<close> can hold: 64-bit integers, lengths below
  \<open>2^64\<close>, and map keys that do not repeat.  \<open>canon\<close> lists the entries of each map in the order of
  their encoded keys.\<close>

fun wf_value :: "cbor_value \<Rightarrow> bool" where
  "wf_value (CInt i) = in_i64 i"
| "wf_value (CStr s) = (fits64 (length s))"
| "wf_value (CBytes b) = (fits64 (length b))"
| "wf_value (CArr vs) = (fits64 (length vs) \<and> (\<forall>v \<in> set vs. wf_value v))"
| "wf_value (CMap m) =
     (fits64 (length m) \<and> distinct (map fst m) \<and>
      (\<forall>(k, v) \<in> set m. fits64 (length k) \<and> wf_value v))"

abbreviation entry_rank :: "bytes \<times> 'v \<Rightarrow> nat \<times> bytes" where
  "entry_rank e \<equiv> key_rank (text_bytes (fst e))"

fun canon :: "cbor_value \<Rightarrow> cbor_value" where
  "canon (CArr vs) = CArr (map canon vs)"
| "canon (CMap m) = CMap (sort_key entry_rank (map (\<lambda>(k, v). (k, canon v)) m))"
| "canon v = v"

lemma encode_map: "encode (CMap m) = head 5 (word_of_nat (length m)) @
    concat (map (\<lambda>(k, v). text_bytes k @ encode v) (sort_key entry_rank m))"
  by (simp add: encode_simps sort_entries_def sort_key_map case_prod_unfold comp_def)

lemma canon_map: "canon (CMap m) = CMap (map (\<lambda>(k, v). (k, canon v)) (sort_key entry_rank m))"
  by (simp add: sort_key_map case_prod_unfold)

lemma dec_items_concat:
  assumes "\<And>v r. v \<in> set vs \<Longrightarrow> d (enc v @ r) = Some (c v, r)"
  shows "dec_items d (length vs) (concat (map enc vs) @ r) = Some (map c vs, r)"
  using assms by (induction vs) simp_all

lemma dec_entries_text:
  "fits64 (length k) \<Longrightarrow> dec_entries d (Suc n) prev (text_bytes k @ r) =
    (if case prev of None \<Rightarrow> True | Some p \<Rightarrow> key_rank p < key_rank (text_bytes k) then
       (case d r of
          None \<Rightarrow> None
        | Some (v, r2) \<Rightarrow> map_option (\<lambda>(es, r'). ((k, v) # es, r')) (dec_entries d n (Some (text_bytes k)) r2))
     else None)"
  by (simp add: dec_head_text Let_def split: option.split)

lemma dec_entries_concat:
  assumes "sorted_wrt (<) (map entry_rank es)"
    and "\<And>k v. (k, v) \<in> set es \<Longrightarrow> fits64 (length k)"
    and "\<And>k v r. (k, v) \<in> set es \<Longrightarrow> d (enc v @ r) = Some (c v, r)"
    and "\<And>e. e \<in> set es \<Longrightarrow> case prev of None \<Rightarrow> True | Some p \<Rightarrow> key_rank p < entry_rank e"
  shows "dec_entries d (length es) prev (concat (map (\<lambda>(k, v). text_bytes k @ enc v) es) @ r) =
    Some (map (\<lambda>(k, v). (k, c v)) es, r)"
  using assms
proof (induction es arbitrary: prev)
  case (Cons e es)
  obtain k v where e: "e = (k, v)" by (cases e)
  let ?r = "concat (map (\<lambda>(k, v). text_bytes k @ enc v) es) @ r"
  have "dec_entries d (length es) (Some (text_bytes k)) ?r = Some (map (\<lambda>(k, v). (k, c v)) es, r)"
  proof (rule Cons.IH)
    show "sorted_wrt (<) (map entry_rank es)" using Cons.prems(1) by simp
    show "case Some (text_bytes k) of None \<Rightarrow> True | Some p \<Rightarrow> key_rank p < entry_rank e'"
      if "e' \<in> set es" for e'
      using Cons.prems(1) that by (simp add: e)
    show "fits64 (length k')" if "(k', v') \<in> set es" for k' v'
      using Cons.prems(2) [of k' v'] that by simp
    show "d (enc v' @ r') = Some (c v', r')" if "(k', v') \<in> set es" for k' v' r'
      using Cons.prems(3) [of k' v' r'] that by simp
  qed
  moreover have "d (enc v @ ?r) = Some (c v, ?r)"
    using Cons.prems(3) [of k v ?r] by (simp add: e)
  moreover have "fits64 (length k)"
    using Cons.prems(2) [of k v] by (simp add: e)
  moreover have "case prev of None \<Rightarrow> True | Some p \<Rightarrow> key_rank p < key_rank (text_bytes k)"
    using Cons.prems(4) [of e] by (simp add: e split: option.splits)
  ultimately show ?case by (simp add: e dec_entries_text del: dec_entries.simps)
qed simp

lemma entry_ranks_ascend:
  assumes "wf_value (CMap m)"
  shows "sorted_wrt (<) (map entry_rank (sort_key entry_rank m))"
proof -
  have keys: "distinct (map fst m)" and len: "fits64 (length (fst e))" if "e \<in> set m" for e
    using assms that by (simp_all add: case_prod_unfold)
  have "inj_on entry_rank (set m)"
  proof (rule inj_onI)
    fix a b assume ab: "a \<in> set m" "b \<in> set m" "entry_rank a = entry_rank b"
    from ab(3) have "fst a = fst b"
      by (intro text_bytes_inj [OF len [OF ab(1)] len [OF ab(2)]]) (simp add: key_rank_def)
    with ab keys [OF ab(1)] show "a = b" by (metis distinct_map inj_onD)
  qed
  moreover have "distinct m" using assms by (simp add: distinct_map)
  ultimately have "distinct (map entry_rank (sort_key entry_rank m))"
    by (simp add: distinct_map)
  then show ?thesis by (simp add: strict_sorted_iff)
qed

lemma length_concat_ge: "x \<in> set xs \<Longrightarrow> length (f x) \<le> length (concat (map f xs))"
  by (induction xs) auto

lemma arr_length_bound: "v \<in> set vs \<Longrightarrow> length (encode v) < length (encode (CArr vs))"
  using length_concat_ge [of v vs encode] by (simp add: encode_simps head_bytes)

lemma map_length_bound: "(k, v) \<in> set m \<Longrightarrow> length (encode v) < length (encode (CMap m))"
  using length_concat_ge [of "(k, v)" "sort_key entry_rank m" "\<lambda>(k, v). text_bytes k @ encode v"]
  by (simp add: encode_map head_bytes)

lemma unat_u64_of_int: "0 \<le> i \<Longrightarrow> i < 9223372036854775808 \<Longrightarrow> unat (word_of_int i :: u64) = nat i"
  by (simp add: unsigned_of_int take_bit_int_eq_self)

lemma dec_item_encode:
  assumes "wf_value v" and "length (encode v) \<le> fuel"
  shows "dec_item fuel (encode v @ r) = Some (canon v, r)"
  using assms
proof (induction fuel arbitrary: v r)
  case 0
  then show ?case by (cases v) (simp_all add: encode_simps text_bytes_def split: if_splits)
next
  case (Suc fuel)
  show ?case
  proof (cases v)
    case (CInt i)
    show ?thesis
    proof (cases "i \<ge> 0")
      case False
      then have "unat (word_of_int (- (i + 1)) :: u64) = nat (- (i + 1))"
        using Suc.prems by (intro unat_u64_of_int) (simp_all add: CInt in_i64_def)
      then show ?thesis using False Suc.prems
        by (simp add: CInt encode_simps dec_head_head in_i64_def nat_less_iff)
    qed (use Suc.prems in \<open>simp add: CInt encode_simps dec_head_head in_i64_def unat_u64_of_int nat_less_iff\<close>)
  next
    case (CArr vs)
    have "dec_item fuel (encode w @ r) = Some (canon w, r)" if "w \<in> set vs" for w r
      using Suc.prems arr_length_bound [OF that] that by (intro Suc.IH) (simp_all add: CArr)
    then show ?thesis using Suc.prems
      by (simp add: CArr encode_simps dec_head_head unat_u64_of_nat dec_items_concat)
  next
    case (CMap m)
    have wf: "wf_value (CMap m)" using Suc.prems CMap by simp
    have "dec_item fuel (encode w @ r) = Some (canon w, r)" if "(k, w) \<in> set m" for k w r
      using Suc.prems map_length_bound [OF that] that by (intro Suc.IH) (auto simp: CMap)
    then have "dec_entries (dec_item fuel) (length (sort_key entry_rank m)) None
        (concat (map (\<lambda>(k, v). text_bytes k @ encode v) (sort_key entry_rank m)) @ r) =
        Some (map (\<lambda>(k, v). (k, canon v)) (sort_key entry_rank m), r)"
      using wf by (intro dec_entries_concat entry_ranks_ascend) auto
    then show ?thesis using wf
      by (simp add: CMap encode_map canon_map dec_head_head unat_u64_of_nat del: canon.simps)
  qed (use Suc.prems in \<open>simp_all add: encode_simps dec_head_text dec_head_head unat_u64_of_nat\<close>)
qed

lemma decode_encode: "wf_value v \<Longrightarrow> decode (encode v @ r) = Some (canon v, r)"
  by (simp add: decode_def dec_item_encode)

section \<open>The decoder accepts canonical encodings only\<close>

lemma be_bytes_be_nat: "length bs \<le> 8 \<Longrightarrow> be_bytes (length bs) (word_of_nat (be_nat bs) :: u64) = bs"
proof (rule be_nat_inj)
  assume "length bs \<le> 8"
  then have "(256::nat) ^ length bs \<le> 256 ^ 8" by (intro power_increasing) simp_all
  then have "be_nat bs < 18446744073709551616" using be_nat_less [of bs] by simp
  then have "unat (word_of_nat (be_nat bs) :: u64) = be_nat bs"
    by (intro unat_u64_of_nat) (simp add: fits64_def)
  then show "be_nat (be_bytes (length bs) (word_of_nat (be_nat bs) :: u64)) = be_nat bs"
    using be_nat_less [of bs] by (simp add: be_nat_be_bytes)
qed simp

lemma head_of_parts:
  assumes "m < 8" and "fits64 n" and "b = 32 * m + unat (arg_info (word_of_nat n))" and "b = unat c"
    and "arg_len (word_of_nat n) \<le> length r"
    and "be_nat (take (arg_len (word_of_nat n)) r) = n \<or> arg_len (word_of_nat n) = 0"
  shows "c # r = head (word_of_nat m) (word_of_nat n) @ drop (arg_len (word_of_nat n)) r"
proof -
  let ?v = "word_of_nat n :: u64"
  have m: "unat (word_of_nat m :: u8) = m" using assms(1) by (simp add: unsigned_of_nat take_bit_nat_eq_self)
  then have "(word_of_nat m :: u8) < 8" using assms(1) by (simp add: word_less_nat_alt)
  then have "unat (push_bit 5 (word_of_nat m) OR arg_info ?v) = unat c"
    using assms(3, 4) m by (simp add: unat_initial_byte arg_info_less)
  moreover have "be_bytes (arg_len ?v) ?v = take (arg_len ?v) r"
    using be_bytes_be_nat [of "take (arg_len ?v) r"] assms(5, 6)
    by (auto simp: arg_len_def split: if_splits)
  ultimately show ?thesis by (simp add: head_bytes word_unat_eq_iff)
qed

lemma dec_head_inv:
  assumes "dec_head bs = Some (m, n, r)"
  shows "bs = head (word_of_nat m) (word_of_nat n) @ r \<and> m < 8 \<and> fits64 n"
proof -
  obtain c r0 where bs: "bs = c # r0" using assms by (cases bs) (simp_all add: dec_head_def)
  define info where "info = unat c mod 32"
  have m: "m = unat c div 32" using assms by (auto simp: bs dec_head_def Let_def split: if_splits)
  have c: "unat c = 32 * m + info" by (simp add: m info_def)
  have "m < 8" using unat_u8_less [of c] by (simp add: m less_mult_imp_div_less)
  consider (small) "info < 24" "n = info" "r = r0"
    | (arg) "24 \<le> info" "info \<le> 27" "2 ^ (info - 24) \<le> length r0" "min_arg info \<le> n"
        "n = be_nat (take (2 ^ (info - 24)) r0)" "r = drop (2 ^ (info - 24)) r0"
    using assms by (auto simp: bs dec_head_def Let_def info_def split: if_splits)
  then show ?thesis
  proof cases
    case small
    then have "fits64 n" by (simp add: fits64_def)
    then have v: "unat (word_of_nat n :: u64) = n" by (rule unat_u64_of_nat)
    then have "arg_len (word_of_nat n) = 0" "unat (arg_info (word_of_nat n)) = info"
      using small by (simp_all add: arg_len_def word_less_nat_alt unat_arg_info)
    then show ?thesis
      using head_of_parts [OF \<open>m < 8\<close> \<open>fits64 n\<close> _ c [symmetric], of r0] small \<open>m < 8\<close> \<open>fits64 n\<close>
      by (simp add: bs)
  next
    case arg
    then have i: "info = 24 \<or> info = 25 \<or> info = 26 \<or> info = 27" by auto
    have n: "n < 256 ^ 2 ^ (info - 24)"
      using be_nat_less [of "take (2 ^ (info - 24)) r0"] arg by simp
    then have "fits64 n" using i by (auto simp: fits64_def)
    then have v: "unat (word_of_nat n :: u64) = n" by (rule unat_u64_of_nat)
    have "arg_len (word_of_nat n) = 2 ^ (info - 24)" "unat (arg_info (word_of_nat n)) = info"
      using i n arg(4) by (auto simp: arg_len_def unat_arg_info v word_less_nat_alt word_le_nat_alt min_arg_def)
    then show ?thesis
      using head_of_parts [OF \<open>m < 8\<close> \<open>fits64 n\<close> _ c [symmetric], of r0] arg \<open>m < 8\<close> \<open>fits64 n\<close>
      by (simp add: bs)
  qed
qed

lemma dec_text_inv:
  assumes "dec_head bs = Some (3, n, r)" and "n \<le> length r"
  shows "bs = text_bytes (take n r) @ drop n r \<and> fits64 n"
  using dec_head_inv [OF assms(1)] assms(2) by (simp add: text_bytes_def)

lemma dec_items_inv:
  assumes "\<And>bs v r. d bs = Some (v, r) \<Longrightarrow> bs = enc v @ r \<and> P v"
    and "dec_items d n bs = Some (vs, r)"
  shows "bs = concat (map enc vs) @ r \<and> length vs = n \<and> (\<forall>v \<in> set vs. P v)"
  using assms(2)
proof (induction n arbitrary: bs vs)
  case (Suc n)
  then obtain v r1 vs' where "d bs = Some (v, r1)" "dec_items d n r1 = Some (vs', r)" "vs = v # vs'"
    by (auto split: option.splits)
  with Suc.IH [of r1 vs'] assms(1) [of bs v r1] show ?case by simp
qed simp

lemma dec_entries_inv:
  assumes "\<And>bs v r. d bs = Some (v, r) \<Longrightarrow> bs = enc v @ r \<and> P v"
    and "dec_entries d n prev bs = Some (es, r)"
  shows "bs = concat (map (\<lambda>(k, v). text_bytes k @ enc v) es) @ r \<and> length es = n \<and>
    (\<forall>(k, v) \<in> set es. fits64 (length k) \<and> P v) \<and> sorted_wrt (<) (map entry_rank es) \<and>
    (\<forall>e \<in> set es. case prev of None \<Rightarrow> True | Some p \<Rightarrow> key_rank p < entry_rank e)"
  using assms(2)
proof (induction n arbitrary: bs prev es)
  case (Suc n)
  then obtain len r0 where h: "dec_head bs = Some (3, len, r0)" "len \<le> length r0"
    by (auto split: option.splits if_splits)
  let ?k = "take len r0" and ?r1 = "drop len r0"
  have bs: "bs = text_bytes ?k @ ?r1" and k: "fits64 (length ?k)"
    using dec_text_inv [OF h] h by simp_all
  have dec: "dec_entries d (Suc n) prev (text_bytes ?k @ ?r1) = Some (es, r)"
    using Suc.prems bs by simp
  then have prev: "case prev of None \<Rightarrow> True | Some p \<Rightarrow> key_rank p < key_rank (text_bytes ?k)"
    unfolding dec_entries_text [OF k] by (simp split: if_splits)
  with dec obtain v r2 es' where v: "d ?r1 = Some (v, r2)" "es = (?k, v) # es'"
    and rest: "dec_entries d n (Some (text_bytes ?k)) r2 = Some (es', r)"
    unfolding dec_entries_text [OF k] by (auto split: option.splits if_splits)
  have "case prev of None \<Rightarrow> True | Some p \<Rightarrow> key_rank p < entry_rank e" if "e \<in> set es" for e
    using that Suc.IH [OF rest] prev v(2) by (auto split: option.splits intro: less_trans)
  then show ?case
    using Suc.IH [OF rest] assms(1) [OF v(1)] v(2) bs k by simp
qed simp

lemma ascending_map_canonical:
  assumes "sorted_wrt (<) (map entry_rank es)" and "\<forall>(k, v) \<in> set es. canon v = v"
  shows "distinct (map fst es)" "sort_key entry_rank es = es" "canon (CMap es) = CMap es"
proof -
  have "distinct (map entry_rank es)" using assms(1) by (simp add: strict_sorted_iff)
  then have "distinct (map (\<lambda>k. key_rank (text_bytes k)) (map fst es))" by (simp add: comp_def)
  then show "distinct (map fst es)" by (simp only: distinct_map)
  show sorted: "sort_key entry_rank es = es"
    using assms(1) by (intro sort_key_id_if_sorted) (simp add: strict_sorted_iff)
  have "map (\<lambda>(k, v). (k, canon v)) es = es"
    using assms(2) by (intro map_idI) auto
  then show "canon (CMap es) = CMap es" by (simp add: canon_map sorted del: canon.simps)
qed

lemma dec_item_inv:
  "dec_item fuel bs = Some (v, r) \<Longrightarrow> bs = encode v @ r \<and> wf_value v \<and> canon v = v"
proof (induction fuel arbitrary: bs v r)
  case (Suc fuel)
  then obtain m n r0 where h: "dec_head bs = Some (m, n, r0)" by (auto split: option.splits)
  note bs = dec_head_inv [OF h]
  consider "m = 0" | "m = 1" | "m = 2" | "m = 3" | "m = 4" | "m = 5"
    using Suc.prems h by (auto split: if_splits)
  then show ?case
  proof cases
    case 4
    then show ?thesis using Suc.prems h dec_text_inv [of bs n r0]
      by (auto simp: encode_simps split: if_splits)
  next
    case 5
    then obtain vs where v: "v = CArr vs" "dec_items (dec_item fuel) n r0 = Some (vs, r)"
      using Suc.prems h by auto
    have "r0 = concat (map encode vs) @ r \<and> length vs = n \<and> (\<forall>v \<in> set vs. wf_value v \<and> canon v = v)"
      using Suc.IH v(2) by (intro dec_items_inv) auto
    then show ?thesis using bs 5 by (simp add: v(1) encode_simps map_idI)
  next
    case 6
    then obtain es where v: "v = CMap es" "dec_entries (dec_item fuel) n None r0 = Some (es, r)"
      using Suc.prems h by auto
    have es: "r0 = concat (map (\<lambda>(k, v). text_bytes k @ encode v) es) @ r" "length es = n"
        "\<forall>(k, v) \<in> set es. fits64 (length k) \<and> wf_value v \<and> canon v = v"
        "sorted_wrt (<) (map entry_rank es)"
      using dec_entries_inv [OF Suc.IH v(2)] by auto
    then have "\<forall>(k, v) \<in> set es. canon v = v" by auto
    note canonical = ascending_map_canonical [OF es(4) this]
    have "wf_value v" using es(2, 3) bs canonical(1) by (auto simp: v(1))
    then show ?thesis using bs 6 es(1, 2) canonical(2, 3) by (simp add: v(1) encode_map del: canon.simps)
  qed (use Suc.prems h bs in \<open>auto simp: encode_simps in_i64_def split: if_splits\<close>)
qed simp

text \<open>C20. The decoder and the encoder describe the same language: a byte string decodes to a value
  exactly when it starts with the encoding of that value, and the decoded value is well formed and
  has its map entries in canonical order.\<close>

theorem cbor_decode_iff:
  "decode bs = Some (v, r) \<longleftrightarrow> wf_value v \<and> canon v = v \<and> bs = encode v @ r"
  using dec_item_inv [of "length bs" bs v r] decode_encode [of v r] by (auto simp: decode_def)

lemma encode_canon: "wf_value v \<Longrightarrow> encode (canon v) = encode v"
  using decode_encode [of v "[]"] dec_item_inv [of "length (encode v)" "encode v" "canon v" "[]"]
  by (simp add: decode_def)

text \<open>C21. Encodings are self-delimiting and canonical: two well-formed values followed by arbitrary
  bytes give the same stream exactly when the values are equal up to the order of map entries
  and the trailing bytes are equal.  In particular no encoding is a proper prefix of another.\<close>

theorem cbor_encode_unique:
  assumes "wf_value v" and "wf_value w"
  shows "encode v @ r = encode w @ s \<longleftrightarrow> canon v = canon w \<and> r = s"
proof
  assume "encode v @ r = encode w @ s"
  then have "Some (canon v, r) = Some (canon w, s)"
    using decode_encode [OF assms(1), of r] decode_encode [OF assms(2), of s] by simp
  then show "canon v = canon w \<and> r = s" by simp
next
  assume "canon v = canon w \<and> r = s"
  then show "encode v @ r = encode w @ s"
    using encode_canon [OF assms(1)] encode_canon [OF assms(2)] by simp
qed

theorem cbor_encode_unique_witness:
  "encode (CMap [(str ''a'', CInt 1)]) @ [7, 8] \<noteq> encode (CMap [(str ''a'', CArr [CInt 1])]) @ [7]"
  using cbor_encode_unique [of "CMap [(str ''a'', CInt 1)]" "CMap [(str ''a'', CArr [CInt 1])]" "[7, 8]" "[7]"]
  by (simp add: fits64_def in_i64_def)

text \<open>C38. The encoding of a map does not depend on the order in which its entries are listed.\<close>

theorem cbor_map_order_irrelevant:
  assumes "wf_value (CMap m)" and "mset m = mset m'"
  shows "encode (CMap m) = encode (CMap m')"
proof -
  have "inj_on entry_rank (set m)"
    using entry_ranks_ascend [OF assms(1)] by (simp add: strict_sorted_iff distinct_map)
  then have "sort_key entry_rank m = sort_key entry_rank m'"
    using assms(2) by (intro sort_key_inj_key_eq) simp_all
  moreover have "length m = length m'" using assms(2) by (rule mset_eq_length)
  ultimately show ?thesis by (simp add: encode_map)
qed

theorem cbor_map_order_irrelevant_witness:
  "encode (CMap [(str ''bb'', CInt 1), (str ''c'', CArr [])]) =
   encode (CMap [(str ''c'', CArr []), (str ''bb'', CInt 1)])"
  by (rule cbor_map_order_irrelevant) (simp_all add: fits64_def in_i64_def str_def)

section \<open>Well-formedness from the size of the encoding\<close>

text \<open>A value whose integers fit and whose maps have no repeated key is well formed as soon as its
  encoding is shorter than \<open>2^64\<close> bytes, since every length in it is bounded by that of the encoding.\<close>

fun shape_ok :: "cbor_value \<Rightarrow> bool" where
  "shape_ok (CInt i) = in_i64 i"
| "shape_ok (CArr vs) = (\<forall>v \<in> set vs. shape_ok v)"
| "shape_ok (CMap m) = (distinct (map fst m) \<and> (\<forall>(k, v) \<in> set m. shape_ok v))"
| "shape_ok (CStr s) = True"
| "shape_ok (CBytes b) = True"

lemma length_concat_ge_length: "(\<And>x. x \<in> set xs \<Longrightarrow> f x \<noteq> []) \<Longrightarrow> length xs \<le> length (concat (map f xs))"
proof (induction xs)
  case (Cons x xs)
  have "1 \<le> length (f x)" using Cons.prems [of x] by (cases "f x") simp_all
  then show ?case using Cons by simp
qed simp

lemma encode_not_Nil [simp]: "encode v \<noteq> []"
  by (cases v) (simp_all add: encode_simps text_bytes_def)

lemma text_bytes_ge: "length s < length (text_bytes s)"
  by (simp add: text_bytes_def head_bytes)

lemma fits64_le: "fits64 n \<Longrightarrow> m \<le> n \<Longrightarrow> fits64 m"
  by (simp add: fits64_def)

lemma wf_of_length: "shape_ok v \<Longrightarrow> fits64 (length (encode v)) \<Longrightarrow> wf_value v"
proof (induction v rule: shape_ok.induct)
  case (2 vs)
  have "length vs \<le> length (encode (CArr vs))"
    using length_concat_ge_length [of vs encode] by (simp add: encode_simps)
  moreover have "fits64 (length (encode v))" if "v \<in> set vs" for v
    using 2(3) arr_length_bound [OF that] by (auto elim: fits64_le)
  ultimately show ?case using 2 by (auto elim: fits64_le)
next
  case (3 m)
  let ?f = "\<lambda>(k, v). text_bytes k @ encode v"
  have "length m \<le> length (encode (CMap m))"
    using length_concat_ge_length [of "sort_key entry_rank m" ?f] by (simp add: encode_map case_prod_unfold)
  moreover have "fits64 (length (encode v))" if "(k, v) \<in> set m" for k v
    using 3(3) map_length_bound [OF that] by (auto elim: fits64_le)
  moreover have "fits64 (length k)" if "(k, v) \<in> set m" for k v
  proof -
    have "length (text_bytes k @ encode v) \<le> length (encode (CMap m))"
      using length_concat_ge [of "(k, v)" "sort_key entry_rank m" ?f] that by (simp add: encode_map)
    then show ?thesis using 3(3) text_bytes_ge [of k] by (elim fits64_le) simp
  qed
  ultimately show ?case using 3 by (auto elim: fits64_le)
next
  case (4 s)
  then show ?case using text_bytes_ge [of s] by (auto simp: encode_simps elim: fits64_le)
next
  case (5 b)
  then show ?case by (auto simp: encode_simps elim: fits64_le)
qed simp

section \<open>An upper bound on the size\<close>

fun csize :: "cbor_value \<Rightarrow> nat" where
  "csize (CInt i) = 9"
| "csize (CStr s) = 9 + length s"
| "csize (CBytes b) = 9 + length b"
| "csize (CArr vs) = 9 + (\<Sum>v \<leftarrow> vs. csize v)"
| "csize (CMap m) = 9 + (\<Sum>(k, v) \<leftarrow> m. 9 + length k + csize v)"

lemma length_head: "length (head m v) \<le> 9"
  by (simp add: head_bytes arg_len_def)

lemma length_encode_le: "length (encode v) \<le> csize v"
proof (induction v rule: csize.induct)
  case (1 i)
  show ?case using length_head [of 0] length_head [of 1] by (simp add: encode_simps)
next
  case (2 s)
  show ?case using length_head [of 3 "word_of_nat (length s)"] by (simp add: encode_simps text_bytes_def)
next
  case (3 b)
  show ?case using length_head [of 2 "word_of_nat (length b)"] by (simp add: encode_simps)
next
  case (4 vs)
  have "length (concat (map encode vs)) \<le> (\<Sum>v \<leftarrow> vs. csize v)"
    using 4 by (simp add: length_concat comp_def sum_list_mono)
  then show ?case using length_head [of 4 "word_of_nat (length vs)"] by (simp add: encode_simps)
next
  case (5 m)
  let ?f = "\<lambda>(k, v). text_bytes k @ encode v" and ?g = "\<lambda>(k, v). 9 + length k + csize v"
  have "length (?f e) \<le> ?g e" if "e \<in> set m" for e
    using 5 [of e "fst e" "snd e"] that length_head [of 3 "word_of_nat (length (fst e))"]
    by (cases e) (simp add: text_bytes_def)
  then have "(\<Sum>e \<leftarrow> sort_key entry_rank m. length (?f e)) \<le> (\<Sum>e \<leftarrow> sort_key entry_rank m. ?g e)"
    by (intro sum_list_mono) simp
  also have "\<dots> = (\<Sum>e \<leftarrow> m. ?g e)"
    by (simp flip: sum_mset_sum_list)
  finally show ?case
    using length_head [of 5 "word_of_nat (length m)"] by (simp add: encode_map length_concat comp_def)
qed

end
