(* ===== verification/Sha256.thy ===== *)
theory Sha256
  imports Bytes
begin

text \<open>
  The SHA-256 of \<open>src/csrc/proof/crypto.cpp\<close>: \<open>Sha256Ctx\<close> with its streaming \<open>update\<close> and \<open>finish\<close>,
  and the one-shot \<open>sha256\<close>.

  The context is a record with the source's four members.  \<open>process_block\<close> keeps the two loops of the
  source (the schedule array filled left to right, the eight working variables rotated).  The padding
  loop of \<open>finish\<close> has no syntactic bound, so it is a \<open>partial_function\<close> and its termination is proved.

  The reference is FIPS 180-4: a recursive message schedule, the library's rotations, padding of the
  whole message, and a fold of the compression function over 64-byte blocks.  The main result is that
  any chunking of a message gives the FIPS digest.
\<close>

section \<open>The implementation\<close>

text \<open>The round constants, row by row as the source lists them.\<close>

definition kSha256K :: "u32 list" where
  "kSha256K = concat [
    [0x428a2f98, 0x71374491, 0xb5c0fbcf, 0xe9b5dba5, 0x3956c25b, 0x59f111f1],
    [0x923f82a4, 0xab1c5ed5, 0xd807aa98, 0x12835b01, 0x243185be, 0x550c7dc3],
    [0x72be5d74, 0x80deb1fe, 0x9bdc06a7, 0xc19bf174, 0xe49b69c1, 0xefbe4786],
    [0x0fc19dc6, 0x240ca1cc, 0x2de92c6f, 0x4a7484aa, 0x5cb0a9dc, 0x76f988da],
    [0x983e5152, 0xa831c66d, 0xb00327c8, 0xbf597fc7, 0xc6e00bf3, 0xd5a79147],
    [0x06ca6351, 0x14292967, 0x27b70a85, 0x2e1b2138, 0x4d2c6dfc, 0x53380d13],
    [0x650a7354, 0x766a0abb, 0x81c2c92e, 0x92722c85, 0xa2bfe8a1, 0xa81a664b],
    [0xc24b8b70, 0xc76c51a3, 0xd192e819, 0xd6990624, 0xf40e3585, 0x106aa070],
    [0x19a4c116, 0x1e376c08, 0x2748774c, 0x34b0bcb5, 0x391c0cb3, 0x4ed8aa4a],
    [0x5b9cca4f, 0x682e6ff3, 0x748f82ee, 0x78a5636f, 0x84c87814, 0x8cc70208],
    [0x90befffa, 0xa4506ceb, 0xbef9a3f7, 0xc67178f2]]"

definition rotr :: "u32 \<Rightarrow> nat \<Rightarrow> u32" where
  "rotr x n = drop_bit n x OR push_bit (32 - n) x"

record sha256_ctx =
  sha_state :: "u32 list"
  total_len :: u64
  buffer :: bytes
  buffer_len :: nat

definition kInit :: "u32 list" where
  "kInit = [0x6a09e667, 0xbb67ae85, 0x3c6ef372, 0xa54ff53a, 0x510e527f, 0x9b05688c, 0x1f83d9ab, 0x5be0cd19]"

text \<open>The constructor leaves \<open>buffer\<close> uninitialised; the argument is its arbitrary content.\<close>

definition new_ctx :: "bytes \<Rightarrow> sha256_ctx" where
  "new_ctx garbage = \<lparr> sha_state = kInit, total_len = 0, buffer = garbage, buffer_len = 0 \<rparr>"

definition schedule_first :: "bytes \<Rightarrow> u32 list" where
  "schedule_first block = map (\<lambda>i.
     push_bit 24 (ucast (block ! (4 * i))) OR push_bit 16 (ucast (block ! (4 * i + 1))) OR
     push_bit 8 (ucast (block ! (4 * i + 2))) OR ucast (block ! (4 * i + 3))) [0..<16]"

definition schedule_step :: "nat \<Rightarrow> u32 list \<Rightarrow> u32 list" where
  "schedule_step i w =
     (let s0 = rotr (w ! (i - 15)) 7 XOR rotr (w ! (i - 15)) 18 XOR drop_bit 3 (w ! (i - 15));
          s1 = rotr (w ! (i - 2)) 17 XOR rotr (w ! (i - 2)) 19 XOR drop_bit 10 (w ! (i - 2))
      in w @ [w ! (i - 16) + s0 + w ! (i - 7) + s1])"

definition schedule :: "bytes \<Rightarrow> u32 list" where
  "schedule block = fold schedule_step [16..<64] (schedule_first block)"

type_synonym work_vars = "u32 \<times> u32 \<times> u32 \<times> u32 \<times> u32 \<times> u32 \<times> u32 \<times> u32"

definition round_step :: "u32 list \<Rightarrow> nat \<Rightarrow> work_vars \<Rightarrow> work_vars" where
  "round_step w i = (\<lambda>(a, b, c, d, e, f, g, h).
     let s1 = rotr e 6 XOR rotr e 11 XOR rotr e 25;
         ch = (e AND f) XOR (NOT e AND g);
         temp1 = h + s1 + ch + kSha256K ! i + w ! i;
         s0 = rotr a 2 XOR rotr a 13 XOR rotr a 22;
         maj = (a AND b) XOR (a AND c) XOR (b AND c);
         temp2 = s0 + maj
     in (temp1 + temp2, a, b, c, d + temp1, e, f, g))"

definition process_block :: "bytes \<Rightarrow> u32 list \<Rightarrow> u32 list" where
  "process_block block state =
     (let w = schedule block;
          (a, b, c, d, e, f, g, h) = fold (round_step w) [0..<64]
            (state ! 0, state ! 1, state ! 2, state ! 3, state ! 4, state ! 5, state ! 6, state ! 7)
      in [state ! 0 + a, state ! 1 + b, state ! 2 + c, state ! 3 + d,
          state ! 4 + e, state ! 5 + f, state ! 6 + g, state ! 7 + h])"

text \<open>\<open>memcpy(dst + off, src, length src)\<close> on a buffer.\<close>

definition memcpy :: "bytes \<Rightarrow> nat \<Rightarrow> bytes \<Rightarrow> bytes" where
  "memcpy dst off src = take off dst @ src @ drop (off + length src) dst"

function update_blocks :: "u32 list \<Rightarrow> bytes \<Rightarrow> u32 list \<times> bytes" where
  "update_blocks st data =
     (if length data \<ge> 64 then update_blocks (process_block (take 64 data) st) (drop 64 data)
      else (st, data))"
  by pat_completeness auto
termination by (relation "measure (\<lambda>(st, data). length data)") auto

declare update_blocks.simps [simp del]

definition update_fill :: "sha256_ctx \<Rightarrow> bytes \<Rightarrow> sha256_ctx \<times> bytes" where
  "update_fill ctx data =
     (if buffer_len ctx > 0 then
        let n = min (length data) (64 - buffer_len ctx);
            ctx = ctx \<lparr> buffer := memcpy (buffer ctx) (buffer_len ctx) (take n data),
                        buffer_len := buffer_len ctx + n \<rparr>;
            ctx = (if buffer_len ctx = 64
                   then ctx \<lparr> sha_state := process_block (buffer ctx) (sha_state ctx), buffer_len := 0 \<rparr>
                   else ctx)
        in (ctx, drop n data)
      else (ctx, data))"

definition sha_update :: "bytes \<Rightarrow> sha256_ctx \<Rightarrow> sha256_ctx" where
  "sha_update data ctx =
     (let (ctx, data) = update_fill (ctx \<lparr> total_len := total_len ctx + word_of_nat (length data) \<rparr>) data;
          (st, data) = update_blocks (sha_state ctx) data;
          ctx = ctx \<lparr> sha_state := st \<rparr>
      in if length data > 0 then ctx \<lparr> buffer := memcpy (buffer ctx) 0 data, buffer_len := length data \<rparr>
         else ctx)"

partial_function (option) pad_loop :: "sha256_ctx \<Rightarrow> sha256_ctx option" where
  "pad_loop ctx = (if buffer_len ctx \<noteq> 56 then pad_loop (sha_update [0] ctx) else Some ctx)"

definition digest_bytes :: "u32 list \<Rightarrow> bytes" where
  "digest_bytes st = concat (map (\<lambda>i. [ucast (drop_bit 24 (st ! i)), ucast (drop_bit 16 (st ! i)),
     ucast (drop_bit 8 (st ! i)), ucast (st ! i)]) [0..<8])"

definition sha_finish :: "sha256_ctx \<Rightarrow> bytes option" where
  "sha_finish ctx =
     (let bit_len = total_len ctx * 8 in
      do {
        ctx \<leftarrow> pad_loop (sha_update [0x80] ctx);
        let ctx = sha_update (map (\<lambda>i. ucast (drop_bit (56 - 8 * i) bit_len)) [0..<8]) ctx;
        Some (digest_bytes (sha_state ctx))
      })"

definition sha256 :: "bytes \<Rightarrow> bytes \<Rightarrow> bytes option" where
  "sha256 garbage data = sha_finish (sha_update data (new_ctx garbage))"

section \<open>FIPS 180-4\<close>

definition sigma0 :: "u32 \<Rightarrow> u32" where
  "sigma0 x = word_rotr 7 x XOR word_rotr 18 x XOR drop_bit 3 x"

definition sigma1 :: "u32 \<Rightarrow> u32" where
  "sigma1 x = word_rotr 17 x XOR word_rotr 19 x XOR drop_bit 10 x"

definition Sigma0 :: "u32 \<Rightarrow> u32" where
  "Sigma0 x = word_rotr 2 x XOR word_rotr 13 x XOR word_rotr 22 x"

definition Sigma1 :: "u32 \<Rightarrow> u32" where
  "Sigma1 x = word_rotr 6 x XOR word_rotr 11 x XOR word_rotr 25 x"

text \<open>The message schedule of a block, a function of the round number.\<close>

fun fips_W :: "bytes \<Rightarrow> nat \<Rightarrow> u32" where
  "fips_W block t =
     (if t < 16 then word_of_nat (be_nat (take 4 (drop (4 * t) block)))
      else sigma1 (fips_W block (t - 2)) + fips_W block (t - 7) +
           sigma0 (fips_W block (t - 15)) + fips_W block (t - 16))"

declare fips_W.simps [simp del]

fun fips_rounds :: "bytes \<Rightarrow> nat \<Rightarrow> work_vars \<Rightarrow> work_vars" where
  "fips_rounds block 0 v = v"
| "fips_rounds block (Suc t) v =
     (case fips_rounds block t v of (a, b, c, d, e, f, g, h) \<Rightarrow>
        let T1 = h + Sigma1 e + ((e AND f) XOR (NOT e AND g)) + kSha256K ! t + fips_W block t;
            T2 = Sigma0 a + ((a AND b) XOR (a AND c) XOR (b AND c))
        in (T1 + T2, a, b, c, d + T1, e, f, g))"

definition fips_compress :: "u32 list \<Rightarrow> bytes \<Rightarrow> u32 list" where
  "fips_compress H block =
     (case fips_rounds block 64 (H ! 0, H ! 1, H ! 2, H ! 3, H ! 4, H ! 5, H ! 6, H ! 7) of
        (a, b, c, d, e, f, g, h) \<Rightarrow> map2 (+) (take 8 H) [a, b, c, d, e, f, g, h])"

text \<open>The message, a one bit, the least number of zero bits that leaves 64 bits to the end of a block,
  and the length of the message in bits.\<close>

definition fips_pad :: "bytes \<Rightarrow> bytes" where
  "fips_pad m = m @ [0x80] @ replicate ((64 - (length m + 9) mod 64) mod 64) 0 @
     be_bytes 8 (word_of_nat (8 * length m) :: u64)"

fun blocks64 :: "nat \<Rightarrow> bytes \<Rightarrow> bytes list" where
  "blocks64 0 m = []"
| "blocks64 (Suc n) m = take 64 m # blocks64 n (drop 64 m)"

definition fips_sha256 :: "bytes \<Rightarrow> bytes" where
  "fips_sha256 m =
     concat (map (be_bytes 4) (foldl fips_compress kInit (blocks64 (length (fips_pad m) div 64) (fips_pad m))))"

section \<open>The compression function\<close>

lemma rotr_word_rotr:
  assumes "0 < n" and "n < 32"
  shows "rotr x n = word_rotr n x"
proof (rule bit_word_eqI)
  fix m assume m: "m < LENGTH(32)"
  then have "(m + n) mod 32 = (if m + n < 32 then m + n else m + n - 32)"
    using assms by (simp add: mod_if)
  then show "bit (rotr x n) m = bit (word_rotr n x) m"
    using assms m bit_imp_le_length [of x "m + n"]
    by (auto simp: rotr_def bit_word_rotr_iff bit_or_iff bit_drop_bit_eq bit_push_bit_iff add.commute)
qed

lemma be_nat4: "be_nat [a, b, c, d] = 2 ^ 24 * unat a + (2 ^ 16 * unat b + (2 ^ 8 * unat c + unat d))"
  by (simp add: be_nat_def)

lemma word_of_be_bytes:
  "push_bit 24 (ucast a) OR push_bit 16 (ucast b) OR push_bit 8 (ucast c) OR ucast d =
   (word_of_nat (be_nat [a, b, c, d]) :: u32)"
proof -
  note bounds = unat_u8_less [of a] unat_u8_less [of b] unat_u8_less [of c] unat_u8_less [of d]
  have "unat (push_bit k (ucast z) :: u32) = push_bit k (unat z)" if "k \<le> 24" for k and z :: u8
  proof -
    have "unat z * 2 ^ k \<le> 255 * 2 ^ 24"
      using unat_u8_less [of z] that by (intro mult_mono power_increasing) auto
    moreover have "unat (ucast z :: u32) = unat z"
      using unat_u8_less [of z] by (simp add: unsigned_ucast_eq take_bit_nat_eq_self)
    ultimately show ?thesis
      by (simp add: unsigned_push_bit_eq) (simp add: push_bit_eq_mult take_bit_nat_eq_self)
  qed
  note push = this [of 24 a] this [of 16 b] this [of 8 c]
  have "unat (push_bit 24 (ucast a) OR push_bit 16 (ucast b) OR push_bit 8 (ucast c) OR ucast d :: u32) =
      be_nat [a, b, c, d]"
    using bounds by (simp add: unsigned_or_eq push push_or_nat be_nat4 unsigned_ucast_eq take_bit_nat_eq_self)
  then show ?thesis by (metis word_of_nat_unat)
qed

lemma schedule_first_fips:
  assumes "length block = 64"
  shows "schedule_first block = map (fips_W block) [0..<16]"
proof -
  have "take 4 (drop (4 * i) block) = [block ! (4 * i), block ! (4 * i + 1), block ! (4 * i + 2), block ! (4 * i + 3)]"
    if "i < 16" for i
  proof (rule nth_equalityI)
    show "take 4 (drop (4 * i) block) ! j =
        [block ! (4 * i), block ! (4 * i + 1), block ! (4 * i + 2), block ! (4 * i + 3)] ! j"
      if "j < length (take 4 (drop (4 * i) block))" for j
    proof -
      have "j = 0 \<or> j = 1 \<or> j = 2 \<or> j = 3" using that by auto
      then show ?thesis using \<open>i < 16\<close> assms by auto
    qed
  qed (use that assms in simp)
  then show ?thesis
    by (simp add: schedule_first_def word_of_be_bytes fips_W.simps)
qed

lemma schedule_step_fips:
  assumes "16 \<le> i"
  shows "schedule_step i (map (fips_W block) [0..<i]) = map (fips_W block) [0..<Suc i]"
  using assms
  by (simp add: schedule_step_def rotr_word_rotr fips_W.simps [of block i] sigma0_def sigma1_def ac_simps)

lemma schedule_fips:
  assumes "length block = 64"
  shows "schedule block = map (fips_W block) [0..<64]"
proof -
  have "fold schedule_step [16..<n] (schedule_first block) = map (fips_W block) [0..<n]" if "16 \<le> n" for n
    using that
    by (induction n rule: dec_induct) (simp_all add: schedule_first_fips assms schedule_step_fips del: upt_Suc add: upt_Suc_append)
  from this [of 64] show ?thesis by (simp add: schedule_def)
qed

lemma rounds_fips:
  assumes "n \<le> 64"
  shows "fold (round_step (map (fips_W block) [0..<64])) [0..<n] v = fips_rounds block n v"
  using assms
  by (induction n) (simp_all add: round_step_def rotr_word_rotr Sigma0_def Sigma1_def Let_def split: prod.split)

lemma list8:
  assumes "length xs = 8"
  shows "xs = [xs ! 0, xs ! 1, xs ! 2, xs ! 3, xs ! 4, xs ! 5, xs ! 6, xs ! 7]"
  using assms by (intro nth_equalityI) (auto simp: less_Suc_eq numeral_eq_Suc)

lemma process_block_fips:
  assumes "length block = 64" and "length st = 8"
  shows "process_block block st = fips_compress st block"
proof -
  have "map2 (+) (take 8 st) [a, b, c, d, e, f, g, h] =
    [st ! 0 + a, st ! 1 + b, st ! 2 + c, st ! 3 + d, st ! 4 + e, st ! 5 + f, st ! 6 + g, st ! 7 + h]" for a b c d e f g h
    using assms(2) by (subst list8 [OF assms(2)]) simp
  then show ?thesis
    by (simp add: process_block_def fips_compress_def schedule_fips [OF assms(1)] rounds_fips Let_def
        split: prod.split)
qed

lemma length_process_block [simp]: "length (process_block block st) = 8"
  by (simp add: process_block_def Let_def split: prod.split)

section \<open>Streaming\<close>

lemma update_blocks_rest: "length (snd (update_blocks st data)) < 64"
  by (induction st data rule: update_blocks.induct) (subst update_blocks.simps, simp)

lemma update_blocks_short: "length data < 64 \<Longrightarrow> update_blocks st data = (st, data)"
  by (simp add: update_blocks.simps)

lemma update_blocks_append:
  "update_blocks st (m @ d) = (case update_blocks st m of (st', r) \<Rightarrow> update_blocks st' (r @ d))"
proof (induction st m rule: update_blocks.induct)
  case (1 st m)
  show ?case
  proof (cases "length m \<ge> 64")
    case True
    then show ?thesis
      using 1 update_blocks.simps [of st "m @ d"] update_blocks.simps [of st m] by simp
  qed (simp add: update_blocks_short)
qed

lemma update_blocks_full:
  assumes "length m = 64 * n" and "length st = 8"
  shows "update_blocks st m = (foldl fips_compress st (blocks64 n m), [])"
  using assms
proof (induction n arbitrary: m st)
  case (Suc n)
  then have "length (take 64 m) = 64" by simp
  then show ?case
    using Suc by (subst update_blocks.simps) (simp add: process_block_fips [symmetric])
qed (simp add: update_blocks_short)

lemma update_blocks_mod: "length (snd (update_blocks st m)) = length m mod 64"
proof (induction st m rule: update_blocks.induct)
  case (1 st m)
  then show ?case
    by (cases "length m \<ge> 64") (simp_all add: update_blocks.simps [of st m] le_mod_geq)
qed

lemma length_update_blocks: "length st = 8 \<Longrightarrow> length (fst (update_blocks st m)) = 8"
proof (induction st m rule: update_blocks.induct)
  case (1 st m)
  then show ?case
    by (cases "length m \<ge> 64") (simp_all add: update_blocks.simps [of st m])
qed

text \<open>\<open>sha_rep ctx m\<close>: the context has absorbed the message \<open>m\<close>.\<close>

definition sha_rep :: "sha256_ctx \<Rightarrow> bytes \<Rightarrow> bool" where
  "sha_rep ctx m \<longleftrightarrow>
     update_blocks kInit m = (sha_state ctx, take (buffer_len ctx) (buffer ctx)) \<and>
     buffer_len ctx < 64 \<and> length (buffer ctx) = 64 \<and> total_len ctx = word_of_nat (length m)"

lemma sha_rep_new: "length garbage = 64 \<Longrightarrow> sha_rep (new_ctx garbage) []"
  by (simp add: sha_rep_def new_ctx_def update_blocks_short)

lemma sha_rep_buffer_len: "sha_rep ctx m \<Longrightarrow> buffer_len ctx = length m mod 64"
  using update_blocks_mod [of kInit m] by (simp add: sha_rep_def)

lemma length_memcpy [simp]: "off + length src \<le> length dst \<Longrightarrow> length (memcpy dst off src) = length dst"
  by (simp add: memcpy_def)

lemma take_memcpy: "off + length src \<le> length dst \<Longrightarrow> take (off + length src) (memcpy dst off src) = take off dst @ src"
  by (simp add: memcpy_def)

lemma update_fill_correct:
  assumes "buffer_len ctx < 64" and "length (buffer ctx) = 64" and "update_fill ctx d = (ctx', d')"
  shows "update_blocks (sha_state ctx) (take (buffer_len ctx) (buffer ctx) @ d) =
      update_blocks (sha_state ctx') (take (buffer_len ctx') (buffer ctx') @ d')"
    and "buffer_len ctx' < 64" and "length (buffer ctx') = 64" and "total_len ctx' = total_len ctx"
    and "buffer_len ctx' = 0 \<or> d' = []"
proof -
  let ?bl = "buffer_len ctx" and ?r = "take (buffer_len ctx) (buffer ctx)"
  let ?n = "min (length d) (64 - ?bl)"
  let ?buf = "memcpy (buffer ctx) ?bl (take ?n d)"
  have fit: "?bl + length (take ?n d) \<le> length (buffer ctx)" and n: "length (take ?n d) = ?n"
    using assms(1, 2) by simp_all
  have buf: "take (?bl + ?n) ?buf = ?r @ take ?n d" "length ?buf = 64"
    using take_memcpy [OF fit] length_memcpy [OF fit] assms(2) by (simp_all add: n)
  have "?bl = 0 \<or> ?bl > 0 \<and> ?bl + ?n = 64 \<or> ?bl > 0 \<and> ?bl + ?n < 64 \<and> ?n = length d"
    using assms(1) by linarith
  then consider (empty) "?bl = 0" | (full) "?bl > 0" "?bl + ?n = 64" | (part) "?bl > 0" "?bl + ?n < 64" "?n = length d"
    by metis
  then have "update_blocks (sha_state ctx) (?r @ d) =
      update_blocks (sha_state ctx') (take (buffer_len ctx') (buffer ctx') @ d') \<and>
      buffer_len ctx' < 64 \<and> length (buffer ctx') = 64 \<and> total_len ctx' = total_len ctx \<and>
      (buffer_len ctx' = 0 \<or> d' = [])"
  proof cases
    case full
    have "?buf = ?r @ take ?n d" using buf full by simp
    moreover have "?n = 64 - ?bl" "64 - ?bl \<le> length d" using full by linarith+
    ultimately have "take 64 (?r @ d) = ?buf" "drop 64 (?r @ d) = drop ?n d" "64 \<le> length (?r @ d)"
      using assms(1, 2) by simp_all
    then have "update_blocks (sha_state ctx) (?r @ d) = update_blocks (process_block ?buf (sha_state ctx)) (drop ?n d)"
      by (simp add: update_blocks.simps [of _ "?r @ d"])
    then show ?thesis using assms(3) full buf by (auto simp: update_fill_def Let_def)
  next
    case part
    then show ?thesis using assms(3) buf by (auto simp: update_fill_def Let_def)
  qed (use assms in \<open>simp add: update_fill_def\<close>)
  then show "update_blocks (sha_state ctx) (?r @ d) =
      update_blocks (sha_state ctx') (take (buffer_len ctx') (buffer ctx') @ d')"
    and "buffer_len ctx' < 64" and "length (buffer ctx') = 64" and "total_len ctx' = total_len ctx"
    and "buffer_len ctx' = 0 \<or> d' = []"
    by blast+
qed

lemma sha_rep_update:
  assumes "sha_rep ctx m"
  shows "sha_rep (sha_update d ctx) (m @ d)"
proof -
  let ?ctx = "ctx \<lparr> total_len := total_len ctx + word_of_nat (length d) \<rparr>"
  obtain ctx' d' where fill: "update_fill ?ctx d = (ctx', d')" by fastforce
  obtain st r where blocks: "update_blocks (sha_state ctx') d' = (st, r)" by fastforce
  have r: "length r < 64" using update_blocks_rest [of "sha_state ctx'" d'] by (simp add: blocks)
  have "buffer_len ?ctx < 64" "length (buffer ?ctx) = 64" using assms by (simp_all add: sha_rep_def)
  note fill' = update_fill_correct [OF this fill]
  have "update_blocks kInit (m @ d) = update_blocks (sha_state ctx') (take (buffer_len ctx') (buffer ctx') @ d')"
    using assms fill'(1) by (simp add: update_blocks_append [of kInit] sha_rep_def)
  moreover have "sha_update d ctx =
      (if length r > 0 then ctx' \<lparr> sha_state := st, buffer := memcpy (buffer ctx') 0 r, buffer_len := length r \<rparr>
       else ctx' \<lparr> sha_state := st \<rparr>)"
    by (simp add: sha_update_def fill blocks Let_def)
  ultimately show ?thesis
    using fill'(2-5) r assms blocks
    by (auto simp: sha_rep_def update_blocks_short memcpy_def)
qed

lemma sha_rep_pad_loop:
  assumes "sha_rep ctx m" and "(length m + k) mod 64 = 56" and "k < 64"
  shows "\<exists>ctx'. pad_loop ctx = Some ctx' \<and> sha_rep ctx' (m @ replicate k 0)"
  using assms
proof (induction k arbitrary: ctx m)
  case 0
  then show ?case by (subst pad_loop.simps) (simp add: sha_rep_buffer_len)
next
  case (Suc k)
  have "length m mod 64 \<noteq> 56"
  proof
    assume "length m mod 64 = 56"
    then have "(56 + Suc k) mod 64 = 56" using Suc.prems(2) by (metis mod_add_left_eq)
    then show False using Suc.prems(3) by (cases "Suc k < 8") (simp_all add: le_mod_geq)
  qed
  moreover have "\<exists>ctx'. pad_loop (sha_update [0] ctx) = Some ctx' \<and> sha_rep ctx' ((m @ [0]) @ replicate k 0)"
    using Suc.prems by (intro Suc.IH sha_rep_update) simp_all
  ultimately show ?case
    using Suc.prems(1) by (subst pad_loop.simps) (simp add: sha_rep_buffer_len)
qed

lemma digest_bytes_be:
  assumes "length st = 8"
  shows "digest_bytes st = concat (map (be_bytes 4) st)"
proof -
  have "be_bytes 4 v = [ucast (drop_bit 24 v), ucast (drop_bit 16 v), ucast (drop_bit 8 v), ucast v]" for v :: u32
    by (simp add: be_bytes_def byte_of_def upt_conv_Cons)
  then have "digest_bytes st = concat (map (be_bytes 4) (map ((!) st) [0..<length st]))"
    unfolding digest_bytes_def assms by (simp only: map_map comp_def)
  then show ?thesis by (simp only: map_nth)
qed

lemma pad_count: "(n + 9 + (64 - (n + 9) mod 64) mod 64) mod 64 = (0 :: nat)"
proof -
  have "((n + 9) mod 64 + (64 - (n + 9) mod 64) mod 64) mod 64 = (0 :: nat)"
    by (cases "(n + 9) mod 64 = 0") (simp_all add: mod_less_divisor less_imp_le)
  then show ?thesis by (simp only: mod_add_left_eq)
qed

lemma mod64_56: "(n + 8) mod 64 = (0 :: nat) \<Longrightarrow> n mod 64 = 56"
proof -
  assume "(n + 8) mod 64 = 0"
  then have "(n mod 64 + 8) mod 64 = 0" by (simp only: mod_add_left_eq)
  moreover have "y = 56" if "y < 64" "(y + 8) mod 64 = 0" for y :: nat
    using that by (cases "y + 8 < 64") (simp_all add: le_mod_geq)
  ultimately show ?thesis by simp
qed

lemma length_fips_pad: "64 dvd length (fips_pad m)"
  using pad_count [of "length m"] by (simp add: fips_pad_def mod_eq_0_iff_dvd ac_simps)

lemma sha_finish_correct:
  assumes "sha_rep ctx m"
  shows "sha_finish ctx = Some (fips_sha256 m)"
proof -
  let ?k = "(64 - (length m + 9) mod 64) mod 64" and ?len = "total_len ctx * 8"
  have "(length (m @ [0x80]) + ?k + 8) mod 64 = 0" using pad_count [of "length m"] by (simp add: ac_simps)
  then have "(length (m @ [0x80]) + ?k) mod 64 = 56" by (rule mod64_56)
  then obtain ctx' where pad: "pad_loop (sha_update [0x80] ctx) = Some ctx'"
    and rep: "sha_rep ctx' ((m @ [0x80]) @ replicate ?k 0)"
    using sha_rep_pad_loop [OF sha_rep_update [OF assms]] by (metis mod_less_divisor zero_less_numeral)
  let ?tail = "map (\<lambda>i. ucast (drop_bit (56 - 8 * i) ?len)) [0..<8] :: bytes"
  have "?tail = be_bytes 8 ?len"
    by (simp add: be_bytes_def byte_of_def upt_conv_Cons)
  moreover have "?len = word_of_nat (8 * length m)" using assms by (simp add: sha_rep_def)
  ultimately have "sha_rep (sha_update ?tail ctx') (fips_pad m)"
    using sha_rep_update [OF rep, of ?tail] by (simp add: fips_pad_def)
  then have "fst (update_blocks kInit (fips_pad m)) = sha_state (sha_update ?tail ctx')"
    by (simp add: sha_rep_def)
  moreover have "length kInit = 8" by (simp add: kInit_def)
  moreover have "length (fips_pad m) = 64 * (length (fips_pad m) div 64)" using length_fips_pad by simp
  ultimately have "sha_state (sha_update ?tail ctx') =
      foldl fips_compress kInit (blocks64 (length (fips_pad m) div 64) (fips_pad m))"
    and "length (sha_state (sha_update ?tail ctx')) = 8"
    using update_blocks_full length_update_blocks by (metis fst_conv)+
  then show ?thesis
    by (simp add: sha_finish_def pad digest_bytes_be fips_sha256_def Let_def)
qed

lemma sha_rep_fold: "sha_rep ctx m \<Longrightarrow> sha_rep (fold sha_update chunks ctx) (m @ concat chunks)"
proof (induction chunks arbitrary: ctx m)
  case (Cons c chunks)
  from Cons.IH [OF sha_rep_update [OF Cons.prems, of c]] show ?case by simp
qed simp

lemma length_fips_sha256: "length (fips_sha256 m) = 32"
proof -
  have "length (foldl fips_compress st bs) = 8" if "length st = 8" for st bs
    using that by (induction bs arbitrary: st) (auto simp: fips_compress_def split: prod.split)
  then have "length (foldl fips_compress kInit bs) = 8" for bs by (simp add: kInit_def)
  then show ?thesis by (simp add: fips_sha256_def length_concat comp_def sum_list_triv)
qed

section \<open>The interface of a streaming hash\<close>

text \<open>What the users of \<open>Sha256Ctx\<close> rely on: the digest of a fresh context depends only on the
  concatenation of what was absorbed, and has 32 bytes.\<close>

locale streaming_hash =
  fixes fresh :: "'c \<Rightarrow> bool"
    and absorb :: "bytes \<Rightarrow> 'c \<Rightarrow> 'c"
    and squeeze :: "'c \<Rightarrow> bytes option"
    and digest :: "bytes \<Rightarrow> bytes"
  assumes streaming: "fresh c \<Longrightarrow> squeeze (fold absorb chunks c) = Some (digest (concat chunks))"
    and digest_length: "length (digest m) = 32"
begin

lemma one_part: "fresh c \<Longrightarrow> squeeze (absorb m c) = Some (digest m)"
  using streaming [of c "[m]"] by simp

lemma two_parts: "fresh c \<Longrightarrow> squeeze (absorb b (absorb a c)) = Some (digest (a @ b))"
  using streaming [of c "[a, b]"] by simp

lemma chunking_irrelevant:
  assumes "fresh c" and "fresh d" and "concat xs = concat ys"
  shows "squeeze (fold absorb xs c) = squeeze (fold absorb ys d)"
  using streaming [OF assms(1), of xs] streaming [OF assms(2), of ys] assms(3) by simp

end

definition fresh_ctx :: "sha256_ctx \<Rightarrow> bool" where
  "fresh_ctx c \<longleftrightarrow> length (buffer c) = 64 \<and> c = new_ctx (buffer c)"

lemma fresh_new_ctx [simp]: "fresh_ctx (new_ctx garbage) \<longleftrightarrow> length garbage = 64"
  by (simp add: fresh_ctx_def new_ctx_def)

interpretation sha: streaming_hash fresh_ctx sha_update sha_finish fips_sha256
proof
  show "sha_finish (fold sha_update chunks c) = Some (fips_sha256 (concat chunks))" if "fresh_ctx c" for c chunks
    using that sha_finish_correct [OF sha_rep_fold [OF sha_rep_new [of "buffer c"]], of chunks]
    by (simp add: fresh_ctx_def)
qed (rule length_fips_sha256)

text \<open>C14. However a message is split into calls of \<open>update\<close>, and whatever the uninitialised block
  buffer holds, \<open>finish\<close> terminates with the FIPS 180-4 digest of the whole message.\<close>

theorem sha256_streaming_correct:
  assumes "length garbage = 64"
  shows "sha_finish (fold sha_update chunks (new_ctx garbage)) = Some (fips_sha256 (concat chunks))"
  using assms by (intro sha.streaming) simp

theorem sha256_streaming_correct_witness:
  "sha_finish (sha_update (str ''c'') (sha_update [] (sha_update (str ''ab'') (new_ctx (replicate 64 0))))) =
   Some (fips_sha256 (str ''abc''))"
  using sha256_streaming_correct [of "replicate 64 0" "[str ''ab'', [], str ''c'']"] by (simp add: str_def)

end
