(* ===== verification/Crypto.thy ===== *)
theory Crypto
  imports Sha256
begin

text \<open>
  The rest of \<open>src/csrc/proof/crypto.cpp\<close>: HMAC and HKDF over the SHA-256 context, the X25519 wrapper,
  the ChaCha20-Poly1305 composition, base64, public key parsing and the random source.

  The Monocypher primitives (\<open>crypto_x25519\<close>, \<open>crypto_chacha20_ietf\<close>, \<open>crypto_poly1305_*\<close>) and the
  kernel's \<open>getrandom\<close> are arguments of the definitions that call them.  A thrown \<open>runtime_error\<close> is a
  value of \<open>crypto_error\<close>; the results of fallible functions are sums with the error on the left.

  The references are RFC 2104, RFC 5869 and RFC 8439 written over the FIPS digest.
\<close>

section \<open>HMAC and HKDF\<close>

text \<open>The argument \<open>g\<close> gives the uninitialised block buffers of the contexts on the stack.\<close>

definition key_block :: "(nat \<Rightarrow> bytes) \<Rightarrow> bytes \<Rightarrow> bytes option" where
  "key_block g key =
     (if length key > 64 then map_option (memcpy (replicate 64 0) 0) (sha256 (g 0) key)
      else Some (memcpy (replicate 64 0) 0 key))"

definition hmac_sha256 :: "(nat \<Rightarrow> bytes) \<Rightarrow> bytes \<Rightarrow> bytes \<Rightarrow> bytes option" where
  "hmac_sha256 g key data =
     do {
       kb \<leftarrow> key_block g key;
       let ipad = map (\<lambda>i. kb ! i XOR 0x36) [0..<64];
       let opad = map (\<lambda>i. kb ! i XOR 0x5c) [0..<64];
       inner \<leftarrow> sha_finish (sha_update data (sha_update ipad (new_ctx (g 1))));
       sha_finish (sha_update inner (sha_update opad (new_ctx (g 2))))
     }"

definition hkdf_sha256_32 :: "(nat \<Rightarrow> bytes) \<Rightarrow> bytes \<Rightarrow> bytes \<Rightarrow> bytes option" where
  "hkdf_sha256_32 g ikm info =
     do {
       prk \<leftarrow> hmac_sha256 g (replicate 32 0) ikm;
       hmac_sha256 g prk (info @ [0x01])
     }"

text \<open>RFC 2104 and RFC 5869.\<close>

definition rfc_hmac :: "bytes \<Rightarrow> bytes \<Rightarrow> bytes" where
  "rfc_hmac key m =
     (let k = (if length key > 64 then fips_sha256 key else key);
          k0 = k @ replicate (64 - length k) 0
      in fips_sha256 (map (\<lambda>b. b XOR 0x5c) k0 @ fips_sha256 (map (\<lambda>b. b XOR 0x36) k0 @ m)))"

fun rfc_hkdf_T :: "bytes \<Rightarrow> bytes \<Rightarrow> nat \<Rightarrow> bytes" where
  "rfc_hkdf_T prk info 0 = []"
| "rfc_hkdf_T prk info (Suc n) = rfc_hmac prk (rfc_hkdf_T prk info n @ info @ [word_of_nat (Suc n)])"

definition rfc_hkdf :: "bytes option \<Rightarrow> bytes \<Rightarrow> bytes \<Rightarrow> nat \<Rightarrow> bytes" where
  "rfc_hkdf salt ikm info L =
     (let prk = rfc_hmac (case salt of None \<Rightarrow> replicate 32 0 | Some s \<Rightarrow> s) ikm
      in take L (concat (map (rfc_hkdf_T prk info) [1..<Suc ((L + 31) div 32)])))"

lemma map_xor_block: "length kb = 64 \<Longrightarrow> map (\<lambda>i. kb ! i XOR x) [0..<64] = map (\<lambda>b. b XOR x) kb"
  by (rule nth_equalityI) simp_all

lemma hmac_correct:
  assumes "\<And>n. length (g n) = 64"
  shows "hmac_sha256 g key data = Some (rfc_hmac key data)"
proof -
  let ?k = "if length key > 64 then fips_sha256 key else key"
  have "length ?k \<le> 64" using sha.digest_length by simp
  then have len: "length (?k @ replicate (64 - length ?k) 0) = 64" by simp
  have "key_block g key = Some (?k @ replicate (64 - length ?k) 0)"
    using assms sha.digest_length by (simp add: key_block_def sha256_def sha.one_part memcpy_def)
  then show ?thesis
    using assms len
    by (simp add: hmac_sha256_def rfc_hmac_def map_xor_block sha.two_parts Let_def)
qed

lemma hkdf_correct:
  assumes "\<And>n. length (g n) = 64"
  shows "hkdf_sha256_32 g ikm info = Some (rfc_hkdf None ikm info 32)"
proof -
  have "length (rfc_hmac k m) = 32" for k m
    by (simp add: rfc_hmac_def Let_def sha.digest_length)
  then show ?thesis
    by (simp add: hkdf_sha256_32_def hmac_correct [OF assms] rfc_hkdf_def)
qed

text \<open>C15. \<open>hkdf_sha256_32\<close> terminates with the RFC 5869 output for no salt and 32 bytes of key
  material, HMAC being RFC 2104 over the FIPS digest.\<close>

theorem hkdf_matches_rfc5869:
  assumes "\<And>n. length (g n) = 64"
  shows "hkdf_sha256_32 g ikm info = Some (rfc_hkdf None ikm info 32)"
  using assms by (rule hkdf_correct)

theorem hkdf_matches_rfc5869_witness:
  "hkdf_sha256_32 (\<lambda>_. replicate 64 0) (str ''secret'') (str ''info'') =
   Some (rfc_hkdf None (str ''secret'') (str ''info'') 32)"
  by (rule hkdf_matches_rfc5869) simp

section \<open>X25519\<close>

definition x25519_public_key :: "(bytes \<Rightarrow> bytes) \<Rightarrow> bytes \<Rightarrow> bytes" where
  "x25519_public_key crypto_x25519_public_key private_key = crypto_x25519_public_key private_key"

definition x25519_shared_secret :: "(bytes \<Rightarrow> bytes \<Rightarrow> bytes) \<Rightarrow> bytes \<Rightarrow> bytes \<Rightarrow> bytes \<times> bool" where
  "x25519_shared_secret crypto_x25519 private_key peer_public =
     (let shared = crypto_x25519 private_key peer_public;
          acc = fold (\<lambda>i acc. acc OR shared ! i) [0..<32] 0
      in (shared, acc \<noteq> 0))"

lemma fold_or_zero: "fold (\<lambda>i acc. acc OR f i) xs (a :: 'a::len word) = 0 \<longleftrightarrow> a = 0 \<and> (\<forall>i \<in> set xs. f i = 0)"
  by (induction xs arbitrary: a) (auto simp: or_eq_0_iff)

lemma shared_secret_iff:
  assumes "length (crypto_x25519 sk pk) = 32"
  shows "x25519_shared_secret crypto_x25519 sk pk =
    (crypto_x25519 sk pk, crypto_x25519 sk pk \<noteq> replicate 32 0)"
  using assms by (auto simp: x25519_shared_secret_def Let_def fold_or_zero list_eq_iff_nth_eq)

section \<open>ChaCha20-Poly1305\<close>

text \<open>The parameters stand for Monocypher: \<open>chacha plain size key nonce ctr\<close> is
  \<open>crypto_chacha20_ietf\<close> (a null plaintext asks for the bare key stream), and \<open>pinit\<close>, \<open>pupd\<close>,
  \<open>pfin\<close> are the incremental Poly1305.  \<open>mac_chunks\<close> lists the buffers passed to
  \<open>crypto_poly1305_update\<close>, in order.\<close>

definition kZeros :: bytes where
  "kZeros = replicate 16 0"

definition mac_chunks :: "bytes \<Rightarrow> bytes \<Rightarrow> bytes list" where
  "mac_chunks aad ct =
     (let aad_len = word_of_nat (length aad) :: u64;
          ct_len = word_of_nat (length ct) :: u64
      in [aad, take ((16 - length aad mod 16) mod 16) kZeros,
          ct, take ((16 - length ct mod 16) mod 16) kZeros,
          map (\<lambda>i. ucast (drop_bit (8 * i) aad_len)) [0..<8] @ map (\<lambda>i. ucast (drop_bit (8 * i) ct_len)) [0..<8]])"

definition chacha20poly1305_ietf_encrypt ::
  "(bytes option \<Rightarrow> nat \<Rightarrow> bytes \<Rightarrow> bytes \<Rightarrow> u32 \<Rightarrow> bytes) \<Rightarrow> (bytes \<Rightarrow> 'p) \<Rightarrow> ('p \<Rightarrow> bytes \<Rightarrow> 'p) \<Rightarrow> ('p \<Rightarrow> bytes) \<Rightarrow>
   bytes \<Rightarrow> bytes \<Rightarrow> bytes \<Rightarrow> bytes \<Rightarrow> bytes"
where
  "chacha20poly1305_ietf_encrypt chacha pinit pupd pfin key nonce aad plaintext =
     (let block0 = chacha None 64 key nonce 0;
          out = replicate (length plaintext + 16) 0;
          out = memcpy out 0 (chacha (Some plaintext) (length plaintext) key nonce 1);
          ct = take (length plaintext) out;
          poly = fold (\<lambda>d p. pupd p d) (mac_chunks aad ct) (pinit (take 32 block0))
      in memcpy out (length plaintext) (pfin poly))"

text \<open>The documented behaviour of the primitives: ChaCha20 combines the input with a key stream that
  depends on key, nonce and counter only, and the incremental Poly1305 authenticates the
  concatenation of its inputs.\<close>

definition aead_primitives ::
  "(bytes option \<Rightarrow> nat \<Rightarrow> bytes \<Rightarrow> bytes \<Rightarrow> u32 \<Rightarrow> bytes) \<Rightarrow> (bytes \<Rightarrow> 'p) \<Rightarrow> ('p \<Rightarrow> bytes \<Rightarrow> 'p) \<Rightarrow> ('p \<Rightarrow> bytes) \<Rightarrow>
   (bytes \<Rightarrow> bytes \<Rightarrow> u32 \<Rightarrow> nat \<Rightarrow> bytes) \<Rightarrow> (bytes \<Rightarrow> bytes \<Rightarrow> bytes) \<Rightarrow> bool"
where
  "aead_primitives chacha pinit pupd pfin stream mac \<longleftrightarrow>
     (\<forall>k nonce c n. length (stream k nonce c n) = n \<and> chacha None n k nonce c = stream k nonce c n) \<and>
     (\<forall>k nonce c p. chacha (Some p) (length p) k nonce c = map2 (XOR) p (stream k nonce c (length p))) \<and>
     (\<forall>k ds. pfin (fold (\<lambda>d p. pupd p d) ds (pinit k)) = mac k (concat ds)) \<and>
     (\<forall>k d. length (mac k d) = 16)"

text \<open>Opening a box as RFC 8439 describes it.\<close>

definition pad16 :: "bytes \<Rightarrow> bytes" where
  "pad16 x = (if 16 dvd length x then [] else replicate (16 - length x mod 16) 0)"

definition rfc8439_open ::
  "(bytes \<Rightarrow> bytes \<Rightarrow> u32 \<Rightarrow> nat \<Rightarrow> bytes) \<Rightarrow> (bytes \<Rightarrow> bytes \<Rightarrow> bytes) \<Rightarrow> bytes \<Rightarrow> bytes \<Rightarrow> bytes \<Rightarrow> bytes \<Rightarrow> bytes option"
where
  "rfc8439_open stream mac key nonce aad box =
     (if length box < 16 then None
      else
        let ct = take (length box - 16) box;
            otk = stream key nonce 0 32;
            mac_data = aad @ pad16 aad @ ct @ pad16 ct @
              le_bytes 8 (word_of_nat (length aad) :: u64) @ le_bytes 8 (word_of_nat (length ct) :: u64)
        in if drop (length ct) box = mac otk mac_data
           then Some (map2 (XOR) ct (stream key nonce 1 (length ct))) else None)"

lemma concat_mac_chunks:
  "concat (mac_chunks aad ct) = aad @ pad16 aad @ ct @ pad16 ct @
     le_bytes 8 (word_of_nat (length aad) :: u64) @ le_bytes 8 (word_of_nat (length ct) :: u64)"
proof -
  have "take ((16 - length x mod 16) mod 16) kZeros = pad16 x" for x :: bytes
    by (cases "length x mod 16 = 0") (simp_all add: kZeros_def pad16_def min_def dvd_eq_mod_eq_0)
  then show ?thesis by (simp add: mac_chunks_def Let_def le_bytes_def byte_of_def)
qed

lemma xor_stream_twice: "length s = length p \<Longrightarrow> map2 (XOR) (map2 (XOR) p s) s = (p :: bytes)"
  by (rule nth_equalityI) (simp_all add: xor.assoc)

lemma aead_open_correct:
  assumes "aead_primitives chacha pinit pupd pfin stream mac"
    and "take 32 (stream key nonce 0 64) = stream key nonce 0 32"
  shows "rfc8439_open stream mac key nonce aad
      (chacha20poly1305_ietf_encrypt chacha pinit pupd pfin key nonce aad p) = Some p \<and>
    length (chacha20poly1305_ietf_encrypt chacha pinit pupd pfin key nonce aad p) = length p + 16"
proof -
  let ?ct = "map2 (XOR) p (stream key nonce 1 (length p))"
  have prim: "length (stream key nonce c n) = n" "chacha None n key nonce c = stream key nonce c n"
    "chacha (Some p) (length p) key nonce c = map2 (XOR) p (stream key nonce c (length p))"
    "pfin (fold (\<lambda>d p. pupd p d) ds (pinit k)) = mac k (concat ds)" "length (mac k d) = 16" for c n k ds d
    using assms(1) by (simp_all add: aead_primitives_def)
  have "chacha20poly1305_ietf_encrypt chacha pinit pupd pfin key nonce aad p =
      ?ct @ mac (stream key nonce 0 32) (concat (mac_chunks aad ?ct))"
    by (simp add: chacha20poly1305_ietf_encrypt_def Let_def prim memcpy_def assms(2))
  then show ?thesis
    by (simp add: rfc8439_open_def Let_def concat_mac_chunks prim xor_stream_twice)
qed

text \<open>C16. A box made by \<open>chacha20poly1305_ietf_encrypt\<close> opens under RFC 8439 with the same key, nonce
  and associated data to the plaintext, and is 16 bytes longer than it.  The key stream at counter 0
  has the property that asking for fewer bytes gives a prefix.\<close>

theorem aead_opens:
  assumes "aead_primitives chacha pinit pupd pfin stream mac"
    and "take 32 (stream key nonce 0 64) = stream key nonce 0 32"
  shows "rfc8439_open stream mac key nonce aad
      (chacha20poly1305_ietf_encrypt chacha pinit pupd pfin key nonce aad p) = Some p \<and>
    length (chacha20poly1305_ietf_encrypt chacha pinit pupd pfin key nonce aad p) = length p + 16"
  using assms by (rule aead_open_correct)

theorem aead_opens_witness:
  "rfc8439_open (\<lambda>k n c len. replicate len 0xaa) (\<lambda>k d. replicate 16 (word_of_nat (length d))) [1] [2] (str ''a'')
     (chacha20poly1305_ietf_encrypt
        (\<lambda>p len k n c. case p of None \<Rightarrow> replicate len 0xaa | Some p \<Rightarrow> map2 (XOR) p (replicate len 0xaa))
        (\<lambda>k. []) (\<lambda>p d. p @ d) (\<lambda>p. replicate 16 (word_of_nat (length p))) [1] [2] (str ''a'') (str ''payload'')) =
   Some (str ''payload'')"
proof -
  have "fold (\<lambda>d p. p @ d) ds acc = acc @ concat ds" for ds and acc :: bytes
    by (induction ds arbitrary: acc) simp_all
  then have "aead_primitives
      (\<lambda>p len k n c. case p of None \<Rightarrow> replicate len 0xaa | Some p \<Rightarrow> map2 (XOR) p (replicate len 0xaa))
      (\<lambda>k. []) (\<lambda>p d. p @ d) (\<lambda>p. replicate 16 (word_of_nat (length p)))
      (\<lambda>k n c len. replicate len 0xaa) (\<lambda>k d. replicate 16 (word_of_nat (length d)))"
    by (simp add: aead_primitives_def)
  from aead_opens [OF this, of "[1]" "[2]" "str ''a''" "str ''payload''"] show ?thesis by simp
qed

lemma le_bytes8_inj:
  assumes "fits64 m" and "fits64 n" and "le_bytes 8 (word_of_nat m :: u64) = le_bytes 8 (word_of_nat n :: u64)"
  shows "m = n"
  using arg_cong [OF assms(3), of le_nat] assms(1, 2)
  by (simp add: le_nat_le_bytes unat_u64_of_nat) (simp add: fits64_def)

text \<open>C30. The Poly1305 input determines the associated data and the ciphertext: no two different
  pairs are authenticated by the same byte string.\<close>

theorem mac_input_injective:
  assumes "fits64 (length aad)" "fits64 (length ct)" "fits64 (length aad')" "fits64 (length ct')"
    and "concat (mac_chunks aad ct) = concat (mac_chunks aad' ct')"
  shows "aad = aad' \<and> ct = ct'"
proof -
  let ?le = "\<lambda>x :: bytes. le_bytes 8 (word_of_nat (length x) :: u64)"
  have eq: "(aad @ pad16 aad @ ct @ pad16 ct) @ (?le aad @ ?le ct) = (aad' @ pad16 aad' @ ct' @ pad16 ct') @ (?le aad' @ ?le ct')"
    using assms(5) by (simp add: concat_mac_chunks)
  have "length (?le aad @ ?le ct) = length (?le aad' @ ?le ct')" by simp
  note parts = iffD1 [OF append_eq_append_conv [OF disjI2 [OF this]] eq]
  then have front: "aad @ pad16 aad @ ct @ pad16 ct = aad' @ pad16 aad' @ ct' @ pad16 ct'"
    and lens: "?le aad = ?le aad'" "?le ct = ?le ct'"
    by simp_all
  have "length aad = length aad'" "length ct = length ct'"
    using le_bytes8_inj assms(1-4) lens by blast+
  then show ?thesis using front by (simp add: pad16_def)
qed

theorem mac_input_injective_witness:
  "concat (mac_chunks [1] [2, 0]) \<noteq> concat (mac_chunks [1, 0] [2])"
  using mac_input_injective [of "[1]" "[2, 0]" "[1, 0]" "[2]"] by (auto simp: fits64_def)

section \<open>Base64\<close>

datatype crypto_error = Invalid_base64 | Key_not_32_bytes | Pem_malformed | Not_x25519 | No_random_source

definition kAlphabet :: bytes where
  "kAlphabet = str ''ABCDEFGHIJKLMNOPQRSTUVWXYZabcdefghijklmnopqrstuvwxyz0123456789-_''"

fun b64url_encode_nopad :: "bytes \<Rightarrow> bytes" where
  "b64url_encode_nopad (a # b # c # data) =
     (let v = push_bit 16 (ucast a) OR push_bit 8 (ucast b) OR ucast c :: u32
      in [kAlphabet ! unat (drop_bit 18 v AND 63), kAlphabet ! unat (drop_bit 12 v AND 63),
          kAlphabet ! unat (drop_bit 6 v AND 63), kAlphabet ! unat (v AND 63)] @ b64url_encode_nopad data)"
| "b64url_encode_nopad [a, b] =
     (let v = push_bit 16 (ucast a) OR push_bit 8 (ucast b) :: u32
      in [kAlphabet ! unat (drop_bit 18 v AND 63), kAlphabet ! unat (drop_bit 12 v AND 63),
          kAlphabet ! unat (drop_bit 6 v AND 63)])"
| "b64url_encode_nopad [a] =
     (let v = push_bit 16 (ucast a) :: u32
      in [kAlphabet ! unat (drop_bit 18 v AND 63), kAlphabet ! unat (drop_bit 12 v AND 63)])"
| "b64url_encode_nopad [] = []"

definition b64_value :: "u8 \<Rightarrow> int" where
  "b64_value c =
     (if 65 \<le> c \<and> c \<le> 90 then int (unat c) - 65
      else if 97 \<le> c \<and> c \<le> 122 then int (unat c) - 97 + 26
      else if 48 \<le> c \<and> c \<le> 57 then int (unat c) - 48 + 52
      else if c = 43 \<or> c = 45 then 62
      else if c = 47 \<or> c = 95 then 63
      else - 1)"

definition b64_skipped :: "u8 \<Rightarrow> bool" where
  "b64_skipped c \<longleftrightarrow> c = 61 \<or> c = 10 \<or> c = 13 \<or> c = 32 \<or> c = 9"

fun b64_decode_loop :: "bytes \<Rightarrow> u32 \<Rightarrow> nat \<Rightarrow> bytes \<Rightarrow> crypto_error + bytes" where
  "b64_decode_loop [] acc bits out = Inr out"
| "b64_decode_loop (c # cs) acc bits out =
     (if b64_skipped c then b64_decode_loop cs acc bits out
      else
        let v = b64_value c in
        if v < 0 then Inl Invalid_base64
        else
          let acc = push_bit 6 acc OR word_of_int v;
              bits = bits + 6
          in if bits \<ge> 8 then b64_decode_loop cs acc (bits - 8) (out @ [ucast (drop_bit (bits - 8) acc)])
             else b64_decode_loop cs acc bits out)"

definition b64_decode_flexible :: "bytes \<Rightarrow> crypto_error + bytes" where
  "b64_decode_flexible value = b64_decode_loop value 0 0 []"

lemma alphabet_value:
  assumes "i < 64"
  shows "b64_value (kAlphabet ! i) = int i" and "\<not> b64_skipped (kAlphabet ! i)"
proof -
  have "\<forall>i \<in> set [0..<64]. b64_value (kAlphabet ! i) = int i \<and> \<not> b64_skipped (kAlphabet ! i)"
    by (simp add: kAlphabet_def str_def b64_value_def b64_skipped_def upt_conv_Cons)
  then show "b64_value (kAlphabet ! i) = int i" and "\<not> b64_skipped (kAlphabet ! i)"
    using assms by auto
qed

lemma mask63: "(63 :: u32) = mask 6"
  by (simp add: mask_eq_exp_minus_1)

lemma sextet_bound: "unat (v AND 63 :: u32) < 64"
  using take_bit_nat_less_exp [of 6 "unat v"]
  by (simp add: mask63 take_bit_eq_mask [symmetric] unsigned_take_bit_eq)

text \<open>One character of the alphabet feeds its six bits to the decoder.\<close>

lemma decode_sextets:
  "b64_decode_loop (kAlphabet ! unat (v AND 63) # cs) acc 0 out =
     b64_decode_loop cs (push_bit 6 acc OR (v AND 63)) 6 out"
  "b64_decode_loop (kAlphabet ! unat (v AND 63) # cs) acc 6 out =
     b64_decode_loop cs (push_bit 6 acc OR (v AND 63)) 4 (out @ [ucast (drop_bit 4 (push_bit 6 acc OR (v AND 63)))])"
  "b64_decode_loop (kAlphabet ! unat (v AND 63) # cs) acc 4 out =
     b64_decode_loop cs (push_bit 6 acc OR (v AND 63)) 2 (out @ [ucast (drop_bit 2 (push_bit 6 acc OR (v AND 63)))])"
  "b64_decode_loop (kAlphabet ! unat (v AND 63) # cs) acc 2 out =
     b64_decode_loop cs (push_bit 6 acc OR (v AND 63)) 0 (out @ [ucast (push_bit 6 acc OR (v AND 63))])"
  using alphabet_value [OF sextet_bound [of v]] by (simp_all add: Let_def)

lemma less8: "n < 8 \<longleftrightarrow> n = 0 \<or> n = 1 \<or> n = 2 \<or> n = 3 \<or> n = 4 \<or> n = 5 \<or> n = 6 \<or> n = (7 :: nat)"
  by auto

lemmas sextet_bits = bit_simps bit_mask_iff mask63

lemma sextets_byte0:
  fixes v acc :: u32
  shows "ucast (drop_bit 4 (push_bit 6 (push_bit 6 acc OR (drop_bit 18 v AND 63)) OR (drop_bit 12 v AND 63))) =
    (ucast (drop_bit 16 v) :: u8)"
  by (rule bit_word_eqI) (auto simp: sextet_bits less8)

lemma sextets_byte1:
  fixes v acc :: u32
  shows "ucast (drop_bit 2 (push_bit 6 (push_bit 6 acc OR (drop_bit 12 v AND 63)) OR (drop_bit 6 v AND 63))) =
    (ucast (drop_bit 8 v) :: u8)"
  by (rule bit_word_eqI) (auto simp: sextet_bits less8)

lemma sextets_byte2:
  fixes v acc :: u32
  shows "ucast (push_bit 6 (push_bit 6 acc OR (drop_bit 6 v AND 63)) OR (v AND 63)) = (ucast v :: u8)"
  by (rule bit_word_eqI) (auto simp: sextet_bits less8)

lemma group_bytes:
  fixes a b c :: u8
  shows "ucast (drop_bit 16 (push_bit 16 (ucast a) OR push_bit 8 (ucast b) OR ucast c :: u32)) = a"
    and "ucast (drop_bit 8 (push_bit 16 (ucast a) OR push_bit 8 (ucast b) OR ucast c :: u32)) = b"
    and "ucast (push_bit 16 (ucast a) OR push_bit 8 (ucast b) OR ucast c :: u32) = c"
    and "ucast (drop_bit 16 (push_bit 16 (ucast a) OR push_bit 8 (ucast b) :: u32)) = a"
    and "ucast (drop_bit 8 (push_bit 16 (ucast a) OR push_bit 8 (ucast b) :: u32)) = b"
    and "ucast (drop_bit 16 (push_bit 16 (ucast a) :: u32)) = a"
  by (rule bit_word_eqI; auto simp: sextet_bits less8 dest: bit_imp_le_length)+

lemma decode_group:
  fixes v :: u32
  defines "s3 \<equiv> kAlphabet ! unat (drop_bit 18 v AND 63)" and "s2 \<equiv> kAlphabet ! unat (drop_bit 12 v AND 63)"
    and "s1 \<equiv> kAlphabet ! unat (drop_bit 6 v AND 63)" and "s0 \<equiv> kAlphabet ! unat (v AND 63)"
  shows "b64_decode_loop [s3, s2] acc 0 out = Inr (out @ [ucast (drop_bit 16 v)])"
    and "b64_decode_loop [s3, s2, s1] acc 0 out = Inr (out @ [ucast (drop_bit 16 v), ucast (drop_bit 8 v)])"
    and "\<exists>acc'. b64_decode_loop (s3 # s2 # s1 # s0 # cs) acc 0 out =
      b64_decode_loop cs acc' 0 (out @ [ucast (drop_bit 16 v), ucast (drop_bit 8 v), ucast v])"
  unfolding assms decode_sextets sextets_byte0 sextets_byte1 sextets_byte2 append_assoc append.simps
    b64_decode_loop.simps(1)
  by blast+

lemma decode_encode_loop: "b64_decode_loop (b64url_encode_nopad d) acc 0 out = Inr (out @ d)"
proof (induction d arbitrary: acc out rule: b64url_encode_nopad.induct)
  case (1 a b c data)
  let ?v = "push_bit 16 (ucast a) OR push_bit 8 (ucast b) OR ucast c :: u32"
  obtain acc' where "b64_decode_loop (b64url_encode_nopad (a # b # c # data)) acc 0 out =
      b64_decode_loop (b64url_encode_nopad data) acc' 0 (out @ [ucast (drop_bit 16 ?v), ucast (drop_bit 8 ?v), ucast ?v])"
    using decode_group(3) [of ?v "b64url_encode_nopad data" acc out] by (auto simp only: b64url_encode_nopad.simps Let_def append.simps)
  then show ?case using 1 [OF refl, of acc' "out @ [a, b, c]"] by (simp only: group_bytes append_assoc append.simps)
next
  case (2 a b)
  show ?case unfolding b64url_encode_nopad.simps Let_def decode_group group_bytes by simp
next
  case (3 a)
  show ?case unfolding b64url_encode_nopad.simps Let_def decode_group group_bytes by simp
qed simp

lemma b64_round_trip: "b64_decode_flexible (b64url_encode_nopad d) = Inr d"
  by (simp add: b64_decode_flexible_def decode_encode_loop)

text \<open>The decoder reads the standard alphabet as it reads the URL-safe one, and skips padding and white
  space wherever it stands.\<close>

definition to_url :: "u8 \<Rightarrow> u8" where
  "to_url c = (if c = 43 then 45 else if c = 47 then 95 else c)"

lemma to_url_value [simp]: "b64_value (to_url c) = b64_value c" "b64_skipped (to_url c) = b64_skipped c"
  by (auto simp: to_url_def b64_value_def b64_skipped_def)

lemma decode_normalise:
  "b64_decode_loop s acc bits out = b64_decode_loop (map to_url (filter (\<lambda>c. \<not> b64_skipped c) s)) acc bits out"
  by (induction s arbitrary: acc bits out) (simp_all add: Let_def)

text \<open>The text left when padding (61), spaces (32), tabs (9) and line breaks (10, 13) are dropped from it
  and the two characters of the standard alphabet are written as in the URL-safe one.\<close>

definition b64_text :: "bytes \<Rightarrow> bytes" where
  "b64_text s = map to_url (filter (\<lambda>c. c \<notin> {61, 32, 9, 10, 13}) s)"

lemma skipped_chars: "b64_skipped c \<longleftrightarrow> c \<in> {61, 32, 9, 10, 13}"
  by (auto simp: b64_skipped_def)

lemma decode_text: "b64_text s = b64url_encode_nopad d \<Longrightarrow> b64_decode_flexible s = Inr d"
  using decode_encode_loop [of d 0 "[]"] decode_normalise [of s 0 0 "[]"]
  by (simp add: b64_decode_flexible_def b64_text_def skipped_chars)

text \<open>C29. The decoder inverts the encoder for every layout of its output: with either alphabet, and with
  the characters \<open>=\<close>, space, tab, line feed and carriage return inserted anywhere.\<close>

theorem b64_decode_inverts_encode:
  assumes "map to_url (filter (\<lambda>c. c \<notin> {61, 32, 9, 10, 13}) s) = b64url_encode_nopad d"
  shows "b64_decode_flexible s = Inr d"
  by (rule decode_text) (use assms in \<open>simp add: b64_text_def\<close>)

theorem b64_decode_inverts_encode_witness:
  "b64_decode_flexible ([43, 10, 47, 32, 9, 13] @ str ''8='') = Inr [0xfb, 0xff]"
  by (rule b64_decode_inverts_encode) (simp add: str_def to_url_def kAlphabet_def Let_def)

section \<open>Public keys\<close>

fun find_first_not_of :: "(u8 \<Rightarrow> bool) \<Rightarrow> bytes \<Rightarrow> nat option" where
  "find_first_not_of P [] = None"
| "find_first_not_of P (c # cs) = (if P c then map_option Suc (find_first_not_of P cs) else Some 0)"

definition find_last_not_of :: "(u8 \<Rightarrow> bool) \<Rightarrow> bytes \<Rightarrow> nat option" where
  "find_last_not_of P s = map_option (\<lambda>i. length s - 1 - i) (find_first_not_of P (rev s))"

fun find_sub :: "bytes \<Rightarrow> bytes \<Rightarrow> nat option" where
  "find_sub pat [] = (if pat = [] then Some 0 else None)"
| "find_sub pat (c # cs) = (if take (length pat) (c # cs) = pat then Some 0 else map_option Suc (find_sub pat cs))"

definition substr :: "bytes \<Rightarrow> nat \<Rightarrow> nat \<Rightarrow> bytes" where
  "substr s pos n = take n (drop pos s)"

definition is_space :: "u8 \<Rightarrow> bool" where
  "is_space c \<longleftrightarrow> c = 32 \<or> c = 9 \<or> c = 13 \<or> c = 10"

definition kX25519SpkiPrefix :: bytes where
  "kX25519SpkiPrefix = [0x30, 0x2a, 0x30, 0x05, 0x06, 0x03, 0x2b, 0x65, 0x6e, 0x03, 0x21, 0x00]"

text \<open>\<open>size_t\<close> subtraction wraps, so the length of the PEM body is computed modulo \<open>2^64\<close>.\<close>

definition load_pem :: "bytes \<Rightarrow> crypto_error + bytes" where
  "load_pem trimmed =
     (case (find_first_not_of (\<lambda>c. c \<noteq> 10) trimmed, find_sub (str ''-----END'') trimmed) of
        (Some header_end, Some footer) \<Rightarrow>
          (let count = unat (word_of_nat footer - word_of_nat header_end - 1 :: u64);
               body = substr trimmed (header_end + 1) count
           in case b64_decode_flexible body of
                Inl e \<Rightarrow> Inl e
              | Inr der \<Rightarrow>
                  if length der \<noteq> 44 \<or> take 12 der \<noteq> kX25519SpkiPrefix then Inl Not_x25519
                  else Inr (drop 12 der))
      | _ \<Rightarrow> Inl Pem_malformed)"

definition load_x25519_public_key :: "bytes \<Rightarrow> crypto_error + bytes" where
  "load_x25519_public_key value =
     (case (find_first_not_of is_space value, find_last_not_of is_space value) of
        (Some begin_, Some end_) \<Rightarrow>
          (let trimmed = substr value begin_ (end_ - begin_ + 1) in
           if take 10 trimmed = str ''-----BEGIN'' then load_pem trimmed
           else
             case b64_decode_flexible trimmed of
               Inl e \<Rightarrow> Inl e
             | Inr raw \<Rightarrow> if length raw \<noteq> 32 then Inl Key_not_32_bytes else Inr raw)
      | _ \<Rightarrow> Inl Key_not_32_bytes)"

lemma load_pem_length: "load_pem t = Inr k \<Longrightarrow> length k = 32"
  by (auto simp: load_pem_def Let_def split: option.splits sum.splits if_splits)

lemma loaded_key_length: "load_x25519_public_key value = Inr k \<Longrightarrow> length k = 32"
  by (auto simp: load_x25519_public_key_def Let_def load_pem_length split: option.splits sum.splits if_splits)

lemma find_first_append: "(\<forall>c \<in> set xs. P c) \<Longrightarrow> \<not> P y \<Longrightarrow> find_first_not_of P (xs @ y # ys) = Some (length xs)"
  by (induction xs) auto

lemma trim_spaces:
  assumes "\<forall>c \<in> set pre. is_space c" and "\<forall>c \<in> set post. is_space c"
    and "body \<noteq> []" and "\<not> is_space (hd body)" and "\<not> is_space (last body)"
  shows "find_first_not_of is_space (pre @ body @ post) = Some (length pre)"
    and "find_last_not_of is_space (pre @ body @ post) = Some (length pre + length body - 1)"
    and "substr (pre @ body @ post) (length pre) (length pre + length body - 1 - length pre + 1) = body"
proof -
  show "find_first_not_of is_space (pre @ body @ post) = Some (length pre)"
    using assms by (cases body) (simp_all add: find_first_append)
  have eq: "rev (pre @ body @ post) = rev post @ last body # (rev (butlast body) @ rev pre)"
    using assms(3) by (induction body rule: rev_induct) simp_all
  have "find_first_not_of is_space (rev (pre @ body @ post)) = Some (length (rev post))"
    unfolding eq by (rule find_first_append) (use assms(2, 5) in simp_all)
  moreover have "length body > 0" using assms(3) by simp
  ultimately show "find_last_not_of is_space (pre @ body @ post) = Some (length pre + length body - 1)"
    by (simp add: find_last_not_of_def)
  show "substr (pre @ body @ post) (length pre) (length pre + length body - 1 - length pre + 1) = body"
    using \<open>length body > 0\<close> by (simp add: substr_def)
qed

lemma alphabet_not_space: "i < 64 \<Longrightarrow> \<not> is_space (kAlphabet ! i)"
  using alphabet_value(2) [of i] by (auto simp: is_space_def b64_skipped_def)

lemma encoded_chars: "c \<in> set (b64url_encode_nopad d) \<Longrightarrow> \<exists>i < 64. c = kAlphabet ! i"
  by (induction d rule: b64url_encode_nopad.induct) (auto simp: Let_def intro: sextet_bound)

lemma load_raw_correct:
  assumes "length k = 32" and "\<forall>c \<in> set pre. is_space c" and "\<forall>c \<in> set post. is_space c"
    and "take 10 (b64url_encode_nopad k) \<noteq> str ''-----BEGIN''"
  shows "load_x25519_public_key (pre @ b64url_encode_nopad k @ post) = Inr k"
proof -
  let ?b = "b64url_encode_nopad k"
  have "?b \<noteq> []" using assms(1) by (cases k rule: b64url_encode_nopad.cases) (auto simp: Let_def)
  moreover from this have "\<not> is_space (hd ?b)" "\<not> is_space (last ?b)"
    using encoded_chars alphabet_not_space by (metis list.set_sel(1), metis last_in_set)
  ultimately show ?thesis
    using trim_spaces [OF assms(2, 3)] assms(1, 4) b64_round_trip [of k]
    by (simp add: load_x25519_public_key_def Let_def)
qed

text \<open>C40. A 32-byte key written in URL-safe base64, with any white space around it, is read back,
  unless its encoding happens to begin with the marker of a PEM file.\<close>

theorem load_raw_key:
  assumes "length k = 32" and "\<forall>c \<in> set pre. is_space c" and "\<forall>c \<in> set post. is_space c"
    and "take 10 (b64url_encode_nopad k) \<noteq> str ''-----BEGIN''"
  shows "load_x25519_public_key (pre @ b64url_encode_nopad k @ post) = Inr k"
  using assms by (rule load_raw_correct)

theorem load_raw_key_witness:
  "load_x25519_public_key ([32] @ b64url_encode_nopad (replicate 32 0) @ [10]) = Inr (replicate 32 0)"
proof (rule load_raw_key)
  have "replicate 32 0 = (0 :: u8) # 0 # 0 # 0 # 0 # 0 # 0 # 0 # 0 # replicate 23 0"
    by (simp add: numeral_eq_Suc)
  then show "take 10 (b64url_encode_nopad (replicate 32 0)) \<noteq> str ''-----BEGIN''"
    by (simp add: str_def Let_def kAlphabet_def)
qed (simp_all add: is_space_def)

lemma find_sub_append:
  assumes "p \<notin> set xs"
  shows "find_sub (p # ps) (xs @ p # ps @ ys) = Some (length xs)"
  using assms by (induction xs) auto

lemma load_pem_correct:
  assumes "45 \<notin> set body" and "b64_decode_flexible body = Inr (kX25519SpkiPrefix @ k)"
    and "length k = 32" and "fits64 (length body + 100)"
  shows "load_x25519_public_key
    (str ''-----BEGIN PUBLIC KEY-----'' @ [10] @ body @ str ''-----END PUBLIC KEY-----'' @ [10]) = Inr k"
proof -
  let ?t = "str ''-----BEGIN PUBLIC KEY-----'' @ [10] @ body @ str ''-----END PUBLIC KEY-----''"
  have newline: "find_first_not_of (\<lambda>c. c \<noteq> 10) ?t = Some 26"
    by (simp add: str_def)
  have "find_sub (str ''-----END'') (body @ str ''-----END PUBLIC KEY-----'') = Some (length body)"
    using find_sub_append [OF assms(1), of "str ''----END''" "str '' PUBLIC KEY-----''"] by (simp add: str_def)
  then have footer: "find_sub (str ''-----END'') ?t = Some (length body + 27)"
    by (simp add: str_def)
  have "unat (word_of_nat (length body + 27) - word_of_nat 26 - 1 :: u64) = length body"
    using unat_u64_of_nat [of "length body"] assms(4) by (simp add: fits64_def)
  moreover have "substr ?t (26 + 1) (length body) = body" by (simp add: substr_def)
  moreover have "length (kX25519SpkiPrefix @ k) = 44" "take 12 (kX25519SpkiPrefix @ k) = kX25519SpkiPrefix"
    "drop 12 (kX25519SpkiPrefix @ k) = k"
    using assms(3) by (simp_all add: kX25519SpkiPrefix_def)
  ultimately have pem: "load_pem ?t = Inr k"
    unfolding load_pem_def newline footer using assms(2) by (simp only: option.case prod.case Let_def sum.case simp_thms if_False)
  have "?t \<noteq> []" "hd ?t = 45" "last ?t = 45" "take 10 ?t = str ''-----BEGIN''"
    by (simp_all add: str_def)
  then have "load_x25519_public_key ([] @ ?t @ [10]) = Inr k"
    using trim_spaces [of "[]" "[10]" ?t] pem unfolding load_x25519_public_key_def
    by (simp only: option.case prod.case Let_def if_True) (simp add: is_space_def)
  then show ?thesis by simp
qed

text \<open>C39. A PEM file whose body is the base64 text of the DER SubjectPublicKeyInfo of an X25519 key (the
  twelve header bytes of RFC 8410, then the 32 key bytes) gives the key, in either alphabet as long as the
  body has no \<open>-\<close>, and with line breaks, spaces, tabs and padding anywhere in the body.\<close>

theorem load_pem_key:
  assumes "map to_url (filter (\<lambda>c. c \<notin> {61, 32, 9, 10, 13}) body) =
      b64url_encode_nopad ([0x30, 0x2a, 0x30, 0x05, 0x06, 0x03, 0x2b, 0x65, 0x6e, 0x03, 0x21, 0x00] @ k)"
    and "45 \<notin> set body" and "length k = 32" and "length body < 2 ^ 63"
  shows "load_x25519_public_key
    (str ''-----BEGIN PUBLIC KEY-----'' @ [10] @ body @ str ''-----END PUBLIC KEY-----'' @ [10]) = Inr k"
proof (rule load_pem_correct)
  show "b64_decode_flexible body = Inr (kX25519SpkiPrefix @ k)"
    by (rule decode_text) (use assms(1) in \<open>simp only: b64_text_def kX25519SpkiPrefix_def\<close>)
qed (use assms in \<open>simp_all add: fits64_def\<close>)

theorem load_pem_key_witness:
  "load_x25519_public_key (str ''-----BEGIN PUBLIC KEY-----'' @ [10] @
      (str ''MCowBQYDK2VuAyEA'' @ [13, 10] @ str ''AAAAAAAAAAAAAAAAAAAAAAAAAAAAAAAAAAAAAAAAAAA='' @ [10]) @
      str ''-----END PUBLIC KEY-----'' @ [10]) =
   Inr [0, 0, 0, 0, 0, 0, 0, 0, 0, 0, 0, 0, 0, 0, 0, 0, 0, 0, 0, 0, 0, 0, 0, 0, 0, 0, 0, 0, 0, 0, 0, 0]"
  by (rule load_pem_key) (simp_all add: str_def to_url_def kAlphabet_def Let_def)

section \<open>Randomness\<close>

text \<open>The \<open>k\<close>-th call of \<open>getrandom\<close> that asks for \<open>n\<close> bytes is \<open>gr k n\<close>: the bytes it stored, or a
  failure with or without \<open>EINTR\<close>.  \<open>urandom n\<close> is what reading \<open>n\<close> bytes from \<open>/dev/urandom\<close> gives,
  \<open>None\<close> if the file cannot be opened.  The loop has no bound of its own, so it may run forever; the
  result carries the bytes that were filled.\<close>

datatype getrandom_result = Stored bytes | Interrupted | Failed

partial_function (option) getrandom_loop ::
  "(nat \<Rightarrow> nat \<Rightarrow> getrandom_result) \<Rightarrow> nat \<Rightarrow> nat \<Rightarrow> bytes \<Rightarrow> bytes option"
where
  "getrandom_loop gr len k out =
     (if length out < len then
        (case gr k (len - length out) of
           Stored bs \<Rightarrow> getrandom_loop gr len (Suc k) (out @ bs)
         | Interrupted \<Rightarrow> getrandom_loop gr len (Suc k) out
         | Failed \<Rightarrow> Some out)
      else Some out)"

definition random_bytes ::
  "(nat \<Rightarrow> nat \<Rightarrow> getrandom_result) \<Rightarrow> (nat \<Rightarrow> bytes option) \<Rightarrow> nat \<Rightarrow> (crypto_error + bytes) option"
where
  "random_bytes gr urandom len =
     do {
       filled \<leftarrow> getrandom_loop gr len 0 [];
       Some (if length filled = len then Inr filled
             else case urandom len of
                    Some bs \<Rightarrow> if length bs = len then Inr bs else Inl No_random_source
                  | None \<Rightarrow> Inl No_random_source)
     }"

text \<open>The kernel's contract: a call stores between one and the requested number of bytes, and is not
  interrupted forever.\<close>

definition getrandom_contract :: "(nat \<Rightarrow> nat \<Rightarrow> getrandom_result) \<Rightarrow> bool" where
  "getrandom_contract gr \<longleftrightarrow>
     (\<forall>k n bs. 0 < n \<longrightarrow> gr k n = Stored bs \<longrightarrow> bs \<noteq> [] \<and> length bs \<le> n) \<and>
     (\<forall>k. \<exists>j \<ge> k. \<forall>n. gr j n \<noteq> Interrupted)"

lemma getrandom_loop_returns:
  assumes "getrandom_contract gr" and "length out \<le> len"
  shows "yields (getrandom_loop gr len k out) (\<lambda>r. length r \<le> len \<and>
    ((\<forall>j n. gr j n \<noteq> Failed) \<longrightarrow> length r = len))" (is "yields _ ?Q")
  using assms(2)
proof (induction "len - length out" arbitrary: k out rule: less_induct)
  case less
  have one: "yields (getrandom_loop gr len k out) ?Q"
    if "gr k (len - length out) = Interrupted \<Longrightarrow> yields (getrandom_loop gr len (Suc k) out) ?Q" for k
  proof (cases "length out < len")
    case True
    then have "bs \<noteq> [] \<and> length bs \<le> len - length out" if "gr k (len - length out) = Stored bs" for bs
      using that assms(1) unfolding getrandom_contract_def by (metis zero_less_diff)
    then show ?thesis
      using True that less.prems
      by (subst getrandom_loop.simps) (auto split: getrandom_result.split intro!: less.hyps diff_less_mono2)
  qed (use less.prems in \<open>subst getrandom_loop.simps; simp\<close>)
  have "\<exists>j \<ge> k. \<forall>n. gr j n \<noteq> Interrupted" using assms(1) by (simp add: getrandom_contract_def)
  then obtain j where "k \<le> j" and j: "\<forall>n. gr j n \<noteq> Interrupted" by blast
  from \<open>k \<le> j\<close> show ?case
  proof (induction k rule: inc_induct)
    case base
    show ?case by (rule one) (simp add: j)
  next
    case (step k)
    show ?case by (rule one) (rule step.IH)
  qed
qed

text \<open>C31. Against a kernel that keeps its contract \<open>random_bytes\<close> returns; whatever it returns without an
  error has the requested length, and while \<open>getrandom\<close> does not fail it is not an error.\<close>

theorem random_bytes_returns:
  assumes "getrandom_contract gr"
  shows "yields (random_bytes gr urandom len) (\<lambda>r.
    (\<forall>bs. r = Inr bs \<longrightarrow> length bs = len) \<and> ((\<forall>j n. gr j n \<noteq> Failed) \<longrightarrow> (\<exists>bs. r = Inr bs)))"
proof -
  obtain x where x: "getrandom_loop gr len 0 [] = Some x"
    and full: "(\<forall>j n. gr j n \<noteq> Failed) \<longrightarrow> length x = len"
    using getrandom_loop_returns [OF assms, of "[]" len 0] unfolding yields_def by auto
  from full show ?thesis by (simp add: random_bytes_def x split: option.split)
qed

theorem random_bytes_returns_witness:
  "yields (random_bytes (\<lambda>k n. if even k then Interrupted else Stored [7]) (\<lambda>n. None) 3) (\<lambda>r. \<exists>bs. r = Inr bs \<and> length bs = 3)"
proof -
  let ?gr = "\<lambda>k n. if even k then Interrupted else Stored [7 :: u8]"
  have "\<exists>j \<ge> k. odd j" for k :: nat by (rule exI [of _ "2 * k + 1"]) simp
  then have "getrandom_contract ?gr" by (auto simp: getrandom_contract_def split: if_splits)
  from random_bytes_returns [OF this, of "\<lambda>n. None" 3] show ?thesis
    by (rule yields_mono) (auto split: if_splits)
qed

end
