(* ===== verification/Proof_Receipt.thy ===== *)
theory Proof_Receipt
  imports Cbor Crypto
begin

text \<open>
  The weight-proof receipts of \<open>src/csrc/proof/proof.cpp\<close>: the tensor registry, the byte windows that
  are hashed, and \<open>dphn_prove_v2\<close>, which seals the receipt to the verifier's key.

  A tensor is a record of the attributes the code reads from \<open>at::Tensor\<close>.  The hash BLAKE3, the
  Monocypher primitives, the kernel's random source and the two PyTorch dtype queries are fields of a
  record \<open>proof_env\<close>.  A failed \<open>TORCH_CHECK\<close> is a value of \<open>proof_error\<close>; \<open>None\<close> means that the call
  does not return, which only an unbounded \<open>getrandom\<close> loop could cause.
\<close>

section \<open>Data\<close>

datatype scalar_kind =
    KFloat | KHalf | KBFloat16 | KDouble | KInt | KLong | KShort | KChar | KByte | KBool
  | KComplexHalf | KComplexFloat | KComplexDouble | KUInt16 | KUInt32 | KUInt64
  | KOther nat

text \<open>Device types by their PyTorch codes.\<close>

definition dev_CPU :: nat where "dev_CPU = 0"
definition dev_CUDA :: nat where "dev_CUDA = 1"
definition dev_MPS :: nat where "dev_MPS = 13"

record tensor =
  t_defined :: bool
  t_device :: nat
  t_strided :: bool
  t_contiguous :: bool
  t_numel :: int
  t_element_size :: int
  t_sizes :: "int list"
  t_dtype :: scalar_kind
  t_data_ptr :: nat
  t_bytes :: bytes

datatype proof_error =
    Size_mismatch | Empty_name | Duplicate_name | Unsupported_dtype
  | Not_readable | Negative_window | Window_outside
  | Bad_context | Negative_token | No_terms | Term_too_short | Empty_registry
  | Zero_shared_secret | Crypto_failure crypto_error

record 'p proof_env =
  e_blake3 :: "bytes \<Rightarrow> bytes"
  e_is_float8 :: "scalar_kind \<Rightarrow> bool"
  e_dtype_name :: "scalar_kind \<Rightarrow> bytes"
  e_x25519_public_key :: "bytes \<Rightarrow> bytes"
  e_x25519 :: "bytes \<Rightarrow> bytes \<Rightarrow> bytes"
  e_chacha :: "bytes option \<Rightarrow> nat \<Rightarrow> bytes \<Rightarrow> bytes \<Rightarrow> u32 \<Rightarrow> bytes"
  e_poly_init :: "bytes \<Rightarrow> 'p"
  e_poly_update :: "'p \<Rightarrow> bytes \<Rightarrow> 'p"
  e_poly_final :: "'p \<Rightarrow> bytes"
  e_getrandom :: "nat \<Rightarrow> nat \<Rightarrow> nat \<Rightarrow> getrandom_result"
  e_urandom :: "nat \<Rightarrow> nat \<Rightarrow> bytes option"
  e_stack :: "nat \<Rightarrow> bytes"

section \<open>Helpers\<close>

definition kHex :: bytes where
  "kHex = str ''0123456789abcdef''"

definition hex_encode :: "bytes \<Rightarrow> bytes" where
  "hex_encode data = concat (map (\<lambda>b. [kHex ! unat (drop_bit 4 b), kHex ! unat (b AND 0xf)]) data)"

definition blake3_hexdigest :: "(bytes \<Rightarrow> bytes) \<Rightarrow> bytes \<Rightarrow> bytes" where
  "blake3_hexdigest blake3_digest data = hex_encode (blake3_digest data)"

definition u64_from_seed :: "(bytes \<Rightarrow> bytes) \<Rightarrow> bytes \<Rightarrow> u64 \<Rightarrow> u64" where
  "u64_from_seed blake3_digest seed counter =
     (let input = seed @ map (\<lambda>i. ucast (drop_bit (8 * i) counter AND 0xff)) [0..<8];
          d = blake3_digest input
      in fold (\<lambda>i v. v OR push_bit (i * 8) (ucast (d ! i))) [0..<8] 0)"

section \<open>The tensor registry\<close>

record tensor_entry =
  te_name :: bytes
  te_tensor :: tensor
  te_dtype :: bytes
  te_shape :: "int list"
  te_num_bytes :: int

record registry =
  entries :: "tensor_entry list"
  registry_hash :: bytes

definition dtype_python_name :: "(scalar_kind \<Rightarrow> bool) \<Rightarrow> (scalar_kind \<Rightarrow> bytes) \<Rightarrow> scalar_kind \<Rightarrow> proof_error + bytes" where
  "dtype_python_name is_float8 dtype_name t =
     (if (case t of KOther _ \<Rightarrow> \<not> is_float8 t | _ \<Rightarrow> False) then Inl Unsupported_dtype
      else if dtype_name t = [] then Inl Unsupported_dtype
      else Inr (str ''torch.'' @ dtype_name t))"

definition device_key :: "tensor \<Rightarrow> bytes" where
  "device_key t = to_string (t_device t) @ [58] @ to_string (t_data_ptr t)"

definition skipped :: "tensor \<Rightarrow> bool" where
  "skipped t \<longleftrightarrow>
     \<not> t_defined t \<or>
     (t_device t \<noteq> dev_CPU \<and> t_device t \<noteq> dev_CUDA \<and> t_device t \<noteq> dev_MPS) \<or>
     \<not> t_strided t \<or> t_numel t = 0 \<or> \<not> t_contiguous t"

fun registry_loop ::
  "'p proof_env \<Rightarrow> (tensor \<times> bytes) list \<Rightarrow> bytes set \<Rightarrow> bytes set \<Rightarrow> tensor_entry list \<Rightarrow> proof_error + tensor_entry list"
where
  "registry_loop env [] seen seen_names es = Inr es"
| "registry_loop env ((t, name) # rest) seen seen_names es =
     (if name = [] then Inl Empty_name
      else if name \<in> seen_names then Inl Duplicate_name
      else
        let seen_names = insert name seen_names in
        if skipped t then registry_loop env rest seen seen_names es
        else if device_key t \<in> seen then registry_loop env rest seen seen_names es
        else
          let seen = insert (device_key t) seen in
          case dtype_python_name (e_is_float8 env) (e_dtype_name env) (t_dtype t) of
            Inl e \<Rightarrow> Inl e
          | Inr dtype \<Rightarrow>
              registry_loop env rest seen seen_names
                (es @ [\<lparr> te_name = name, te_tensor = t, te_dtype = dtype, te_shape = t_sizes t,
                        te_num_bytes = t_numel t * t_element_size t \<rparr>]))"

definition entry_metadata :: "tensor_entry \<Rightarrow> cbor_value" where
  "entry_metadata e =
     CMap [(str ''name'', CStr (te_name e)), (str ''dtype'', CStr (te_dtype e)),
           (str ''shape'', CArr (map CInt (te_shape e))), (str ''num_bytes'', CInt (te_num_bytes e))]"

definition build_registry :: "'p proof_env \<Rightarrow> tensor list \<Rightarrow> bytes list \<Rightarrow> proof_error + registry" where
  "build_registry env tensors names =
     (if length tensors \<noteq> length names then Inl Size_mismatch
      else case registry_loop env (zip tensors names) {} {} [] of
        Inl e \<Rightarrow> Inl e
      | Inr es \<Rightarrow>
          (let es = sort_key te_name es in
           Inr \<lparr> entries = es,
                 registry_hash = blake3_hexdigest (e_blake3 env) (encode (CArr (map entry_metadata es))) \<rparr>))"

section \<open>Contiguous byte reads\<close>

text \<open>Both branches of the source, the direct copy of a CPU tensor and the sliced byte view copied from a
  device, return the same bytes of the contiguous data.\<close>

definition nbytes :: "tensor \<Rightarrow> u64" where
  "nbytes t = word_of_int (t_numel t * t_element_size t)"

definition read_tensor_bytes :: "tensor \<Rightarrow> int \<Rightarrow> int \<Rightarrow> proof_error + bytes" where
  "read_tensor_bytes t offset len =
     (if \<not> (t_defined t \<and> t_strided t \<and> t_contiguous t) then Inl Not_readable
      else if \<not> (offset \<ge> 0 \<and> len \<ge> 0) then Inl Negative_window
      else
        let total_bytes = nbytes t in
        if \<not> (word_of_int offset \<le> total_bytes \<and> word_of_int len \<le> total_bytes - word_of_int offset)
        then Inl Window_outside
        else if len = 0 then Inr []
        else Inr (take (nat len) (drop (nat offset) (t_bytes t))))"

section \<open>The receipt\<close>

definition kProofVersion :: int where "kProofVersion = 2"
definition kSchedulerStep :: int where "kSchedulerStep = 0"

definition context_ok :: "bytes \<Rightarrow> bool" where
  "context_ok field \<longleftrightarrow> field \<noteq> [] \<and> 0 \<notin> set field"

definition token_hash :: "'p proof_env \<Rightarrow> int list \<Rightarrow> bytes" where
  "token_hash env ids = blake3_hexdigest (e_blake3 env) (encode (CArr (map CInt ids)))"

definition seed_material :: "bytes \<Rightarrow> bytes \<Rightarrow> bytes \<Rightarrow> bytes \<Rightarrow> cbor_value" where
  "seed_material gateway_nonce request_id model_manifest_id generated_token_hash =
     CMap [(str ''nonce'', CStr gateway_nonce), (str ''request_id'', CStr request_id),
           (str ''model_manifest_id'', CStr model_manifest_id), (str ''scheduler_step'', CInt kSchedulerStep),
           (str ''generated_token_hash'', CStr generated_token_hash)]"

text \<open>One weight term: the entry and the window drawn from the seed at the given counter.\<close>

definition draw_window :: "'p proof_env \<Rightarrow> bytes \<Rightarrow> tensor_entry list \<Rightarrow> int \<Rightarrow> u64 \<Rightarrow> tensor_entry \<times> int \<times> int" where
  "draw_window env seed es raw_term_bytes counter =
     (let entry = es ! unat (u64_from_seed (e_blake3 env) seed counter mod word_of_nat (length es));
          len = min raw_term_bytes (te_num_bytes entry);
          max_offset = max 0 (te_num_bytes entry - len);
          offset = i64 (uint (u64_from_seed (e_blake3 env) seed (counter + 1) mod word_of_int (max_offset + 1)))
      in (entry, offset, len))"

definition term_fields :: "tensor_entry \<Rightarrow> int \<Rightarrow> int \<Rightarrow> (bytes \<times> cbor_value) list" where
  "term_fields entry offset len =
     [(str ''op'', CStr (str ''raw_window_hash'')), (str ''tensor'', CStr (te_name entry)),
      (str ''offset'', CInt offset), (str ''length'', CInt len)]"

fun terms_loop ::
  "'p proof_env \<Rightarrow> bytes \<Rightarrow> tensor_entry list \<Rightarrow> int \<Rightarrow> nat \<Rightarrow> u64 \<Rightarrow> cbor_value list \<Rightarrow> cbor_value list \<Rightarrow>
   proof_error + (cbor_value list \<times> cbor_value list)"
where
  "terms_loop env seed es raw_term_bytes 0 counter terms sketches = Inr (terms, sketches)"
| "terms_loop env seed es raw_term_bytes (Suc n) counter terms sketches =
     (let (entry, offset, len) = draw_window env seed es raw_term_bytes counter;
          term = term_fields entry offset len
      in case read_tensor_bytes (te_tensor entry) offset len of
           Inl e \<Rightarrow> Inl e
         | Inr raw \<Rightarrow>
             (let sketch = term @ [(str ''digest'', CStr (blake3_hexdigest (e_blake3 env) raw))]
              in terms_loop env seed es raw_term_bytes n (counter + 2) (terms @ [CMap term]) (sketches @ [CMap sketch])))"

definition make_aad :: "bytes \<Rightarrow> bytes \<Rightarrow> bytes \<Rightarrow> bytes" where
  "make_aad worker_id gateway_nonce model_manifest_id = worker_id @ [0] @ gateway_nonce @ [0] @ model_manifest_id"

definition kInfoPrefix :: bytes where
  "kInfoPrefix = str ''dphn-proof-v2''"

record proof_request =
  r_tensors :: "tensor list"
  r_names :: "bytes list"
  r_worker_id :: bytes
  r_request_id :: bytes
  r_gateway_nonce :: bytes
  r_model_manifest_id :: bytes
  r_output_token_ids :: "int list"
  r_public_key :: bytes
  r_key_id :: bytes
  r_num_raw_terms :: int
  r_raw_term_bytes :: int

definition check_request :: "proof_request \<Rightarrow> proof_error option" where
  "check_request r =
     (if \<not> (\<forall>f \<in> set [r_worker_id r, r_request_id r, r_gateway_nonce r, r_model_manifest_id r]. context_ok f)
        then Some Bad_context
      else if \<not> (\<forall>i \<in> set (r_output_token_ids r). i \<ge> 0) then Some Negative_token
      else if \<not> r_num_raw_terms r \<ge> 1 then Some No_terms
      else if \<not> r_raw_term_bytes r \<ge> 16 then Some Term_too_short
      else None)"

definition payload_map :: "'p proof_env \<Rightarrow> proof_request \<Rightarrow> registry \<Rightarrow> cbor_value list \<Rightarrow> cbor_value list \<Rightarrow> cbor_value" where
  "payload_map env r reg terms sketches =
     CMap [(str ''version'', CInt kProofVersion),
           (str ''worker_id'', CStr (r_worker_id r)),
           (str ''request_id'', CStr (r_request_id r)),
           (str ''gateway_nonce'', CStr (r_gateway_nonce r)),
           (str ''model_manifest_id'', CStr (r_model_manifest_id r)),
           (str ''scheduler_step'', CInt kSchedulerStep),
           (str ''tensor_registry_hash'', CStr (registry_hash reg)),
           (str ''generated_token_hash'', CStr (token_hash env (r_output_token_ids r))),
           (str ''terms'', CArr terms),
           (str ''weight_proof'', CStr (blake3_hexdigest (e_blake3 env) (encode (CArr sketches))))]"

definition make_payload :: "'p proof_env \<Rightarrow> proof_request \<Rightarrow> proof_error + cbor_value" where
  "make_payload env r =
     (case build_registry env (r_tensors r) (r_names r) of
        Inl e \<Rightarrow> Inl e
      | Inr reg \<Rightarrow>
          if entries reg = [] then Inl Empty_registry
          else
            let seed = e_blake3 env (encode (seed_material (r_gateway_nonce r) (r_request_id r)
                  (r_model_manifest_id r) (token_hash env (r_output_token_ids r))))
            in case terms_loop env seed (entries reg) (r_raw_term_bytes r) (nat (r_num_raw_terms r)) 0 [] [] of
                 Inl e \<Rightarrow> Inl e
               | Inr (terms, sketches) \<Rightarrow> Inr (payload_map env r reg terms sketches))"

definition make_envelope :: "bytes \<Rightarrow> bytes \<Rightarrow> bytes \<Rightarrow> bytes \<Rightarrow> cbor_value" where
  "make_envelope key_id ephemeral_public nonce ciphertext =
     CMap [(str ''v'', CInt kProofVersion), (str ''kid'', CStr key_id), (str ''epk'', CBytes ephemeral_public),
           (str ''n'', CBytes nonce), (str ''ct'', CBytes ciphertext)]"

definition seal :: "'p proof_env \<Rightarrow> proof_request \<Rightarrow> bytes \<Rightarrow> bytes \<Rightarrow> bytes \<Rightarrow> (proof_error + bytes) option" where
  "seal env r payload_bytes ephemeral_private peer_public =
     (let (shared, nonzero) = x25519_shared_secret (e_x25519 env) ephemeral_private peer_public in
      if \<not> nonzero then Some (Inl Zero_shared_secret)
      else
        let aad = make_aad (r_worker_id r) (r_gateway_nonce r) (r_model_manifest_id r) in
        do {
          key \<leftarrow> hkdf_sha256_32 (e_stack env) shared (kInfoPrefix @ aad);
          rnd \<leftarrow> random_bytes (e_getrandom env 1) (e_urandom env 1) 12;
          Some (case rnd of
                  Inl e \<Rightarrow> Inl (Crypto_failure e)
                | Inr nonce \<Rightarrow>
                    (let ciphertext = chacha20poly1305_ietf_encrypt (e_chacha env) (e_poly_init env)
                           (e_poly_update env) (e_poly_final env) key nonce aad payload_bytes;
                         envelope = make_envelope (r_key_id r)
                           (take 32 (x25519_public_key (e_x25519_public_key env) ephemeral_private)) nonce ciphertext
                     in Inr (b64url_encode_nopad (encode envelope))))
        })"

definition dphn_prove_v2 :: "'p proof_env \<Rightarrow> proof_request \<Rightarrow> (proof_error + bytes) option" where
  "dphn_prove_v2 env r =
     (case check_request r of
        Some e \<Rightarrow> Some (Inl e)
      | None \<Rightarrow>
          (case make_payload env r of
             Inl e \<Rightarrow> Some (Inl e)
           | Inr payload \<Rightarrow>
               do {
                 rnd \<leftarrow> random_bytes (e_getrandom env 0) (e_urandom env 0) 32;
                 (case rnd of
                    Inl e \<Rightarrow> Some (Inl (Crypto_failure e))
                  | Inr ephemeral_private \<Rightarrow>
                      (case load_x25519_public_key (r_public_key r) of
                         Inl e \<Rightarrow> Some (Inl (Crypto_failure e))
                       | Inr peer_public \<Rightarrow> seal env r (encode payload) ephemeral_private peer_public))
               }))"

section \<open>The registry holds the usable tensors, each once, by name\<close>

text \<open>What PyTorch guarantees of a tensor: a non-negative element count, a positive element size, a byte
  count that fits \<open>int64_t\<close>, and as many bytes of data.\<close>

definition wf_tensor :: "tensor \<Rightarrow> bool" where
  "wf_tensor t \<longleftrightarrow>
     0 \<le> t_numel t \<and> 1 \<le> t_element_size t \<and> t_numel t * t_element_size t < 2 ^ 63 \<and>
     int (length (t_bytes t)) = t_numel t * t_element_size t"

definition entry_of :: "(tensor \<times> bytes) set \<Rightarrow> tensor_entry \<Rightarrow> bool" where
  "entry_of given e \<longleftrightarrow>
     (te_tensor e, te_name e) \<in> given \<and> \<not> skipped (te_tensor e) \<and>
     te_shape e = t_sizes (te_tensor e) \<and>
     te_num_bytes e = t_numel (te_tensor e) * t_element_size (te_tensor e)"

lemma registry_loop_entries:
  assumes "registry_loop env xs seen seen_names es = Inr es'"
    and "\<forall>e \<in> set es. te_name e \<in> seen_names \<and> device_key (te_tensor e) \<in> seen"
    and "distinct (map te_name es)" and "distinct (map (\<lambda>e. device_key (te_tensor e)) es)"
    and "\<forall>e \<in> set es. entry_of given e" and "set xs \<subseteq> given"
  shows "distinct (map te_name es') \<and> distinct (map (\<lambda>e. device_key (te_tensor e)) es') \<and>
    (\<forall>e \<in> set es'. entry_of given e) \<and> (\<exists>new. es' = es @ new)"
  using assms
proof (induction env xs seen seen_names es rule: registry_loop.induct)
  case (2 env t name rest seen seen_names es)
  show ?case
  proof (cases "skipped t \<or> device_key t \<in> seen")
    case True
    then show ?thesis using 2 by (auto simp: Let_def split: if_splits)
  next
    case False
    with 2(4) obtain dtype where d: "dtype_python_name (e_is_float8 env) (e_dtype_name env) (t_dtype t) = Inr dtype"
      and n: "name \<noteq> []" "name \<notin> seen_names"
      by (auto simp: Let_def split: if_splits sum.splits)
    let ?e = "\<lparr> te_name = name, te_tensor = t, te_dtype = dtype, te_shape = t_sizes t,
        te_num_bytes = t_numel t * t_element_size t \<rparr>"
    have "registry_loop env rest (insert (device_key t) seen) (insert name seen_names) (es @ [?e]) = Inr es'"
      using 2(4) False d n by (simp add: Let_def)
    moreover have "entry_of given ?e" using 2(9) False by (simp add: entry_of_def)
    ultimately have "distinct (map te_name es') \<and> distinct (map (\<lambda>e. device_key (te_tensor e)) es') \<and>
        (\<forall>e \<in> set es'. entry_of given e) \<and> (\<exists>new. es' = (es @ [?e]) @ new)"
      using 2(5-9) n False d by (intro 2(3) [of _ _ dtype]) auto
    then show ?thesis by auto
  qed
qed auto

lemma build_registry_entries:
  assumes "build_registry env tensors names = Inr reg"
  shows "sorted (map te_name (entries reg))" "distinct (map te_name (entries reg))"
    "distinct (map (\<lambda>e. device_key (te_tensor e)) (entries reg))"
    "\<forall>e \<in> set (entries reg). entry_of (set (zip tensors names)) e"
proof -
  obtain es where es: "registry_loop env (zip tensors names) {} {} [] = Inr es" "entries reg = sort_key te_name es"
    using assms by (auto simp: build_registry_def Let_def split: if_splits sum.splits)
  note inv = registry_loop_entries [OF es(1), of "set (zip tensors names)"]
  then show "sorted (map te_name (entries reg))" "distinct (map te_name (entries reg))"
    "distinct (map (\<lambda>e. device_key (te_tensor e)) (entries reg))"
    "\<forall>e \<in> set (entries reg). entry_of (set (zip tensors names)) e"
    by (simp_all add: es(2) distinct_map)
qed

section \<open>Windows\<close>

definition window_ok :: "tensor_entry list \<Rightarrow> int \<Rightarrow> tensor_entry \<times> int \<times> int \<Rightarrow> bool" where
  "window_ok es raw = (\<lambda>(e, offset, len).
     e \<in> set es \<and> 0 \<le> offset \<and> len = min raw (te_num_bytes e) \<and> 1 \<le> len \<and> offset + len \<le> te_num_bytes e)"

lemma draw_window_ok:
  assumes "es \<noteq> []" and "fits64 (length es)" and "1 \<le> raw"
    and "\<forall>e \<in> set es. 1 \<le> te_num_bytes e \<and> te_num_bytes e < 2 ^ 63"
  shows "window_ok es raw (draw_window env seed es raw counter)"
proof -
  let ?h = "u64_from_seed (e_blake3 env) seed"
  define i where "i = unat (?h counter mod word_of_nat (length es))"
  have "i = unat (?h counter) mod length es"
    by (simp add: i_def unat_mod_distrib unat_u64_of_nat assms(2))
  then have i: "i < length es" using assms(1) by simp
  define e where "e = es ! i"
  have e: "e \<in> set es" "1 \<le> te_num_bytes e" "te_num_bytes e < 2 ^ 63"
    using assms(4) i by (simp_all add: e_def)
  define len where "len = min raw (te_num_bytes e)"
  define m where "m = max 0 (te_num_bytes e - len)"
  have len: "1 \<le> len" "len \<le> te_num_bytes e" using assms(3) e by (simp_all add: len_def)
  then have m: "m = te_num_bytes e - len" "0 \<le> m" "m + 1 < 2 ^ 63" using e by (simp_all add: m_def)
  define off where "off = uint (?h (counter + 1) mod word_of_int (m + 1))"
  have "uint (word_of_int (m + 1) :: u64) = m + 1"
    using m(2, 3) by (simp only: uint_word_of_int_eq) (simp add: take_bit_int_eq_self)
  then have "off = uint (?h (counter + 1)) mod (m + 1)" by (simp add: off_def uint_mod_distrib)
  then have off: "0 \<le> off" "off \<le> m" using m pos_mod_bound [of "m + 1" "uint (?h (counter + 1))"] by simp_all
  then have "i64 off = off" using m by (intro i64_id) (simp add: in_i64_def)
  then have "draw_window env seed es raw counter = (e, off, len)"
    unfolding draw_window_def Let_def i_def [symmetric] e_def [symmetric] len_def [symmetric]
      m_def [symmetric] off_def [symmetric] by simp
  then show ?thesis using e len m off by (simp add: window_ok_def len_def)
qed

lemma read_window:
  assumes "wf_tensor t" and "t_defined t" "t_strided t" "t_contiguous t"
    and "0 \<le> off" "1 \<le> len" "off + len \<le> t_numel t * t_element_size t"
  shows "read_tensor_bytes t off len = Inr (take (nat len) (drop (nat off) (t_bytes t)))"
proof -
  define n where "n = t_numel t * t_element_size t"
  have n: "n < 2 ^ 63" "off + len \<le> n" using assms by (simp_all add: wf_tensor_def n_def)
  have u: "uint (word_of_int x :: u64) = x" if "0 \<le> x" "x \<le> n" for x
    using that n by (simp add: uint_word_of_int_eq take_bit_int_eq_self)
  have "(word_of_int off :: u64) \<le> word_of_int n"
    using assms(5, 6) n by (simp add: word_le_def u)
  moreover have "(word_of_int len :: u64) \<le> word_of_int n - word_of_int off"
    using assms(5, 6) n u [of "n - off"] by (simp add: word_le_def u)
  ultimately show ?thesis
    using assms by (simp add: read_tensor_bytes_def nbytes_def Let_def flip: n_def)
qed

text \<open>The term and the sketch that belong to a window.\<close>

definition window_term :: "tensor_entry \<times> int \<times> int \<Rightarrow> cbor_value" where
  "window_term = (\<lambda>(e, off, len). CMap (term_fields e off len))"

definition window_sketch :: "(bytes \<Rightarrow> bytes) \<Rightarrow> tensor_entry \<times> int \<times> int \<Rightarrow> cbor_value" where
  "window_sketch blake3 = (\<lambda>(e, off, len). CMap (term_fields e off len @
     [(str ''digest'', CStr (blake3_hexdigest blake3 (take (nat len) (drop (nat off) (t_bytes (te_tensor e))))))]))"

definition entries_ok :: "tensor_entry list \<Rightarrow> bool" where
  "entries_ok es \<longleftrightarrow> es \<noteq> [] \<and> fits64 (length es) \<and>
     (\<forall>e \<in> set es. wf_tensor (te_tensor e) \<and> \<not> skipped (te_tensor e) \<and>
        te_num_bytes e = t_numel (te_tensor e) * t_element_size (te_tensor e))"

lemma entries_ok_bytes:
  assumes "entries_ok es" and "e \<in> set es"
  shows "1 \<le> te_num_bytes e" "te_num_bytes e < 2 ^ 63"
proof -
  have "0 < t_numel (te_tensor e)" "0 < t_element_size (te_tensor e)"
    using assms by (auto simp: entries_ok_def wf_tensor_def skipped_def)
  then have "0 < t_numel (te_tensor e) * t_element_size (te_tensor e)" by simp
  then show "1 \<le> te_num_bytes e" "te_num_bytes e < 2 ^ 63"
    using assms by (auto simp: entries_ok_def wf_tensor_def)
qed

lemma terms_loop_windows:
  assumes "entries_ok es" and "1 \<le> raw"
  shows "\<exists>ws. length ws = n \<and> (\<forall>w \<in> set ws. window_ok es raw w) \<and>
    terms_loop env seed es raw n counter terms sketches =
      Inr (terms @ map window_term ws, sketches @ map (window_sketch (e_blake3 env)) ws)"
proof (induction n arbitrary: counter terms sketches)
  case (Suc n)
  obtain e off len where w: "draw_window env seed es raw counter = (e, off, len)" by (metis prod_cases3)
  have ok: "window_ok es raw (e, off, len)"
    using draw_window_ok [of es raw env seed counter] assms entries_ok_bytes [OF assms(1)] w
    by (simp add: entries_ok_def)
  then have "read_tensor_bytes (te_tensor e) off len = Inr (take (nat len) (drop (nat off) (t_bytes (te_tensor e))))"
    using assms(1) by (intro read_window) (auto simp: window_ok_def entries_ok_def skipped_def)
  moreover obtain ws where ws: "length ws = n" "\<forall>w \<in> set ws. window_ok es raw w"
    "terms_loop env seed es raw n (counter + 2) (terms @ [window_term (e, off, len)])
        (sketches @ [window_sketch (e_blake3 env) (e, off, len)]) =
      Inr (terms @ map window_term ((e, off, len) # ws), sketches @ map (window_sketch (e_blake3 env)) ((e, off, len) # ws))"
    using Suc.IH [of "counter + 2" "terms @ [window_term (e, off, len)]" "sketches @ [window_sketch (e_blake3 env) (e, off, len)]"]
    by auto
  ultimately show ?case
    using ok by (intro exI [of _ "(e, off, len) # ws"]) (simp add: w Let_def window_term_def window_sketch_def)
qed simp

lemma registry_entries_ok:
  assumes "build_registry env tensors names = Inr reg" and "entries reg \<noteq> []"
    and "\<forall>t \<in> set tensors. wf_tensor t" and "fits64 (length tensors)"
  shows "entries_ok (entries reg)"
proof -
  note reg = build_registry_entries [OF assms(1)]
  have sub: "te_tensor ` set (entries reg) \<subseteq> set tensors"
    using reg(4) by (auto simp: entry_of_def dest: set_zip_leftD)
  have "inj_on te_tensor (set (entries reg))"
    using reg(3) by (auto simp: distinct_map inj_on_def)
  then have "length (entries reg) = card (te_tensor ` set (entries reg))"
    using reg(2) by (simp add: card_image distinct_card distinct_map)
  also have "\<dots> \<le> length tensors"
    using card_mono [OF _ sub] card_length [of tensors] by simp
  finally have "fits64 (length (entries reg))" using assms(4) by (simp add: fits64_def)
  then show ?thesis using assms(2, 3) reg(4) sub by (auto simp: entries_ok_def entry_of_def)
qed

lemma registry_windows:
  assumes "build_registry env tensors names = Inr reg" and "entries reg \<noteq> []"
    and "\<forall>t \<in> set tensors. wf_tensor t" and "fits64 (length tensors)" and "16 \<le> raw"
  shows "\<exists>ws. length ws = n \<and> (\<forall>w \<in> set ws. window_ok (entries reg) raw w) \<and>
    terms_loop env seed (entries reg) raw n 0 [] [] =
      Inr (map window_term ws, map (window_sketch (e_blake3 env)) ws)"
  using terms_loop_windows [OF registry_entries_ok [OF assms(1-4)], of raw n env seed 0 "[]" "[]"] assms(5) by simp

text \<open>C2. With tensors as PyTorch provides them the byte windows never fail: for every seed the loop
  produces the requested number of terms, each of a registered tensor with a window inside its data,
  and the sketches carry the digests of exactly those bytes.\<close>

theorem weight_windows_in_bounds:
  assumes "build_registry env tensors names = Inr reg" and "entries reg \<noteq> []"
    and "\<forall>t \<in> set tensors. wf_tensor t" and "fits64 (length tensors)" and "16 \<le> raw"
  shows "\<exists>ws. length ws = n \<and> (\<forall>w \<in> set ws. window_ok (entries reg) raw w) \<and>
    terms_loop env seed (entries reg) raw n 0 [] [] =
      Inr (map window_term ws, map (window_sketch (e_blake3 env)) ws)"
  using assms by (rule registry_windows)

section \<open>Opening a receipt\<close>

text \<open>The verifier: decode the token, find the ephemeral key, the nonce and the box, derive the key from
  the shared secret and the context, and open the box.\<close>

definition field :: "string \<Rightarrow> cbor_value \<Rightarrow> cbor_value option" where
  "field k v = (case v of CMap m \<Rightarrow> map_of m (str k) | _ \<Rightarrow> None)"

definition open_receipt ::
  "(bytes \<Rightarrow> bytes \<Rightarrow> bytes) \<Rightarrow> (bytes \<Rightarrow> bytes \<Rightarrow> u32 \<Rightarrow> nat \<Rightarrow> bytes) \<Rightarrow> (bytes \<Rightarrow> bytes \<Rightarrow> bytes) \<Rightarrow>
   bytes \<Rightarrow> bytes \<Rightarrow> bytes \<Rightarrow> bytes option"
where
  "open_receipt x25519 stream mac sk aad token =
     (case b64_decode_flexible token of
        Inl _ \<Rightarrow> None
      | Inr bs \<Rightarrow>
          (case decode bs of
             Some (v, []) \<Rightarrow>
               (case (field ''epk'' v, field ''n'' v, field ''ct'' v) of
                  (Some (CBytes epk), Some (CBytes n), Some (CBytes ct)) \<Rightarrow>
                    rfc8439_open stream mac (rfc_hkdf None (x25519 sk epk) (kInfoPrefix @ aad) 32) n aad ct
                | _ \<Rightarrow> None)
           | _ \<Rightarrow> None))"

text \<open>What the theorem needs of the primitives: the two halves of the key agreement meet, the outputs have
  their documented lengths, and the AEAD primitives behave as documented.\<close>

definition env_ok :: "'p proof_env \<Rightarrow> (bytes \<Rightarrow> bytes \<Rightarrow> u32 \<Rightarrow> nat \<Rightarrow> bytes) \<Rightarrow> (bytes \<Rightarrow> bytes \<Rightarrow> bytes) \<Rightarrow> bool" where
  "env_ok env stream mac \<longleftrightarrow>
     aead_primitives (e_chacha env) (e_poly_init env) (e_poly_update env) (e_poly_final env) stream mac \<and>
     (\<forall>k n. take 32 (stream k n 0 64) = stream k n 0 32) \<and>
     (\<forall>a b. e_x25519 env a (e_x25519_public_key env b) = e_x25519 env b (e_x25519_public_key env a)) \<and>
     (\<forall>a b. length (e_x25519 env a b) = 32) \<and> (\<forall>a. length (e_x25519_public_key env a) = 32) \<and>
     (\<forall>n. length (e_stack env n) = 64)"

lemma length_b64: "length d \<le> length (b64url_encode_nopad d)"
  by (induction d rule: b64url_encode_nopad.induct) (simp_all add: Let_def)

lemma canon_field:
  assumes "distinct (map fst m)" and "(str k, v) \<in> set m"
  shows "field k (canon (CMap m)) = Some (canon v)"
proof -
  let ?m = "map (\<lambda>(k, v). (k, canon v)) (sort_key entry_rank m)"
  have "map fst ?m = map fst (sort_key entry_rank m)" by (simp add: case_prod_unfold)
  moreover have "distinct (map fst (sort_key entry_rank m))" using assms(1) by (simp add: distinct_map)
  moreover have "(str k, canon v) \<in> set ?m" using assms(2) by force
  ultimately have "map_of ?m (str k) = Some (canon v)" by (metis map_of_is_SomeI)
  then show ?thesis by (simp only: field_def canon_map cbor_value.case)
qed

lemma envelope_fields:
  "field ''epk'' (canon (make_envelope kid epk n ct)) = Some (CBytes epk)"
  "field ''n'' (canon (make_envelope kid epk n ct)) = Some (CBytes n)"
  "field ''ct'' (canon (make_envelope kid epk n ct)) = Some (CBytes ct)"
  unfolding make_envelope_def
  using canon_field [of _ "''epk''" "CBytes epk"] canon_field [of _ "''n''" "CBytes n"] canon_field [of _ "''ct''" "CBytes ct"]
  by (simp_all del: canon.simps(2))

lemma seal_opens:
  assumes env: "env_ok env stream mac"
    and sealed: "seal env r payload ep (e_x25519_public_key env sk) = Some (Inr token)"
    and "fits64 (length token)"
  shows "open_receipt (e_x25519 env) stream mac sk
      (make_aad (r_worker_id r) (r_gateway_nonce r) (r_model_manifest_id r)) token = Some payload"
    and "length payload \<le> length token"
proof -
  let ?aad = "make_aad (r_worker_id r) (r_gateway_nonce r) (r_model_manifest_id r)"
  let ?epk = "e_x25519_public_key env ep"
  let ?shared = "e_x25519 env ep (e_x25519_public_key env sk)"
  let ?key = "rfc_hkdf None ?shared (kInfoPrefix @ ?aad) 32"
  have dh: "?shared = e_x25519 env sk ?epk" and lens: "length ?shared = 32" "take 32 ?epk = ?epk"
    and stack: "\<And>n. length (e_stack env n) = 64"
    and aead: "aead_primitives (e_chacha env) (e_poly_init env) (e_poly_update env) (e_poly_final env) stream mac"
      "take 32 (stream ?key nonce 0 64) = stream ?key nonce 0 32" for nonce
    using env unfolding env_ok_def by (blast, blast, simp, blast, blast, blast)
  obtain nonce where token: "token = b64url_encode_nopad (encode (make_envelope (r_key_id r) ?epk nonce
      (chacha20poly1305_ietf_encrypt (e_chacha env) (e_poly_init env) (e_poly_update env) (e_poly_final env)
         ?key nonce ?aad payload)))"
    using sealed
    by (auto simp: seal_def shared_secret_iff lens hkdf_correct [OF stack] x25519_public_key_def Let_def
        split: if_splits sum.splits bind_splits)
  let ?ct = "chacha20poly1305_ietf_encrypt (e_chacha env) (e_poly_init env) (e_poly_update env) (e_poly_final env)
      ?key nonce ?aad payload"
  let ?env = "make_envelope (r_key_id r) ?epk nonce ?ct"
  have box: "rfc8439_open stream mac ?key nonce ?aad ?ct = Some payload" "length ?ct = length payload + 16"
    using aead_open_correct [OF aead] by blast+
  have le: "length (encode ?env) \<le> length token" unfolding token by (rule length_b64)
  have "shape_ok ?env" by (simp add: make_envelope_def kProofVersion_def in_i64_def)
  then have "wf_value ?env" using fits64_le [OF assms(3) le] by (rule wf_of_length)
  then have dec: "decode (encode ?env) = Some (canon ?env, [])" using decode_encode [of ?env "[]"] by simp
  show "open_receipt (e_x25519 env) stream mac sk ?aad token = Some payload"
    using box by (simp add: open_receipt_def token b64_round_trip dec dh [symmetric] envelope_fields)
  have "length (encode (CBytes ?ct)) < length (encode ?env)"
    unfolding make_envelope_def by (rule map_length_bound [of "str ''ct''"]) simp
  then show "length payload \<le> length token" using le box(2) by (simp add: encode_simps)
qed

lemma payload_shape:
  assumes "make_payload env r = Inr payload" and "\<forall>t \<in> set (r_tensors r). wf_tensor t"
    and "fits64 (length (r_tensors r))" and "16 \<le> r_raw_term_bytes r"
  shows "shape_ok payload"
proof -
  obtain reg where reg: "build_registry env (r_tensors r) (r_names r) = Inr reg" "entries reg \<noteq> []"
    using assms(1) by (auto simp: make_payload_def Let_def split: sum.splits if_splits)
  let ?seed = "e_blake3 env (encode (seed_material (r_gateway_nonce r) (r_request_id r)
      (r_model_manifest_id r) (token_hash env (r_output_token_ids r))))"
  obtain ws where ws: "\<forall>w \<in> set ws. window_ok (entries reg) (r_raw_term_bytes r) w"
    "terms_loop env ?seed (entries reg) (r_raw_term_bytes r) (nat (r_num_raw_terms r)) 0 [] [] =
      Inr (map window_term ws, map (window_sketch (e_blake3 env)) ws)"
    using registry_windows [OF reg assms(2, 3, 4)] by blast
  have "entries_ok (entries reg)" using registry_entries_ok [OF reg assms(2, 3)] .
  have "shape_ok (window_term w)" if "w \<in> set ws" for w
  proof -
    obtain e off len where w: "w = (e, off, len)" by (metis prod_cases3)
    then have "e \<in> set (entries reg)" "0 \<le> off" "1 \<le> len" "off + len \<le> te_num_bytes e"
      using ws(1) that by (auto simp: window_ok_def)
    then have "in_i64 off" "in_i64 len"
      using entries_ok_bytes(2) [OF \<open>entries_ok (entries reg)\<close>, of e] by (auto simp: in_i64_def)
    then show ?thesis by (simp add: w window_term_def term_fields_def)
  qed
  moreover have "payload = payload_map env r reg (map window_term ws) (map (window_sketch (e_blake3 env)) ws)"
    using assms(1) reg ws(2) by (simp add: make_payload_def Let_def)
  ultimately show ?thesis
    by (simp add: payload_map_def kProofVersion_def kSchedulerStep_def in_i64_def)
qed

text \<open>C1. The holder of the private key opens every receipt that \<open>dphn_prove_v2\<close> returns: decoding the
  token, deriving the key from the ephemeral public key and the context, and opening the box gives
  exactly the payload that was computed from the request, and the payload decodes to its fields.\<close>

theorem receipt_opens:
  assumes "env_ok env stream mac"
    and "dphn_prove_v2 env r = Some (Inr token)" and "fits64 (length token)"
    and "load_x25519_public_key (r_public_key r) = Inr (e_x25519_public_key env sk)"
    and "\<forall>t \<in> set (r_tensors r). wf_tensor t" and "fits64 (length (r_tensors r))"
  shows "\<exists>payload. make_payload env r = Inr payload \<and>
    open_receipt (e_x25519 env) stream mac sk
      (make_aad (r_worker_id r) (r_gateway_nonce r) (r_model_manifest_id r)) token = Some (encode payload) \<and>
    decode (encode payload) = Some (canon payload, [])"
proof -
  obtain payload ep where checked: "check_request r = None" and payload: "make_payload env r = Inr payload"
    and sealed: "seal env r (encode payload) ep (e_x25519_public_key env sk) = Some (Inr token)"
    using assms(2, 4) by (auto simp: dphn_prove_v2_def split: option.splits sum.splits bind_splits)
  have "16 \<le> r_raw_term_bytes r" using checked by (simp add: check_request_def split: if_splits)
  then have "shape_ok payload" using payload_shape [OF payload assms(5, 6)] by simp
  moreover have "fits64 (length (encode payload))"
    using seal_opens(2) [OF assms(1) sealed assms(3)] assms(3) by (elim fits64_le)
  ultimately have "wf_value payload" by (rule wf_of_length)
  then show ?thesis
    using payload seal_opens(1) [OF assms(1) sealed assms(3)] decode_encode [of payload "[]"] by auto
qed

section \<open>Contents and order of the registry\<close>

lemma split_at_sep:
  assumes "c \<notin> set xs" and "c \<notin> set ys" and "xs @ c # us = ys @ c # vs"
  shows "xs = ys \<and> us = vs"
  using assms
proof (induction xs arbitrary: ys)
  case Nil
  then show ?case by (cases ys) auto
next
  case (Cons x xs)
  then show ?case by (cases ys) auto
qed

lemma device_key_eq: "device_key s = device_key t \<longleftrightarrow> t_device s = t_device t \<and> t_data_ptr s = t_data_ptr t"
proof
  assume eq: "device_key s = device_key t"
  have "58 \<notin> set (to_string n)" for n using to_string_digits [of 58 n] by auto
  then have "to_string (t_device s) = to_string (t_device t) \<and> to_string (t_data_ptr s) = to_string (t_data_ptr t)"
    using split_at_sep [of 58 "to_string (t_device s)" "to_string (t_device t)"] eq by (simp add: device_key_def)
  then show "t_device s = t_device t \<and> t_data_ptr s = t_data_ptr t" by (metis to_string_value)
qed (simp add: device_key_def)

lemma registry_loop_extends: "registry_loop env xs seen seen_names es = Inr es' \<Longrightarrow> set es \<subseteq> set es'"
  by (induction env xs seen seen_names es rule: registry_loop.induct)
    (auto simp: Let_def split: if_splits sum.splits)

lemma registry_loop_complete:
  assumes "registry_loop env xs seen seen_names es = Inr es'"
    and "(t, name) \<in> set xs" and "\<not> skipped t"
  shows "device_key t \<in> seen \<or> (\<exists>e \<in> set es'. device_key (te_tensor e) = device_key t)"
  using assms
proof (induction env xs seen seen_names es rule: registry_loop.induct)
  case (2 env t' name' rest seen seen_names es)
  consider "skipped t' \<or> device_key t' \<in> seen"
    | dtype where "\<not> skipped t'" "device_key t' \<notin> seen"
        "dtype_python_name (e_is_float8 env) (e_dtype_name env) (t_dtype t') = Inr dtype"
    using 2(4) by (auto simp: Let_def split: if_splits sum.splits)
  then show ?case
  proof cases
    case 1
    then show ?thesis using 2 by (auto simp: Let_def split: if_splits)
  next
    case (2 dtype)
    let ?e = "\<lparr> te_name = name', te_tensor = t', te_dtype = dtype, te_shape = t_sizes t',
        te_num_bytes = t_numel t' * t_element_size t' \<rparr>"
    have loop: "registry_loop env rest (insert (device_key t') seen) (insert name' seen_names) (es @ [?e]) = Inr es'"
      and "name' \<noteq> []" "name' \<notin> seen_names"
      using "2.prems"(1) 2 by (simp_all add: Let_def split: if_splits)
    from registry_loop_extends [OF loop] have "?e \<in> set es'" by simp
    then have "\<exists>e \<in> set es'. device_key (te_tensor e) = device_key t'" by force
    then show ?thesis
      using "2.IH"(3) [OF \<open>name' \<noteq> []\<close> \<open>name' \<notin> seen_names\<close> refl 2(1, 2) refl 2(3) loop] "2.prems"(2, 3) by auto
  qed
qed simp

text \<open>C23. The registry lists usable tensors only, in the order of their names, which do not repeat; no
  storage appears twice and every usable tensor's storage appears.\<close>

theorem registry_contents:
  assumes "build_registry env tensors names = Inr reg"
  shows "sorted (map te_name (entries reg)) \<and> distinct (map te_name (entries reg)) \<and>
    distinct (map (\<lambda>e. (t_device (te_tensor e), t_data_ptr (te_tensor e))) (entries reg)) \<and>
    (\<forall>e \<in> set (entries reg). entry_of (set (zip tensors names)) e) \<and>
    (\<forall>t \<in> set tensors. \<not> skipped t \<longrightarrow>
       (\<exists>e \<in> set (entries reg). t_device (te_tensor e) = t_device t \<and> t_data_ptr (te_tensor e) = t_data_ptr t))"
proof -
  note reg = build_registry_entries [OF assms]
  obtain es where es: "registry_loop env (zip tensors names) {} {} [] = Inr es" "set (entries reg) = set es"
    and len: "length tensors = length names"
    using assms by (auto simp: build_registry_def Let_def split: if_splits sum.splits)
  have "\<exists>e \<in> set (entries reg). t_device (te_tensor e) = t_device t \<and> t_data_ptr (te_tensor e) = t_data_ptr t"
    if t: "t \<in> set tensors" "\<not> skipped t" for t
  proof -
    obtain name where "(t, name) \<in> set (zip tensors names)"
      using t(1) len by (metis in_set_impl_in_set_zip1)
    then show ?thesis using registry_loop_complete [OF es(1) _ t(2)] by (auto simp: es(2) device_key_eq)
  qed
  moreover have "distinct (map (\<lambda>e. (t_device (te_tensor e), t_data_ptr (te_tensor e))) (entries reg))"
    using reg(3) by (auto simp: distinct_map inj_on_def device_key_eq)
  ultimately show ?thesis using reg by blast
qed

text \<open>When the names are non-empty and distinct and no two usable tensors share storage, the loop
  collects an entry for every usable tensor.\<close>

definition registry_entry :: "'p proof_env \<Rightarrow> tensor \<times> bytes \<Rightarrow> tensor_entry" where
  "registry_entry env = (\<lambda>(t, name). \<lparr> te_name = name, te_tensor = t,
     te_dtype = (case dtype_python_name (e_is_float8 env) (e_dtype_name env) (t_dtype t) of Inl _ \<Rightarrow> [] | Inr d \<Rightarrow> d),
     te_shape = t_sizes t, te_num_bytes = t_numel t * t_element_size t \<rparr>)"

fun usable :: "(tensor \<times> bytes) list \<Rightarrow> (tensor \<times> bytes) list" where
  "usable [] = []"
| "usable ((t, name) # xs) = (if skipped t then usable xs else (t, name) # usable xs)"

definition dtype_ok :: "'p proof_env \<Rightarrow> tensor \<times> bytes \<Rightarrow> bool" where
  "dtype_ok env x \<longleftrightarrow> \<not> isl (dtype_python_name (e_is_float8 env) (e_dtype_name env) (t_dtype (fst x)))"

abbreviation storage_key :: "tensor \<times> bytes \<Rightarrow> bytes" where
  "storage_key x \<equiv> device_key (fst x)"

lemma usable_filter: "usable xs = filter (\<lambda>x. \<not> skipped (fst x)) xs"
  by (induction xs rule: usable.induct) simp_all

lemma dtype_error: "dtype_python_name f n t = Inl e \<Longrightarrow> e = Unsupported_dtype"
  by (auto simp: dtype_python_name_def split: if_splits)

lemma registry_loop_all:
  assumes "distinct (map snd xs)" "[] \<notin> set (map snd xs)" "set (map snd xs) \<inter> seen_names = {}"
    and "distinct (map storage_key (usable xs))" "set (map storage_key (usable xs)) \<inter> seen = {}"
  shows "registry_loop env xs seen seen_names es =
    (if list_all (dtype_ok env) (usable xs) then Inr (es @ map (registry_entry env) (usable xs)) else Inl Unsupported_dtype)"
  using assms
proof (induction env xs seen seen_names es rule: registry_loop.induct)
  case (2 env t name rest seen seen_names es)
  have head: "name \<noteq> []" "name \<notin> seen_names" using 2(5, 6) by auto
  have names: "distinct (map snd rest)" "[] \<notin> set (map snd rest)" "set (map snd rest) \<inter> insert name seen_names = {}"
    using 2(4-6) by simp_all
  show ?case
  proof (cases "skipped t")
    case True
    have "registry_loop env rest seen (insert name seen_names) es =
        (if list_all (dtype_ok env) (usable rest)
         then Inr (es @ map (registry_entry env) (usable rest)) else Inl Unsupported_dtype)"
      by (rule 2(1) [OF head refl True names]) (use 2(7, 8) True in simp_all)
    then show ?thesis using True head by (simp add: Let_def)
  next
    case False
    have new: "device_key t \<notin> seen" using 2(8) False by simp
    show ?thesis
    proof (cases "dtype_python_name (e_is_float8 env) (e_dtype_name env) (t_dtype t)")
      case (Inl e)
      then have "\<not> dtype_ok env (t, name)" by (simp add: dtype_ok_def)
      then show ?thesis using head new False Inl dtype_error [OF Inl] by (simp add: Let_def)
    next
      case (Inr d)
      let ?e = "registry_entry env (t, name)"
      have e: "?e = \<lparr> te_name = name, te_tensor = t, te_dtype = d, te_shape = t_sizes t,
          te_num_bytes = t_numel t * t_element_size t \<rparr>" by (simp add: registry_entry_def Inr)
      have "registry_loop env rest (insert (device_key t) seen) (insert name seen_names) (es @ [?e]) =
          (if list_all (dtype_ok env) (usable rest)
           then Inr ((es @ [?e]) @ map (registry_entry env) (usable rest)) else Inl Unsupported_dtype)"
        unfolding e by (rule 2(3) [OF head refl False new refl Inr names]) (use 2(7, 8) False in simp_all)
      moreover have "dtype_ok env (t, name)" by (simp add: dtype_ok_def Inr)
      ultimately show ?thesis using head new False Inr by (simp add: Let_def e)
    qed
  qed
qed simp

lemma build_registry_all:
  assumes "length tensors = length names" "distinct names" "[] \<notin> set names"
    and "distinct (map storage_key (usable (zip tensors names)))"
  shows "build_registry env tensors names =
    (if list_all (dtype_ok env) (usable (zip tensors names)) then
       let es = sort_key te_name (map (registry_entry env) (usable (zip tensors names))) in
       Inr \<lparr> entries = es, registry_hash = blake3_hexdigest (e_blake3 env) (encode (CArr (map entry_metadata es))) \<rparr>
     else Inl Unsupported_dtype)"
  using assms by (simp add: build_registry_def registry_loop_all)

text \<open>C24. The registry, and with it the registry hash, does not depend on the order in which the tensors
  are listed, as long as no two usable tensors share storage.\<close>

theorem registry_order_irrelevant:
  assumes "mset (zip tensors names) = mset (zip tensors' names')"
    and "length tensors = length names" "length tensors' = length names'"
    and "distinct names" "[] \<notin> set names"
    and "distinct (map storage_key (usable (zip tensors names)))"
  shows "build_registry env tensors names = build_registry env tensors' names'"
proof -
  let ?xs = "zip tensors names" and ?ys = "zip tensors' names'"
  have us: "mset (usable ?xs) = mset (usable ?ys)" using assms(1) by (simp add: usable_filter mset_filter)
  have names: "mset names = mset names'"
    using arg_cong [OF assms(1), of "image_mset snd"] assms(2, 3) by (simp flip: mset_map)
  have "distinct names'" "[] \<notin> set names'"
    using assms(4, 5) mset_eq_imp_distinct_iff [OF names] mset_eq_setD [OF names] by simp_all
  moreover have "distinct (map storage_key (usable ?ys))"
    using assms(6) mset_eq_imp_distinct_iff [of "map storage_key (usable ?xs)" "map storage_key (usable ?ys)"] us
    by (simp only: mset_map)
  moreover have "list_all (dtype_ok env) (usable ?xs) = list_all (dtype_ok env) (usable ?ys)"
    using mset_eq_setD [OF us] by (simp add: list_all_iff)
  moreover have "inj_on te_name (set (map (registry_entry env) (usable ?xs)))"
  proof -
    have "inj_on snd (set ?xs)" using assms(2, 4) by (metis distinct_map map_snd_zip)
    moreover have "te_name (registry_entry env x) = snd x" for x by (cases x) (simp add: registry_entry_def)
    ultimately have "inj_on (\<lambda>x. te_name (registry_entry env x)) (set ?xs)" by simp
    moreover have "set (usable ?xs) \<subseteq> set ?xs" by (auto simp: usable_filter)
    ultimately have "inj_on (te_name \<circ> registry_entry env) (set (usable ?xs))" by (simp add: comp_def inj_on_subset)
    then show ?thesis by (simp add: inj_on_imageI)
  qed
  then have "sort_key te_name (map (registry_entry env) (usable ?xs)) = sort_key te_name (map (registry_entry env) (usable ?ys))"
    using us by (intro sort_key_inj_key_eq) simp_all
  ultimately show ?thesis
    using assms(2-6) build_registry_all [of tensors names env] build_registry_all [of tensors' names' env] by presburger
qed

section \<open>What a receipt is bound to\<close>

lemma hex_digits_inj: "i < 16 \<Longrightarrow> j < 16 \<Longrightarrow> kHex ! i = kHex ! j \<Longrightarrow> i = j"
proof -
  have "distinct kHex" "length kHex = 16" by (simp_all add: kHex_def str_def)
  then show "i < 16 \<Longrightarrow> j < 16 \<Longrightarrow> kHex ! i = kHex ! j \<Longrightarrow> i = j" by (simp add: nth_eq_iff_index_eq)
qed

lemma hex_encode_inj: "hex_encode xs = hex_encode ys \<Longrightarrow> xs = ys"
proof (induction xs arbitrary: ys)
  case Nil
  then show ?case by (cases ys) (simp_all add: hex_encode_def)
next
  case (Cons x xs)
  then obtain y ys' where ys: "ys = y # ys'" by (cases ys) (simp_all add: hex_encode_def)
  have hi: "unat (drop_bit 4 b) < 16" and lo: "unat (b AND 0xf) < 16" and
    split: "unat b = 16 * unat (drop_bit 4 b) + unat (b AND 0xf)" for b :: u8
  proof -
    have m: "(0xf :: u8) = mask 4" by (simp add: mask_eq_exp_minus_1)
    have lo': "unat (b AND 0xf) = unat b mod 16"
      by (simp add: m take_bit_eq_mask [symmetric] unsigned_take_bit_eq) (simp add: take_bit_eq_mod)
    have hi': "unat (drop_bit 4 b) = unat b div 16"
      by (simp add: unat_drop_bit_eq) (simp add: drop_bit_eq_div)
    show "unat (drop_bit 4 b) < 16" using unat_u8_less [of b] by (simp add: hi' less_mult_imp_div_less)
    show "unat (b AND 0xf) < 16" by (simp add: lo')
    show "unat b = 16 * unat (drop_bit 4 b) + unat (b AND 0xf)" by (simp add: lo' hi')
  qed
  have "kHex ! unat (drop_bit 4 x) = kHex ! unat (drop_bit 4 y)" "kHex ! unat (x AND 0xf) = kHex ! unat (y AND 0xf)"
    "hex_encode xs = hex_encode ys'"
    using Cons.prems by (simp_all add: ys hex_encode_def)
  then have "unat x = unat y" "xs = ys'"
    using hex_digits_inj hi lo split Cons.IH by metis+
  then show ?case by (simp add: ys word_unat_eq_iff)
qed

text \<open>C25. Two receipts with the same token hash were made for the same output tokens, unless their
  encodings are a BLAKE3 collision; and the associated data, which enters the key derivation and the
  authentication of the box, determines worker, nonce and model.\<close>

theorem receipt_binds_context:
  assumes "\<forall>i \<in> set ids \<union> set ids'. in_i64 i" "fits64 (length ids)" "fits64 (length ids')"
    and "context_ok w" "context_ok w'" "context_ok n" "context_ok n'"
  shows "(token_hash env ids = token_hash env ids' \<longrightarrow> ids = ids' \<or>
      (encode (CArr (map CInt ids)) \<noteq> encode (CArr (map CInt ids')) \<and>
       e_blake3 env (encode (CArr (map CInt ids))) = e_blake3 env (encode (CArr (map CInt ids'))))) \<and>
    (make_aad w n m = make_aad w' n' m' \<longrightarrow> w = w' \<and> n = n' \<and> m = m')"
proof (intro conjI impI)
  let ?v = "CArr (map CInt ids)" and ?v' = "CArr (map CInt ids')"
  assume "token_hash env ids = token_hash env ids'"
  then have eq: "e_blake3 env (encode ?v) = e_blake3 env (encode ?v')"
    unfolding token_hash_def blake3_hexdigest_def by (rule hex_encode_inj)
  have canon: "canon (CArr (map CInt xs)) = CArr (map CInt xs)" for xs by simp
  have wf: "wf_value ?v" "wf_value ?v'" using assms(1-3) by auto
  show "ids = ids' \<or> encode ?v \<noteq> encode ?v' \<and> e_blake3 env (encode ?v) = e_blake3 env (encode ?v')"
  proof (cases "encode ?v = encode ?v'")
    case True
    then have "Some (?v, []) = Some (?v', [])"
      using decode_encode [OF wf(1), of "[]"] decode_encode [OF wf(2), of "[]"] unfolding canon by simp
    then show ?thesis by (simp add: inj_map_eq_map inj_def)
  qed (use eq in simp)
next
  assume aad: "make_aad w n m = make_aad w' n' m'"
  have nz: "0 \<notin> set w" "0 \<notin> set w'" "0 \<notin> set n" "0 \<notin> set n'" using assms(4-7) by (simp_all add: context_ok_def)
  from aad have "w @ 0 # (n @ 0 # m) = w' @ 0 # (n' @ 0 # m')" by (simp add: make_aad_def)
  from split_at_sep [OF nz(1, 2) this] split_at_sep [OF nz(3, 4), of m m']
  show "w = w'" "n = n'" "m = m'" by blast+
qed

section \<open>A concrete receipt\<close>

text \<open>An environment with simple functions in place of the primitives, and a request for one tensor; the
  theorems are applied to it below.\<close>

definition demo_stream :: "bytes \<Rightarrow> bytes \<Rightarrow> u32 \<Rightarrow> nat \<Rightarrow> bytes" where
  "demo_stream k n c len = replicate len 0xaa"

definition demo_mac :: "bytes \<Rightarrow> bytes \<Rightarrow> bytes" where
  "demo_mac k d = replicate 16 (word_of_nat (length d))"

definition demo_env :: "bytes proof_env" where
  "demo_env = \<lparr>
     e_blake3 = (\<lambda>m. replicate 32 (word_of_nat (length m))),
     e_is_float8 = (\<lambda>t. False), e_dtype_name = (\<lambda>t. str ''float32''),
     e_x25519_public_key = (\<lambda>a. replicate 32 1), e_x25519 = (\<lambda>a b. replicate 32 2),
     e_chacha = (\<lambda>p len k n c. case p of None \<Rightarrow> demo_stream k n c len | Some p \<Rightarrow> map2 (XOR) p (demo_stream k n c len)),
     e_poly_init = (\<lambda>k. []), e_poly_update = (\<lambda>p d. p @ d), e_poly_final = demo_mac [],
     e_getrandom = (\<lambda>i k n. Stored (replicate n 7)), e_urandom = (\<lambda>i n. None),
     e_stack = (\<lambda>n. replicate 64 0) \<rparr>"

definition demo_tensor :: "nat \<Rightarrow> tensor" where
  "demo_tensor ptr = \<lparr> t_defined = True, t_device = dev_CPU, t_strided = True, t_contiguous = True, t_numel = 5,
     t_element_size = 4, t_sizes = [5], t_dtype = KFloat, t_data_ptr = ptr, t_bytes = replicate 20 9 \<rparr>"

definition demo_request :: proof_request where
  "demo_request = \<lparr> r_tensors = [demo_tensor 64], r_names = [str ''w''], r_worker_id = str ''worker'',
     r_request_id = str ''req'', r_gateway_nonce = str ''nonce'', r_model_manifest_id = str ''model'',
     r_output_token_ids = [1, 2, 3], r_public_key = b64url_encode_nopad (replicate 32 1), r_key_id = str ''k'',
     r_num_raw_terms = 1, r_raw_term_bytes = 16 \<rparr>"

lemma demo_env_ok: "env_ok demo_env demo_stream demo_mac"
proof -
  have "fold (\<lambda>d p. p @ d) ds acc = acc @ concat ds" for ds and acc :: bytes
    by (induction ds arbitrary: acc) simp_all
  then show ?thesis
    by (simp add: env_ok_def aead_primitives_def demo_env_def demo_stream_def demo_mac_def)
qed

lemma demo_tensor_ok: "wf_tensor (demo_tensor p)" "\<not> skipped (demo_tensor p)"
  by (simp_all add: demo_tensor_def wf_tensor_def skipped_def)

lemma demo_registry:
  "build_registry demo_env [demo_tensor p] [str ''w''] =
    (let e = \<lparr> te_name = str ''w'', te_tensor = demo_tensor p, te_dtype = str ''torch.float32'', te_shape = [5], te_num_bytes = 20 \<rparr>
     in Inr \<lparr> entries = [e], registry_hash = blake3_hexdigest (e_blake3 demo_env) (encode (CArr [entry_metadata e])) \<rparr>)"
  using demo_tensor_ok
  by (simp add: build_registry_def Let_def dtype_python_name_def demo_env_def demo_tensor_def str_def)

theorem weight_windows_in_bounds_witness:
  "\<exists>reg. build_registry demo_env [demo_tensor 64] [str ''w''] = Inr reg \<and>
    (\<exists>ws. length ws = 3 \<and> (\<forall>w \<in> set ws. window_ok (entries reg) 16 w) \<and>
      terms_loop demo_env [] (entries reg) 16 3 0 [] [] =
        Inr (map window_term ws, map (window_sketch (e_blake3 demo_env)) ws))"
proof -
  obtain reg where reg: "build_registry demo_env [demo_tensor 64] [str ''w''] = Inr reg" "entries reg \<noteq> []"
    by (simp add: demo_registry Let_def)
  from weight_windows_in_bounds [OF reg, of 16 3 "[]"] reg show ?thesis
    by (simp add: demo_tensor_ok fits64_def)
qed

theorem registry_contents_witness:
  "\<exists>reg. build_registry demo_env [demo_tensor 64] [str ''w''] = Inr reg \<and>
    (\<exists>e \<in> set (entries reg). t_data_ptr (te_tensor e) = 64)"
proof -
  obtain reg where reg: "build_registry demo_env [demo_tensor 64] [str ''w''] = Inr reg"
    by (simp add: demo_registry Let_def)
  from registry_contents [OF reg] demo_tensor_ok(2) [of 64] reg show ?thesis
    by (auto simp: demo_tensor_def)
qed

theorem registry_order_irrelevant_witness:
  "build_registry demo_env [demo_tensor 64, demo_tensor 128] [str ''b'', str ''a''] =
   build_registry demo_env [demo_tensor 128, demo_tensor 64] [str ''a'', str ''b'']"
  by (rule registry_order_irrelevant)
    (auto simp: demo_tensor_ok device_key_eq, auto simp: demo_tensor_def str_def)

theorem receipt_binds_context_witness:
  "make_aad (str ''w'') (str ''n'') (str ''m'') \<noteq> make_aad (str ''wn'') (str ''m'') []"
  using receipt_binds_context [of "[]" "[]" "str ''w''" "str ''wn''" "str ''n''" "str ''m''" demo_env "str ''m''" "[]"]
  by (auto simp: context_ok_def str_def fits64_def)

lemma length_b64_le: "length (b64url_encode_nopad d) \<le> 2 * length d"
  by (induction d rule: b64url_encode_nopad.induct) (simp_all add: Let_def)

lemma demo_hexdigest: "length (blake3_hexdigest (e_blake3 demo_env) m) = 64"
  by (simp add: blake3_hexdigest_def hex_encode_def demo_env_def length_concat comp_def sum_list_replicate)

lemma demo_random: "random_bytes (e_getrandom demo_env i) (e_urandom demo_env i) n = Some (Inr (replicate n 7))"
proof -
  have "getrandom_loop (\<lambda>k n. Stored (replicate n 7)) n 0 [] = Some (replicate n 7)"
    by (subst getrandom_loop.simps, subst getrandom_loop.simps) simp
  then show ?thesis by (simp add: random_bytes_def demo_env_def)
qed

lemma demo_payload: "\<exists>payload. make_payload demo_env demo_request = Inr payload \<and> csize payload \<le> 1000"
proof -
  let ?e = "\<lparr> te_name = str ''w'', te_tensor = demo_tensor 64, te_dtype = str ''torch.float32'', te_shape = [5], te_num_bytes = 20 \<rparr>"
  let ?reg = "\<lparr> entries = [?e], registry_hash = blake3_hexdigest (e_blake3 demo_env) (encode (CArr [entry_metadata ?e])) \<rparr>"
  have reg: "build_registry demo_env [demo_tensor 64] [str ''w''] = Inr ?reg" by (simp add: demo_registry Let_def)
  obtain ws where ws: "length ws = 1" "\<forall>w \<in> set ws. window_ok [?e] 16 w"
    "terms_loop demo_env seed [?e] 16 (Suc 0) 0 [] [] = Inr (map window_term ws, map (window_sketch (e_blake3 demo_env)) ws)"
    if "seed = e_blake3 demo_env (encode (seed_material (str ''nonce'') (str ''req'') (str ''model'')
        (token_hash demo_env [1, 2, 3])))" for seed
    using registry_windows [OF reg, of 16 1] demo_tensor_ok by (fastforce simp: fits64_def)
  note ws = ws [OF refl]
  obtain off where w: "ws = [(?e, off, 16)]"
    using ws(1, 2) by (cases ws) (auto simp: window_ok_def)
  let ?sketches = "map (window_sketch (e_blake3 demo_env)) ws"
  have "make_payload demo_env demo_request = Inr (payload_map demo_env demo_request ?reg (map window_term ws) ?sketches)"
    using reg ws(3) by (simp add: make_payload_def demo_request_def Let_def)
  moreover have "csize (payload_map demo_env demo_request ?reg (map window_term ws) ?sketches) \<le> 1000"
    by (simp add: payload_map_def demo_request_def demo_hexdigest token_hash_def w window_term_def term_fields_def)
  ultimately show ?thesis by blast
qed

lemma demo_key: "load_x25519_public_key (r_public_key demo_request) = Inr (e_x25519_public_key demo_env sk)"
proof -
  have "load_x25519_public_key ([] @ b64url_encode_nopad (replicate 32 1) @ []) = Inr (replicate 32 1)"
  proof (rule load_raw_correct)
    have "replicate 32 1 = (1 :: u8) # 1 # 1 # 1 # 1 # 1 # 1 # 1 # 1 # replicate 23 1" by (simp add: numeral_eq_Suc)
    then show "take 10 (b64url_encode_nopad (replicate 32 1)) \<noteq> str ''-----BEGIN''"
      by (simp add: str_def Let_def kAlphabet_def)
  qed simp_all
  then show ?thesis by (simp add: demo_request_def demo_env_def)
qed

lemma demo_proves: "\<exists>token. dphn_prove_v2 demo_env demo_request = Some (Inr token) \<and> fits64 (length token)"
proof -
  obtain payload where payload: "make_payload demo_env demo_request = Inr payload" "csize payload \<le> 1000"
    using demo_payload by blast
  let ?r = demo_request
  let ?aad = "make_aad (r_worker_id ?r) (r_gateway_nonce ?r) (r_model_manifest_id ?r)"
  let ?key = "rfc_hkdf None (replicate 32 2) (kInfoPrefix @ ?aad) 32"
  let ?ct = "chacha20poly1305_ietf_encrypt (e_chacha demo_env) (e_poly_init demo_env) (e_poly_update demo_env)
      (e_poly_final demo_env) ?key (replicate 12 7) ?aad (encode payload)"
  let ?v = "make_envelope (r_key_id ?r) (replicate 32 1) (replicate 12 7) ?ct"
  have "\<And>n. length (e_stack demo_env n) = 64" by (simp add: demo_env_def)
  moreover have "x25519_shared_secret (e_x25519 demo_env) a b = (replicate 32 2, True)" for a b
    by (simp add: shared_secret_iff demo_env_def)
  moreover have "x25519_public_key (e_x25519_public_key demo_env) a = replicate 32 1" for a
    by (simp add: x25519_public_key_def demo_env_def)
  ultimately have sealed: "seal demo_env ?r (encode payload) (replicate 32 7) (replicate 32 1) =
      Some (Inr (b64url_encode_nopad (encode ?v)))"
    by (simp add: seal_def hkdf_correct demo_random Let_def)
  have "load_x25519_public_key (r_public_key ?r) = Inr (replicate 32 1)"
    using demo_key by (simp add: demo_env_def)
  moreover have "check_request ?r = None"
    by (simp add: check_request_def demo_request_def context_ok_def str_def)
  ultimately have "dphn_prove_v2 demo_env ?r = Some (Inr (b64url_encode_nopad (encode ?v)))"
    by (simp add: dphn_prove_v2_def payload demo_random sealed)
  moreover have "length ?ct = length (encode payload) + 16"
    using aead_open_correct demo_env_ok unfolding env_ok_def by blast
  then have "csize ?v \<le> 2000"
    using length_encode_le [of payload] payload(2) by (simp add: make_envelope_def demo_request_def)
  then have "length (b64url_encode_nopad (encode ?v)) \<le> 4000"
    using length_b64_le [of "encode ?v"] length_encode_le [of ?v] by linarith
  ultimately show ?thesis by (intro exI conjI) (assumption, simp add: fits64_def)
qed

theorem receipt_opens_witness:
  "\<exists>token payload. dphn_prove_v2 demo_env demo_request = Some (Inr token) \<and>
    make_payload demo_env demo_request = Inr payload \<and>
    open_receipt (e_x25519 demo_env) demo_stream demo_mac [] (make_aad (str ''worker'') (str ''nonce'') (str ''model'')) token =
      Some (encode payload)"
proof -
  obtain token where token: "dphn_prove_v2 demo_env demo_request = Some (Inr token)" "fits64 (length token)"
    using demo_proves by blast
  from receipt_opens [OF demo_env_ok token demo_key] token show ?thesis
    by (simp add: demo_request_def demo_tensor_ok fits64_def) blast
qed

end
