(* ===== verification/Scalar_Type.thy ===== *)
theory Scalar_Type
  imports Bytes Complex_Main
begin

text \<open>
  \<open>ScalarType\<close> of \<open>src/csrc/core/scalar_type.hpp\<close>: the descriptor of sub-byte integer and floating
  point types, its packed 64-bit identifier, the largest and smallest representable values, and its name.

  Members keep their C++ widths; \<open>int32_t bias\<close> is an integer whose range is a well-formedness
  condition.  A \<open>double\<close> is its 64-bit pattern; \<open>double_value\<close> gives the number it denotes.  A failed
  \<open>STD_TORCH_CHECK\<close> and signed overflow are \<open>None\<close>.
\<close>

section \<open>The descriptor\<close>

datatype nan_repr = NAN_NONE | NAN_IEEE_754 | NAN_EXTD_RANGE_MAX_MIN | NAN_REPR_OTHER u8

record scalar_type =
  exponent :: u8
  mantissa :: u8
  is_signed :: bool
  bias :: int
  finite_values_only :: bool
  nan_repr :: nan_repr

definition st_int :: "u8 \<Rightarrow> int \<Rightarrow> scalar_type" where
  "st_int size_bits b = \<lparr> exponent = 0, mantissa = size_bits - 1, is_signed = True, bias = b,
     finite_values_only = False, nan_repr = NAN_IEEE_754 \<rparr>"

definition st_uint :: "u8 \<Rightarrow> int \<Rightarrow> scalar_type" where
  "st_uint size_bits b = \<lparr> exponent = 0, mantissa = size_bits, is_signed = False, bias = b,
     finite_values_only = False, nan_repr = NAN_IEEE_754 \<rparr>"

definition float_IEEE754 :: "u8 \<Rightarrow> u8 \<Rightarrow> scalar_type option" where
  "float_IEEE754 e m =
     (if \<not> (m > 0 \<and> e > 0) then None
      else Some \<lparr> exponent = e, mantissa = m, is_signed = True, bias = 0,
             finite_values_only = False, nan_repr = NAN_IEEE_754 \<rparr>)"

definition nan_code :: "nan_repr \<Rightarrow> u8" where
  "nan_code r = (case r of NAN_NONE \<Rightarrow> 0 | NAN_IEEE_754 \<Rightarrow> 1 | NAN_EXTD_RANGE_MAX_MIN \<Rightarrow> 2 | NAN_REPR_OTHER c \<Rightarrow> c)"

definition st_float :: "u8 \<Rightarrow> u8 \<Rightarrow> bool \<Rightarrow> nan_repr \<Rightarrow> scalar_type option" where
  "st_float e m fin r =
     (if \<not> nan_code r < 3 then None
      else if \<not> (m > 0 \<and> e > 0) then None
      else if r = NAN_IEEE_754 then None
      else Some \<lparr> exponent = e, mantissa = m, is_signed = True, bias = 0, finite_values_only = fin, nan_repr = r \<rparr>)"

section \<open>Identifiers\<close>

text \<open>The members in constructor order, each converted to 64 bits, with the widths of
  \<open>member_id_field_width\<close>.\<close>

definition members :: "scalar_type \<Rightarrow> (nat \<times> u64) list" where
  "members t =
     [(8, ucast (exponent t)), (8, ucast (mantissa t)), (1, of_bool (is_signed t)), (32, word_of_int (bias t)),
      (1, of_bool (finite_values_only t)), (8, ucast (nan_code (nan_repr t)))]"

fun or_and_advance :: "u64 \<times> nat \<Rightarrow> nat \<times> u64 \<Rightarrow> u64 \<times> nat" where
  "or_and_advance (i, bit_offset) (bits, member) =
     (i OR push_bit bit_offset (member AND (push_bit bits 1 - 1)), bit_offset + bits)"

definition st_id :: "scalar_type \<Rightarrow> u64" where
  "st_id t = fst (foldl or_and_advance (0, 0) (members t))"

fun extract_and_advance :: "u64 \<Rightarrow> u64 list \<times> nat \<Rightarrow> nat \<Rightarrow> u64 list \<times> nat" where
  "extract_and_advance i (tuple, bit_offset) bits =
     (tuple @ [drop_bit bit_offset i AND (push_bit bits 1 - 1)], bit_offset + bits)"

definition nan_of_code :: "u8 \<Rightarrow> nan_repr" where
  "nan_of_code c = (if c = 0 then NAN_NONE else if c = 1 then NAN_IEEE_754 else if c = 2 then NAN_EXTD_RANGE_MAX_MIN
                    else NAN_REPR_OTHER c)"

definition from_id :: "u64 \<Rightarrow> scalar_type" where
  "from_id i =
     (let v = fst (foldl (extract_and_advance i) ([], 0) [8, 8, 1, 32, 1, 8])
      in \<lparr> exponent = ucast (v ! 0), mantissa = ucast (v ! 1), is_signed = (v ! 2 \<noteq> 0), bias = i32 (uint (v ! 3)),
           finite_values_only = (v ! 4 \<noteq> 0), nan_repr = nan_of_code (ucast (v ! 5)) \<rparr>)"

section \<open>Queries\<close>

definition mbits :: "scalar_type \<Rightarrow> nat" where
  "mbits t = unat (mantissa t)"

definition ebits :: "scalar_type \<Rightarrow> nat" where
  "ebits t = unat (exponent t)"

definition size_bits :: "scalar_type \<Rightarrow> int" where
  "size_bits t = int (mbits t) + int (ebits t) + of_bool (is_signed t)"

definition is_floating_point :: "scalar_type \<Rightarrow> bool" where
  "is_floating_point t \<longleftrightarrow> exponent t > 0"

definition is_ieee_754 :: "scalar_type \<Rightarrow> bool" where
  "is_ieee_754 t \<longleftrightarrow> is_floating_point t \<and> \<not> finite_values_only t \<and> nan_repr t = NAN_IEEE_754"

definition has_nans :: "scalar_type \<Rightarrow> bool" where
  "has_nans t \<longleftrightarrow> is_floating_point t \<and> nan_repr t \<noteq> NAN_NONE"

definition has_infs :: "scalar_type \<Rightarrow> bool" where
  "has_infs t \<longleftrightarrow> is_floating_point t \<and> \<not> finite_values_only t"

definition has_bias :: "scalar_type \<Rightarrow> bool" where
  "has_bias t \<longleftrightarrow> bias t \<noteq> 0"

section \<open>Extreme values\<close>

datatype num = Int64 int | Double u64

definition floating_point_max :: "scalar_type \<Rightarrow> u64 option" where
  "floating_point_max t =
     (let e = ebits t; m = mbits t;
          extd = (nan_repr t = NAN_EXTD_RANGE_MAX_MIN) in
      if \<not> (m \<le> 52 \<and> e \<le> 11) then None
      else
        let max_mantissa = push_bit m 1 - 1;
            max_mantissa = (if extd then max_mantissa - 1 else max_mantissa);
            max_exponent = push_bit e 1 - 2 in
        if (extd \<or> nan_repr t = NAN_NONE) \<and> \<not> e < 11 then None
        else
          let max_exponent = (if extd \<or> nan_repr t = NAN_NONE then max_exponent + 1 else max_exponent);
              exponent_bias = push_bit (e - 1) 1 - 1;
              exponent_bias_double = push_bit 10 1 - 1;
              max_exponent_double = max_exponent - exponent_bias + exponent_bias_double
          in Some (push_bit (52 - m) max_mantissa OR push_bit 52 max_exponent_double))"

text \<open>\<open>int64_t(1) << 63\<close> is the smallest \<open>int64_t\<close>, and the subtraction of one from it overflows.\<close>

definition sub64 :: "int \<Rightarrow> int \<Rightarrow> num option" where
  "sub64 a b = (if in_i64 (a - b) then Some (Int64 (a - b)) else None)"

definition raw_max :: "scalar_type \<Rightarrow> num option" where
  "raw_max t =
     (if is_floating_point t then map_option Double (floating_point_max t)
      else if \<not> (size_bits t < 64 \<or> size_bits t = 64 \<and> is_signed t) then None
      else sub64 (i64 (2 ^ mbits t)) 1)"

definition raw_min :: "scalar_type \<Rightarrow> num option" where
  "raw_min t =
     (if is_floating_point t then
        (if \<not> is_signed t then None
         else map_option (\<lambda>max_raw. Double (max_raw OR push_bit 63 1)) (floating_point_max t))
      else if \<not> (\<not> is_signed t \<or> size_bits t \<le> 64) then None
      else if is_signed t then Some (Int64 ((- (2 ^ 63)) div 2 ^ nat (64 - size_bits t)))
      else Some (Int64 0))"

text \<open>The subtraction of the bias.  On doubles it is \<open>fsub\<close>, the machine's subtraction of an integer.\<close>

definition sub_bias :: "(u64 \<Rightarrow> int \<Rightarrow> u64) \<Rightarrow> scalar_type \<Rightarrow> num \<Rightarrow> num option" where
  "sub_bias fsub t x = (case x of Int64 i \<Rightarrow> sub64 i (bias t) | Double d \<Rightarrow> Some (Double (fsub d (bias t))))"

definition st_max :: "(u64 \<Rightarrow> int \<Rightarrow> u64) \<Rightarrow> scalar_type \<Rightarrow> num option" where
  "st_max fsub t = Option.bind (raw_max t) (sub_bias fsub t)"

definition st_min :: "(u64 \<Rightarrow> int \<Rightarrow> u64) \<Rightarrow> scalar_type \<Rightarrow> num option" where
  "st_min fsub t = Option.bind (raw_min t) (sub_bias fsub t)"

section \<open>Names\<close>

definition to_string_int :: "int \<Rightarrow> bytes" where
  "to_string_int i = (if i < 0 then str ''-'' @ to_string (nat (- i)) else to_string (nat i))"

definition st_str :: "scalar_type \<Rightarrow> bytes" where
  "st_str t =
     (if is_floating_point t then
        (let ret = str ''float'' @ to_string_int (size_bits t) @ str ''_e'' @ to_string (ebits t) @
               str ''m'' @ to_string (mbits t) in
         if \<not> is_ieee_754 t then
           let ret = (if finite_values_only t then ret @ str ''f'' else ret)
           in if nan_repr t \<noteq> NAN_NONE then ret @ str ''n'' else ret
         else ret)
      else
        (let ret = (if is_signed t then str ''int'' else str ''uint'') @ to_string_int (size_bits t)
         in if has_bias t then ret @ str ''b'' @ to_string_int (bias t) else ret))"

definition st_eq :: "scalar_type \<Rightarrow> scalar_type \<Rightarrow> bool" where
  "st_eq s t \<longleftrightarrow> mantissa s = mantissa t \<and> exponent s = exponent t \<and> bias s = bias t \<and> is_signed s = is_signed t \<and>
     finite_values_only s = finite_values_only t \<and> nan_repr s = nan_repr t"

section \<open>The predefined types\<close>

definition kS4 :: scalar_type where "kS4 = st_int 4 0"
definition kU4 :: scalar_type where "kU4 = st_uint 4 0"
definition kU4B8 :: scalar_type where "kU4B8 = st_uint 4 8"
definition kS8 :: scalar_type where "kS8 = st_int 8 0"
definition kU8 :: scalar_type where "kU8 = st_uint 8 0"
definition kU8B128 :: scalar_type where "kU8B128 = st_uint 8 128"
definition kFE2M1f :: "scalar_type option" where "kFE2M1f = st_float 2 1 True NAN_NONE"
definition kFE3M2f :: "scalar_type option" where "kFE3M2f = st_float 3 2 True NAN_NONE"
definition kFE2M3f :: "scalar_type option" where "kFE2M3f = st_float 2 3 True NAN_NONE"
definition kFE8M0fnu :: scalar_type where
  "kFE8M0fnu = \<lparr> exponent = 8, mantissa = 0, is_signed = False, bias = 0, finite_values_only = True,
     nan_repr = NAN_EXTD_RANGE_MAX_MIN \<rparr>"
definition kFE5M2 :: "scalar_type option" where "kFE5M2 = float_IEEE754 5 2"
definition kFE8M7 :: "scalar_type option" where "kFE8M7 = float_IEEE754 8 7"
definition kFE5M10 :: "scalar_type option" where "kFE5M10 = float_IEEE754 5 10"

section \<open>The identifier is unique\<close>

definition wf_type :: "scalar_type \<Rightarrow> bool" where
  "wf_type t \<longleftrightarrow> in_i32 (bias t) \<and> (\<forall>c. nan_repr t = NAN_REPR_OTHER c \<longrightarrow> 3 \<le> c)"

lemma field_mask: "push_bit n 1 - 1 = (mask n :: u64)"
  by (simp add: mask_eq_exp_minus_1 push_bit_of_1)

lemma field_extract:
  fixes i v :: u64
  assumes "\<And>n. n < w \<Longrightarrow> bit i (off + n) \<longleftrightarrow> bit v n"
  shows "drop_bit off i AND mask w = v AND mask w"
  by (rule bit_word_eqI) (use assms in \<open>auto simp: bit_and_iff bit_drop_bit_eq bit_mask_iff\<close>)

lemma bit_field:
  fixes v :: u64
  assumes "n < 64"
  shows "bit (push_bit off (v AND mask w)) n \<longleftrightarrow> off \<le> n \<and> n < off + w \<and> bit v (n - off)"
  using assms by (auto simp: bit_push_bit_iff bit_and_iff bit_mask_iff)

text \<open>Bit \<open>n\<close> of the identifier belongs to the one field whose range contains it.\<close>

lemma id_bits:
  fixes t defines "v \<equiv> \<lambda>k. snd (members t ! k)"
  assumes "n < 64"
  shows "bit (st_id t) n \<longleftrightarrow>
    (n < 8 \<and> bit (v 0) n \<or> 8 \<le> n \<and> n < 16 \<and> bit (v 1) (n - 8) \<or> 16 \<le> n \<and> n < 17 \<and> bit (v 2) (n - 16) \<or>
     17 \<le> n \<and> n < 49 \<and> bit (v 3) (n - 17) \<or> 49 \<le> n \<and> n < 50 \<and> bit (v 4) (n - 49) \<or>
     50 \<le> n \<and> n < 58 \<and> bit (v 5) (n - 50))"
proof -
  have "members t = [(8, v 0), (8, v 1), (1, v 2), (32, v 3), (1, v 4), (8, v 5)]"
    by (simp add: v_def members_def)
  then have "st_id t = 0 OR push_bit 0 (v 0 AND mask 8) OR push_bit 8 (v 1 AND mask 8) OR push_bit 16 (v 2 AND mask 1) OR
      push_bit 17 (v 3 AND mask 32) OR push_bit 49 (v 4 AND mask 1) OR push_bit 50 (v 5 AND mask 8)"
    unfolding st_id_def by (simp only: foldl.simps or_and_advance.simps field_mask fst_conv or.assoc) simp
  then show ?thesis by (simp only: bit_or_iff bit_field [OF assms(2)]) simp
qed

lemma from_id_fields:
  "fst (foldl (extract_and_advance (st_id t)) ([], 0) [8, 8, 1, 32, 1, 8]) =
    map (\<lambda>(w, v). v AND mask w) (members t)"
proof -
  have "drop_bit 0 (st_id t) AND mask 8 = snd (members t ! 0) AND mask 8"
    "drop_bit 8 (st_id t) AND mask 8 = snd (members t ! 1) AND mask 8"
    "drop_bit 16 (st_id t) AND mask 1 = snd (members t ! 2) AND mask 1"
    "drop_bit 17 (st_id t) AND mask 32 = snd (members t ! 3) AND mask 32"
    "drop_bit 49 (st_id t) AND mask 1 = snd (members t ! 4) AND mask 1"
    "drop_bit 50 (st_id t) AND mask 8 = snd (members t ! 5) AND mask 8"
    by (rule field_extract, simp add: id_bits)+
  then show ?thesis by (simp add: members_def field_mask [symmetric])
qed

lemma ucast_mask8: "ucast (ucast (x :: u8) AND mask 8 :: u64) = x"
  by (rule bit_word_eqI) (auto simp: bit_simps dest: bit_imp_le_length)

lemma i32_mask:
  assumes "in_i32 x"
  shows "i32 (uint (word_of_int x AND mask 32 :: u64)) = x"
proof -
  have "uint (word_of_int x AND mask 32 :: u64) = take_bit 32 x"
    by (simp add: take_bit_eq_mask [symmetric] unsigned_take_bit_eq uint_word_of_int_eq)
  then show ?thesis using assms by (simp add: i32_def in_i32_def signed_take_bit_take_bit signed_take_bit_int_eq_self_iff)
qed

text \<open>C33. Unpacking the identifier of a scalar type gives the type back, so that identifiers are unique.\<close>

theorem scalar_type_id_round_trip:
  assumes "wf_type t"
  shows "from_id (st_id t) = t"
proof -
  have "nan_of_code (nan_code (nan_repr t)) = nan_repr t"
    using assms by (cases "nan_repr t") (auto simp: nan_of_code_def nan_code_def wf_type_def word_le_nat_alt)
  moreover have "(of_bool b AND mask 1 :: u64) \<noteq> 0 \<longleftrightarrow> b" for b by (cases b) simp_all
  ultimately show ?thesis
    using assms
    unfolding from_id_def from_id_fields Let_def
    by (simp add: members_def ucast_mask8 i32_mask wf_type_def)
qed

theorem scalar_type_id_round_trip_witness: "from_id (st_id kU4B8) = kU4B8"
  by (rule scalar_type_id_round_trip) (simp add: wf_type_def kU4B8_def st_uint_def in_i32_def)

section \<open>Integer types\<close>

text \<open>The number that a bit pattern of an integer type stands for: two's complement if signed, less the
  bias.\<close>

definition int_value :: "scalar_type \<Rightarrow> nat \<Rightarrow> int" where
  "int_value t code =
     (if is_signed t \<and> 2 ^ mbits t \<le> code then int code - 2 ^ (mbits t + 1) else int code) - bias t"

lemma nat_less_pow2: "c < 2 ^ k \<longleftrightarrow> int c < 2 ^ k"
  by (metis of_nat_less_iff of_nat_numeral of_nat_power)

lemma ebits_0 [simp]: "exponent t = 0 \<Longrightarrow> ebits t = 0"
  by (simp add: ebits_def)

lemma signed_patterns: "(\<lambda>c. if 2 ^ m \<le> c then int c - 2 ^ (m + 1) else int c) ` {..<2 ^ (m + 1)} = {- (2 ^ m)..2 ^ m - 1}"
proof (intro equalityI subsetI)
  fix x assume "x \<in> (\<lambda>c. if 2 ^ m \<le> c then int c - 2 ^ (m + 1) else int c) ` {..<2 ^ (m + 1)}"
  then obtain c where c: "c < 2 ^ (m + 1)" "x = (if 2 ^ m \<le> c then int c - 2 ^ (m + 1) else int c)"
    by (auto simp only: image_iff lessThan_iff)
  have "int c < 2 ^ (m + 1)" "2 ^ m \<le> c \<Longrightarrow> 2 ^ m \<le> int c" "\<not> 2 ^ m \<le> c \<Longrightarrow> int c < 2 ^ m"
    using c(1) by (simp_all only: nat_less_pow2 not_le) (simp add: not_less flip: nat_less_pow2)
  then show "x \<in> {- (2 ^ m)..2 ^ m - 1}" using c(2) by (auto simp: power_add)
next
  fix x :: int assume x: "x \<in> {- (2 ^ m)..2 ^ m - 1}"
  let ?c = "if x < 0 then nat (x + 2 ^ (m + 1)) else nat x"
  have p: "(2 :: int) ^ (m + 1) = 2 * 2 ^ m" "0 < (2 :: int) ^ m" by simp_all
  have "int ?c < 2 ^ (m + 1)" using x p by auto
  then have "?c < 2 ^ (m + 1)" by (simp only: nat_less_pow2)
  moreover have "2 ^ m \<le> ?c \<longleftrightarrow> x < 0"
    unfolding not_less [symmetric] nat_less_pow2 using x p by auto
  ultimately show "x \<in> (\<lambda>c. if 2 ^ m \<le> c then int c - 2 ^ (m + 1) else int c) ` {..<2 ^ (m + 1)}"
    using x p by (intro image_eqI [of _ _ ?c]) auto
qed

lemma unsigned_patterns: "int ` {..<2 ^ m} = {0..2 ^ m - 1}"
proof -
  have "int ` {..<2 ^ m} = {0..<int (2 ^ m)}" by (simp add: image_int_atLeastLessThan flip: atLeast0LessThan)
  then show ?thesis by auto
qed

lemma int_values:
  "int_value t ` {..<2 ^ nat (size_bits t)} =
     {(if is_signed t then - (2 ^ mbits t) else 0) - bias t..2 ^ mbits t - 1 - bias t}"
  if "exponent t = 0"
proof -
  let ?m = "mbits t"
  have shift: "(\<lambda>x. f x - bias t) ` A = (\<lambda>y. y - bias t) ` (f ` A)" for f :: "nat \<Rightarrow> int" and A by auto
  have range: "(\<lambda>y. y - bias t) ` {a..b} = {a - bias t..b - bias t}" for a b :: int
    by (simp add: image_minus_const_atLeastAtMost' flip: diff_conv_add_uminus)
  show ?thesis
  proof (cases "is_signed t")
    case True
    then have "nat (size_bits t) = ?m + 1" using that by (simp add: size_bits_def)
    moreover have "int_value t = (\<lambda>c. (if 2 ^ ?m \<le> c then int c - 2 ^ (?m + 1) else int c) - bias t)"
      using True by (simp add: int_value_def fun_eq_iff)
    ultimately show ?thesis using True by (simp only: shift signed_patterns range if_True)
  next
    case False
    then have "nat (size_bits t) = ?m" using that by (simp add: size_bits_def)
    moreover have "int_value t = (\<lambda>c. int c - bias t)" using False by (simp add: int_value_def fun_eq_iff)
    ultimately show ?thesis using False by (simp only: shift unsigned_patterns range if_False)
  qed
qed

lemma in_i64_small:
  "0 < p \<Longrightarrow> p \<le> 4611686018427387904 \<Longrightarrow> in_i32 b \<Longrightarrow>
    in_i64 p \<and> in_i64 (p - 1) \<and> in_i64 (p - 1 - b) \<and> in_i64 (- p - b)"
  by (auto simp: in_i64_def in_i32_def)

lemma pow2_bounds: "(0 :: int) < 2 ^ m" "m \<le> 62 \<Longrightarrow> (2 :: int) ^ m \<le> 4611686018427387904"
  using power_increasing [of m 62 "2 :: int"] by simp_all

lemma int_size: "exponent t = 0 \<Longrightarrow> size_bits t = int (mbits t) + of_bool (is_signed t)"
  by (simp add: size_bits_def)

lemma int_max_value:
  assumes "exponent t = 0" "in_i32 (bias t)" "mbits t \<le> 62"
  shows "st_max fsub t = Some (Int64 (2 ^ mbits t - 1 - bias t))"
  using assms in_i64_small [OF pow2_bounds(1) pow2_bounds(2) [OF assms(3)] assms(2)]
  by (simp add: st_max_def raw_max_def sub_bias_def sub64_def is_floating_point_def int_size)

lemma int_max_overflows:
  assumes "exponent t = 0" "mbits t = 63"
  shows "st_max fsub t = None"
  using assms
  by (simp add: st_max_def raw_max_def sub64_def is_floating_point_def i64_def in_i64_def signed_take_bit_eq_take_bit_shift take_bit_eq_mod)

lemma int_min_value:
  assumes "exponent t = 0" "in_i32 (bias t)" "mbits t \<le> 62"
  shows "st_min fsub t = Some (Int64 ((if is_signed t then - (2 ^ mbits t) else 0) - bias t))"
proof (cases "is_signed t")
  case True
  let ?m = "mbits t"
  have "(2 :: int) ^ ?m * 2 ^ (63 - ?m) = 9223372036854775808" using assms(3) by (simp flip: power_add)
  moreover have "nat (63 - int ?m) = 63 - ?m" by simp
  ultimately have raw: "- 9223372036854775808 div (2 :: int) ^ nat (63 - int ?m) = - (2 ^ ?m)"
    by (metis minus_mult_left nonzero_mult_div_cancel_right power_not_zero zero_neq_numeral)
  then show ?thesis
    using assms True in_i64_small [OF pow2_bounds(1) pow2_bounds(2) [OF assms(3)] assms(2)]
    by (simp add: st_min_def raw_min_def sub_bias_def sub64_def is_floating_point_def int_size)
next
  case False
  have "in_i64 (- bias t)" using assms(2) by (auto simp: in_i64_def in_i32_def)
  then show ?thesis using False assms(1) by (simp add: st_min_def raw_min_def sub_bias_def sub64_def is_floating_point_def)
qed

text \<open>C34. For an integer type with at most 62 bits besides the sign, and any 32-bit bias, the numbers that its bit patterns stand for
  are exactly those between \<open>min()\<close> and \<open>max()\<close>, the bias taken into account.  With 63 such bits the computation of \<open>max()\<close> overflows,
  although its check admits the type.\<close>

theorem integer_type_range:
  assumes "exponent t = 0" "in_i32 (bias t)"
  shows "(mbits t \<le> 62 \<longrightarrow> (\<exists>lo hi. st_min fsub t = Some (Int64 lo) \<and> st_max fsub t = Some (Int64 hi) \<and>
      int_value t ` {..<2 ^ nat (size_bits t)} = {lo..hi})) \<and>
    (mbits t = 63 \<longrightarrow> (size_bits t < 64 \<or> size_bits t = 64 \<and> is_signed t) \<and> st_max fsub t = None)"
  using int_max_value [OF assms] int_min_value [OF assms] int_values [OF assms(1)] int_max_overflows [OF assms(1)] int_size [OF assms(1)]
  by auto

theorem integer_type_range_witness:
  "(\<exists>lo hi. st_min (\<lambda>x y. x) kU4B8 = Some (Int64 lo) \<and> st_max (\<lambda>x y. x) kU4B8 = Some (Int64 hi) \<and>
    int_value kU4B8 ` {..<2 ^ nat (size_bits kU4B8)} = {lo..hi}) \<and> st_max (\<lambda>x y. x) (st_int 64 0) = None"
proof -
  have "exponent kU4B8 = 0" "in_i32 (bias kU4B8)" "mbits kU4B8 \<le> 62" "exponent (st_int 64 0) = 0" "in_i32 (bias (st_int 64 0))"
    "mbits (st_int 64 0) = 63"
    by (simp_all add: kU4B8_def st_uint_def st_int_def mbits_def in_i32_def)
  then show ?thesis using integer_type_range [of kU4B8] integer_type_range [of "st_int 64 0"] by blast
qed

section \<open>Floating point types\<close>























text \<open>For \<open>kFE8M0fnu\<close>, which has no mantissa, the subtraction of the NaN pattern from the mantissa wraps
  around: the result is the pattern of negative infinity instead of \<open>2^127\<close>.\<close>

lemma e8m0_max_is_negative_infinity: "raw_max kFE8M0fnu = Some (Double 0xfff0000000000000)"
  by (simp add: raw_max_def kFE8M0fnu_def is_floating_point_def floating_point_max_def ebits_def mbits_def Let_def)
    (simp add: mask_eq_exp_minus_1)

end
