(* ===== verification/Kernels.thy ===== *)
theory Kernels
  imports Prelude
begin

text \<open>
  What the tensor kernels of \<open>src/csrc/cpu/\<close> share.

  \<^item> Signed arithmetic that must not overflow: \<open>ck32\<close>, \<open>ck64\<close>, \<open>sdiv\<close>, \<open>smod\<close> are \<open>None\<close> where the C++
    expression is undefined.
  \<^item> The block operations the kernels call on raw pointers: \<open>memcpy\<close>, \<open>fill\<close> (\<open>std::fill\<close> and
    \<open>std::memset\<close> to zero), \<open>iota\<close> and \<open>transform\<close>, all \<open>None\<close> when a range is reversed or leaves
    its buffer.
  \<^item> Strided two-dimensional tensors (\<open>tensor2\<close>) and their well-formedness.
  \<^item> Cumulative offset arrays (\<open>query_start_loc\<close>, \<open>cu_num_logits\<close>): \<open>offsets_ok\<close>, disjointness of
    the segments they delimit.
  \<^item> \<open>yields_for_each_regions\<close>: a loop whose iterations write disjoint regions computes every region
    from the initial state, in whatever order the iterations run.  It carries the sequential loops
    and the \<open>#pragma omp parallel for\<close> loops, whose order is a parameter.
\<close>

section \<open>Checked signed arithmetic\<close>

definition ck32 :: "int \<Rightarrow> int option" where
  "ck32 x = (if in_i32 x then Some x else None)"

definition ck64 :: "int \<Rightarrow> int option" where
  "ck64 x = (if in_i64 x then Some x else None)"

definition sdiv :: "int \<Rightarrow> int \<Rightarrow> int option" where
  "sdiv a b = (if b = 0 then None else ck64 (cdiv a b))"

definition smod :: "int \<Rightarrow> int \<Rightarrow> int option" where
  "smod a b = (if b = 0 \<or> \<not> in_i64 (cdiv a b) then None else Some (cmod a b))"

lemma yields_ck32_bind [yields_intros]:
  "in_i32 x \<Longrightarrow> yields (f x) Q \<Longrightarrow> yields (Option.bind (ck32 x) f) Q"
  by (simp add: ck32_def)

lemma yields_ck64_bind [yields_intros]:
  "in_i64 x \<Longrightarrow> yields (f x) Q \<Longrightarrow> yields (Option.bind (ck64 x) f) Q"
  by (simp add: ck64_def)

lemma in_i64_between: "0 \<le> x \<Longrightarrow> x \<le> y \<Longrightarrow> in_i64 y \<Longrightarrow> in_i64 x"
  by (simp add: in_i64_def)

lemma in_i32_between: "0 \<le> x \<Longrightarrow> x \<le> y \<Longrightarrow> in_i32 y \<Longrightarrow> in_i32 x"
  by (simp add: in_i32_def)

lemma sdiv_nonneg:
  assumes "0 \<le> a" "in_i64 a" "0 < b" shows "sdiv a b = Some (a div b)"
proof -
  have "a div b \<le> a" using zdiv_mono2 [of a 1 b] assms by simp
  then have "in_i64 (a div b)" using assms
    by (auto intro: in_i64_between [of _ a] simp: pos_imp_zdiv_nonneg_iff)
  then show ?thesis using assms by (simp add: sdiv_def ck64_def)
qed

lemma smod_nonneg:
  assumes "0 \<le> a" "in_i64 a" "0 < b" shows "smod a b = Some (a mod b)"
  using sdiv_nonneg [OF assms] assms by (auto simp: sdiv_def smod_def ck64_def split: if_splits)

lemma yields_sdiv_bind [yields_intros]:
  "0 \<le> a \<Longrightarrow> in_i64 a \<Longrightarrow> 0 < b \<Longrightarrow> yields (f (a div b)) Q \<Longrightarrow> yields (Option.bind (sdiv a b) f) Q"
  by (simp add: sdiv_nonneg)

lemma yields_smod_bind [yields_intros]:
  "0 \<le> a \<Longrightarrow> in_i64 a \<Longrightarrow> 0 < b \<Longrightarrow> yields (f (a mod b)) Q \<Longrightarrow> yields (Option.bind (smod a b) f) Q"
  by (simp add: smod_nonneg)

section \<open>Block operations\<close>

definition subrange :: "'a list \<Rightarrow> int \<Rightarrow> int \<Rightarrow> 'a list option" where
  "subrange xs s n =
     (if 0 \<le> s \<and> 0 \<le> n \<and> s + n \<le> int (length xs) then Some (take (nat n) (drop (nat s) xs)) else None)"

definition store :: "'a list \<Rightarrow> int \<Rightarrow> 'a list \<Rightarrow> 'a list option" where
  "store xs d vs =
     (if 0 \<le> d \<and> d + int (length vs) \<le> int (length xs)
      then Some (take (nat d) xs @ vs @ drop (nat d + length vs) xs) else None)"

definition memcpy :: "'a list \<Rightarrow> int \<Rightarrow> 'a list \<Rightarrow> int \<Rightarrow> int \<Rightarrow> 'a list option" where
  "memcpy dst d src s n = do { vs \<leftarrow> subrange src s n; store dst d vs }"

definition transform :: "('a \<Rightarrow> 'b) \<Rightarrow> 'a list \<Rightarrow> int \<Rightarrow> int \<Rightarrow> 'b list \<Rightarrow> int \<Rightarrow> 'b list option" where
  "transform f src lo hi dst d = do { vs \<leftarrow> subrange src lo (hi - lo); store dst d (map f vs) }"

definition fill :: "'a list \<Rightarrow> int \<Rightarrow> int \<Rightarrow> 'a \<Rightarrow> 'a list option" where
  "fill dst lo hi v = (if lo \<le> hi then store dst lo (replicate (nat (hi - lo)) v) else None)"

definition iota :: "int list \<Rightarrow> int \<Rightarrow> int \<Rightarrow> int \<Rightarrow> int list option" where
  "iota dst lo hi v =
     (if lo \<le> hi \<and> in_i64 (v + (hi - lo)) then store dst lo (map (\<lambda>k. v + k) [0..hi - lo - 1]) else None)"

lemma at_store:
  assumes "0 \<le> d" "d + int (length vs) \<le> int (length xs)" "in_bounds xs j"
  shows "at (take (nat d) xs @ vs @ drop (nat d + length vs) xs) j =
    (if d \<le> j \<and> j < d + int (length vs) then at vs (j - d) else at xs j)"
proof -
  consider "j < d" | "d \<le> j" "j < d + int (length vs)" | "d + int (length vs) \<le> j" by linarith
  then show ?thesis
  proof cases
    case 1 then show ?thesis using assms by (simp add: at_def nth_append)
  next
    case 2 then show ?thesis using assms by (auto simp: at_def nth_append nat_diff_distrib)
  next
    case 3
    define k where "k = nat j - nat d - length vs"
    have "nat j = nat d + length vs + k" using 3 assms by (simp add: k_def)
    then show ?thesis using 3 assms by (auto simp: at_def nth_append)
  qed
qed

lemma yields_store:
  assumes "0 \<le> d" "d + int (length vs) \<le> int (length xs)"
    and "\<And>r. length r = length xs \<Longrightarrow>
      (\<And>j. in_bounds xs j \<Longrightarrow> at r j = (if d \<le> j \<and> j < d + int (length vs) then at vs (j - d) else at xs j)) \<Longrightarrow> Q r"
  shows "yields (store xs d vs) Q"
proof -
  let ?r = "take (nat d) xs @ vs @ drop (nat d + length vs) xs"
  have "length ?r = length xs" using assms(1,2) by simp
  then have "Q ?r" using assms(1,2) by (intro assms(3) at_store)
  then show ?thesis using assms(1,2) by (simp add: store_def)
qed

lemma subrange_Some:
  "0 \<le> s \<Longrightarrow> 0 \<le> n \<Longrightarrow> s + n \<le> int (length xs) \<Longrightarrow>
    \<exists>vs. subrange xs s n = Some vs \<and> int (length vs) = n \<and> (\<forall>k. 0 \<le> k \<longrightarrow> k < n \<longrightarrow> at vs k = at xs (s + k))"
  by (auto simp: subrange_def at_def nat_add_distrib)

lemma yields_memcpy:
  assumes "0 \<le> d" "0 \<le> s" "0 \<le> n" "d + n \<le> int (length dst)" "s + n \<le> int (length src)"
    and "\<And>r. length r = length dst \<Longrightarrow>
      (\<And>j. in_bounds dst j \<Longrightarrow> at r j = (if d \<le> j \<and> j < d + n then at src (s + (j - d)) else at dst j)) \<Longrightarrow> Q r"
  shows "yields (memcpy dst d src s n) Q"
proof -
  obtain vs where vs: "subrange src s n = Some vs" "int (length vs) = n"
    "\<forall>k. 0 \<le> k \<longrightarrow> k < n \<longrightarrow> at vs k = at src (s + k)"
    using subrange_Some assms(2,3,5) by blast
  have "yields (store dst d vs) Q"
    by (rule yields_store) (use assms vs in auto)
  then show ?thesis by (simp add: memcpy_def vs)
qed

lemma yields_transform:
  assumes "0 \<le> d" "0 \<le> lo" "lo \<le> hi" "d + (hi - lo) \<le> int (length dst)" "hi \<le> int (length src)"
    and "\<And>r. length r = length dst \<Longrightarrow>
      (\<And>j. in_bounds dst j \<Longrightarrow>
         at r j = (if d \<le> j \<and> j < d + (hi - lo) then f (at src (lo + (j - d))) else at dst j)) \<Longrightarrow> Q r"
  shows "yields (transform f src lo hi dst d) Q"
proof -
  obtain vs where vs: "subrange src lo (hi - lo) = Some vs" "int (length vs) = hi - lo"
    "\<forall>k. 0 \<le> k \<longrightarrow> k < hi - lo \<longrightarrow> at vs k = at src (lo + k)"
    using subrange_Some [of lo "hi - lo" src] assms(2,3,5) by auto
  have map: "at (map f vs) k = f (at vs k)" if "0 \<le> k" "k < hi - lo" for k
    using that vs(2) by (simp add: at_def nat_less_iff)
  have "yields (store dst d (map f vs)) Q"
    by (rule yields_store) (use assms vs map in auto)
  then show ?thesis by (simp add: transform_def vs)
qed

lemma yields_fill:
  assumes "0 \<le> lo" "lo \<le> hi" "hi \<le> int (length dst)"
    and "\<And>r. length r = length dst \<Longrightarrow>
      (\<And>j. in_bounds dst j \<Longrightarrow> at r j = (if lo \<le> j \<and> j < hi then v else at dst j)) \<Longrightarrow> Q r"
  shows "yields (fill dst lo hi v) Q"
proof -
  have "yields (store dst lo (replicate (nat (hi - lo)) v)) Q"
    by (rule yields_store) (use assms in \<open>auto simp: at_def\<close>)
  then show ?thesis using assms by (simp add: fill_def)
qed

lemma yields_iota:
  assumes "0 \<le> lo" "lo \<le> hi" "hi \<le> int (length dst)" "in_i64 (v + (hi - lo))"
    and "\<And>r. length r = length dst \<Longrightarrow>
      (\<And>j. in_bounds dst j \<Longrightarrow> at r j = (if lo \<le> j \<and> j < hi then v + (j - lo) else at dst j)) \<Longrightarrow> Q r"
  shows "yields (iota dst lo hi v) Q"
proof -
  have "yields (store dst lo (map (\<lambda>k. v + k) [0..hi - lo - 1])) Q"
    by (rule yields_store) (use assms in \<open>auto simp: at_def\<close>)
  then show ?thesis using assms by (simp add: iota_def)
qed

section \<open>Strided tensors\<close>

text \<open>A two-dimensional tensor: the storage from \<open>data_ptr\<close> on, the sizes and the strides.\<close>

record 'a tensor2 =
  dat :: "'a list"
  size0 :: int
  size1 :: int
  stride0 :: int
  stride1 :: int

definition wf2 :: "'a tensor2 \<Rightarrow> bool" where
  "wf2 t \<longleftrightarrow> 0 \<le> size0 t \<and> 0 \<le> size1 t \<and> size1 t \<le> stride0 t \<and> stride1 t = 1 \<and>
     (size0 t = 0 \<or> (size0 t - 1) * stride0 t + size1 t \<le> int (length (dat t)))"

definition el2 :: "'a tensor2 \<Rightarrow> int \<Rightarrow> int \<Rightarrow> 'a" where
  "el2 t i j = at (dat t) (i * stride0 t + j)"

lemma row_unique:
  assumes "i * s + j = i' * s + j'" "0 \<le> j" "j < s" "0 \<le> j'" "j' < (s :: int)"
  shows "i = i' \<and> j = j'"
proof -
  have "i = (i * s + j) div s" "j = (i * s + j) mod s" using assms(2,3) by auto
  moreover have "i' = (i' * s + j') div s" "j' = (i' * s + j') mod s" using assms(4,5) by auto
  ultimately show ?thesis using assms(1) by simp
qed

lemma rows_disjoint:
  assumes "i \<noteq> i'" "k \<le> s" "k' \<le> (s :: int)"
  shows "{i * s..<i * s + k} \<inter> {i' * s..<i' * s + k'} = {}"
proof (cases "0 \<le> s")
  case True
  have "(i + 1) * s \<le> i' * s \<or> (i' + 1) * s \<le> i * s"
    using True assms(1) by (cases "i < i'") (auto intro: mult_right_mono)
  then show ?thesis using assms by (auto simp: algebra_simps)
qed (use assms in auto)

lemma at_in_set: "in_bounds xs i \<Longrightarrow> at xs i \<in> set xs"
  by (simp add: at_def nat_less_iff)

lemma at_map_upto [simp]: "0 \<le> t \<Longrightarrow> t < n \<Longrightarrow> at (map f [0..n - 1]) t = f t"
  by (simp add: at_def nat_less_iff)

lemma row_index: "0 \<le> i \<Longrightarrow> i < s \<Longrightarrow> 0 \<le> r \<Longrightarrow> (r + 1) * s \<le> len \<Longrightarrow> 0 \<le> r * s + i \<and> r * s + i < len" for i s r len :: int
  by (auto simp: algebra_simps)

lemma distinct_at:
  "distinct xs \<Longrightarrow> in_bounds xs i \<Longrightarrow> in_bounds xs j \<Longrightarrow> at xs i = at xs j \<longleftrightarrow> i = j"
  by (auto simp: at_def nth_eq_iff_index_eq)

lemma upto_shift: "[m..m + n - 1] = map (\<lambda>i. m + i) [0..n - 1]" for m n :: int
  by (rule nth_equalityI) auto

lemma at_Cons: "0 \<le> r \<Longrightarrow> at (x # xs) r = (if r = 0 then x else at xs (r - 1))"
  by (auto simp: at_def nth_Cons nat_diff_distrib split: nat.splits)

lemma row_in_bounds:
  assumes "wf2 t" "0 \<le> i" "i < size0 t" "0 \<le> j" "j \<le> size1 t"
  shows "0 \<le> i * stride0 t + j" "i * stride0 t + j \<le> int (length (dat t))"
    "j < size1 t \<Longrightarrow> i * stride0 t + j < int (length (dat t))"
proof -
  have s: "0 \<le> stride0 t" "(size0 t - 1) * stride0 t + size1 t \<le> int (length (dat t))"
    using assms by (auto simp: wf2_def)
  have "i * stride0 t \<le> (size0 t - 1) * stride0 t"
    using assms s by (intro mult_right_mono) auto
  moreover have "0 \<le> i * stride0 t" using assms s by simp
  ultimately show "0 \<le> i * stride0 t + j" "i * stride0 t + j \<le> int (length (dat t))"
    "j < size1 t \<Longrightarrow> i * stride0 t + j < int (length (dat t))"
    using s assms by linarith+
qed

section \<open>Cumulative offsets\<close>

text \<open>\<open>offsets_ok cu n bound\<close>: the first \<open>n + 1\<close> entries ascend from a nonnegative start to at most
  \<open>bound\<close>, so that segment \<open>i\<close> is the range from entry \<open>i\<close> to entry \<open>i + 1\<close>.\<close>

definition offsets_ok :: "int list \<Rightarrow> int \<Rightarrow> int \<Rightarrow> bool" where
  "offsets_ok cu n bound \<longleftrightarrow> 0 \<le> n \<and> n < int (length cu) \<and> 0 \<le> at cu 0 \<and> at cu n \<le> bound \<and>
     (\<forall>i \<in> {0..n - 1}. at cu i \<le> at cu (i + 1))"

definition segment :: "int list \<Rightarrow> int \<Rightarrow> int set" where
  "segment cu i = {at cu i..<at cu (i + 1)}"

lemma offsets_mono:
  assumes "offsets_ok cu n bound" "0 \<le> i" "i \<le> j" "j \<le> n"
  shows "at cu i \<le> at cu j"
proof -
  have "at cu i \<le> at cu (i + int k)" if "i + int k \<le> n" for k
    using that
  proof (induction k)
    case (Suc k)
    then have "at cu (i + int k) \<le> at cu (i + int k + 1)"
      using assms(1,2) by (auto simp: offsets_ok_def)
    with Suc show ?case by (simp add: ac_simps)
  qed simp
  from this [of "nat (j - i)"] show ?thesis using assms by simp
qed

lemma offsets_bounds:
  assumes "offsets_ok cu n bound" "0 \<le> i" "i \<le> n"
  shows "0 \<le> at cu i" "at cu i \<le> bound" "in_bounds cu i"
  using offsets_mono [OF assms(1), of 0 i] offsets_mono [OF assms(1), of i n] assms
  by (auto simp: offsets_ok_def)

lemma segments_disjoint:
  assumes "offsets_ok cu n bound" "0 \<le> i" "i < n" "0 \<le> j" "j < n" "i \<noteq> j"
  shows "segment cu i \<inter> segment cu j = {}"
  using offsets_mono [OF assms(1), of "i + 1" j] offsets_mono [OF assms(1), of "j + 1" i] assms(2-6)
  by (cases "i < j") (auto simp: segment_def)

lemma in_segment:
  assumes "offsets_ok cu n bound" "0 \<le> i" "i < n" "t \<in> segment cu i"
  shows "at cu 0 \<le> t" "t < at cu n" "0 \<le> t" "t < bound"
  using offsets_mono [OF assms(1), of 0 i] offsets_mono [OF assms(1), of "i + 1" n]
    offsets_bounds [OF assms(1), of i] offsets_bounds [OF assms(1), of "i + 1"] assms(2-4)
  by (auto simp: segment_def)

lemma segment_owner:
  assumes "offsets_ok cu n bound" "at cu 0 \<le> t" "t < at cu n"
  shows "\<exists>i. 0 \<le> i \<and> i < n \<and> t \<in> segment cu i"
proof -
  have "\<exists>i. 0 \<le> i \<and> i < int k \<and> t \<in> segment cu i" if "t < at cu (int k)" for k
    using that
  proof (induction k)
    case 0 then show ?case using assms(2) by simp
  next
    case (Suc k)
    then show ?case
      by (cases "t < at cu (int k)") (auto simp: segment_def ac_simps intro: exI [of _ "int k"])
  qed
  from this [of "nat n"] show ?thesis using assms by (simp add: offsets_ok_def)
qed

section \<open>Loops over disjoint regions\<close>

lemma yields_for_each_regions:
  fixes get :: "'s \<Rightarrow> 'l \<Rightarrow> 'v"
  assumes body: "\<And>i s. i \<in> set is \<Longrightarrow> ok s \<Longrightarrow> (\<And>l. l \<in> L \<Longrightarrow> l \<in> R i \<Longrightarrow> get s l = get s0 l) \<Longrightarrow>
      yields (body i s) (\<lambda>s'. ok s' \<and> (\<forall>l\<in>L. get s' l = (if l \<in> R i then V i l else get s l)))"
    and disj: "\<And>i j. i \<in> set is \<Longrightarrow> j \<in> set is \<Longrightarrow> i \<noteq> j \<Longrightarrow> R i \<inter> R j \<inter> L = {}"
    and "distinct is" "ok s0"
  shows "yields (for_each is body s0) (\<lambda>s. ok s \<and>
    (\<forall>i\<in>set is. \<forall>l\<in>L \<inter> R i. get s l = V i l) \<and>
    (\<forall>l\<in>L. (\<forall>i\<in>set is. l \<notin> R i) \<longrightarrow> get s l = get s0 l))"
proof -
  have "yields (for_each js body s) (\<lambda>s'. ok s' \<and>
      (\<forall>i\<in>set js. \<forall>l\<in>L \<inter> R i. get s' l = V i l) \<and>
      (\<forall>l\<in>L. (\<forall>i\<in>set js. l \<notin> R i) \<longrightarrow> get s' l = get s l))"
    if "set js \<subseteq> set is" "distinct js" "ok s" "\<forall>i\<in>set js. \<forall>l\<in>L \<inter> R i. get s l = get s0 l" for js s
    using that
  proof (induction js arbitrary: s)
    case (Cons i js)
    have b: "yields (body i s) (\<lambda>s'. ok s' \<and> (\<forall>l\<in>L. get s' l = (if l \<in> R i then V i l else get s l)))"
      using Cons.prems by (intro body) auto
    have d: "l \<notin> R i" if "k \<in> set js" "l \<in> L" "l \<in> R k" for k l
      using disj [of k i] that Cons.prems by auto
    show ?case unfolding for_each.simps
    proof (rule yields_bindI [OF b])
      fix s1 assume s1: "ok s1 \<and> (\<forall>l\<in>L. get s1 l = (if l \<in> R i then V i l else get s l))"
      have "\<forall>k\<in>set js. \<forall>l\<in>L \<inter> R k. get s1 l = get s0 l"
        using s1 d Cons.prems(4) by auto
      then have "yields (for_each js body s1) (\<lambda>s'. ok s' \<and>
          (\<forall>i\<in>set js. \<forall>l\<in>L \<inter> R i. get s' l = V i l) \<and>
          (\<forall>l\<in>L. (\<forall>i\<in>set js. l \<notin> R i) \<longrightarrow> get s' l = get s1 l))"
        using Cons.prems s1 by (intro Cons.IH) auto
      then show "yields (for_each js body s1) (\<lambda>s'. ok s' \<and>
          (\<forall>i\<in>set (i # js). \<forall>l\<in>L \<inter> R i. get s' l = V i l) \<and>
          (\<forall>l\<in>L. (\<forall>i\<in>set (i # js). l \<notin> R i) \<longrightarrow> get s' l = get s l))"
        by (rule yields_mono) (use s1 d in auto)
    qed
  qed simp
  from this [of "is" s0] assms(3,4) show ?thesis by simp
qed

text \<open>\<open>#pragma omp parallel for\<close> over \<open>0..n - 1\<close>: the iterations run in some order \<open>order\<close>.\<close>

definition schedule :: "int list \<Rightarrow> int \<Rightarrow> bool" where
  "schedule order n \<longleftrightarrow> mset order = mset [0..n - 1]"

lemma scheduleD:
  assumes "schedule order n" shows "distinct order" "set order = {0..<n}"
proof -
  have eq: "mset order = mset [0..n - 1]" using assms by (simp add: schedule_def)
  show "set order = {0..<n}" unfolding mset_eq_setD [OF eq] set_upto by auto
  show "distinct order" by (simp only: mset_eq_imp_distinct_iff [OF eq] distinct_upto)
qed

text \<open>The two instances: flat buffers, where a location is an index, and rows of a tensor.\<close>

lemma yields_for_range_flat:
  assumes body: "\<And>i s. lo \<le> i \<Longrightarrow> i < hi \<Longrightarrow> length s = length s0 \<Longrightarrow>
      (\<And>j. in_bounds s0 j \<Longrightarrow> j \<in> R i \<Longrightarrow> at s j = at s0 j) \<Longrightarrow>
      yields (body i s) (\<lambda>s'. length s' = length s0 \<and>
        (\<forall>j. in_bounds s0 j \<longrightarrow> at s' j = (if j \<in> R i then V i j else at s j)))"
    and disj: "\<And>i j. lo \<le> i \<Longrightarrow> i < hi \<Longrightarrow> lo \<le> j \<Longrightarrow> j < hi \<Longrightarrow> i \<noteq> j \<Longrightarrow> R i \<inter> R j = {}"
    and Q: "\<And>s. length s = length s0 \<Longrightarrow>
      (\<And>i j. lo \<le> i \<Longrightarrow> i < hi \<Longrightarrow> in_bounds s0 j \<Longrightarrow> j \<in> R i \<Longrightarrow> at s j = V i j) \<Longrightarrow>
      (\<And>j. in_bounds s0 j \<Longrightarrow> (\<And>i. lo \<le> i \<Longrightarrow> i < hi \<Longrightarrow> j \<notin> R i) \<Longrightarrow> at s j = at s0 j) \<Longrightarrow> Q s"
  shows "yields (for_range lo hi body s0) Q"
proof -
  have "yields (for_each [lo..hi - 1] body s0) (\<lambda>s. length s = length s0 \<and>
      (\<forall>i\<in>set [lo..hi - 1]. \<forall>j\<in>{0..<int (length s0)} \<inter> R i. at s j = V i j) \<and>
      (\<forall>j\<in>{0..<int (length s0)}. (\<forall>i\<in>set [lo..hi - 1]. j \<notin> R i) \<longrightarrow> at s j = at s0 j))"
  proof (rule yields_for_each_regions [where get = at and L = "{0..<int (length s0)}" and R = R and V = V])
    fix i s assume "i \<in> set [lo..hi - 1]" "length s = length s0"
      "\<And>l. l \<in> {0..<int (length s0)} \<Longrightarrow> l \<in> R i \<Longrightarrow> at s l = at s0 l"
    then have "yields (body i s) (\<lambda>s'. length s' = length s0 \<and>
        (\<forall>j. in_bounds s0 j \<longrightarrow> at s' j = (if j \<in> R i then V i j else at s j)))"
      by (intro body) auto
    then show "yields (body i s) (\<lambda>s'. length s' = length s0 \<and>
        (\<forall>l\<in>{0..<int (length s0)}. at s' l = (if l \<in> R i then V i l else at s l)))"
      by (rule yields_mono) auto
  next
    fix i j assume "i \<in> set [lo..hi - 1]" "j \<in> set [lo..hi - 1]" "i \<noteq> j"
    then show "R i \<inter> R j \<inter> {0..<int (length s0)} = {}" using disj [of i j] by auto
  qed simp_all
  then show ?thesis
    unfolding for_range_def by (rule yields_mono) (rule Q; auto)
qed

section \<open>Kernels over several buffers\<close>

text \<open>A kernel that writes several tensors works on a store from tensor names to contents.\<close>

type_synonym 'k store = "'k \<Rightarrow> int list"

definition on :: "'k store \<Rightarrow> 'k \<Rightarrow> (int list \<Rightarrow> int list option) \<Rightarrow> 'k store option" where
  "on s k f = map_option (\<lambda>b. s(k := b)) (f (s k))"

lemma yields_on: "yields (f (s k)) (\<lambda>b. Q (s(k := b))) \<Longrightarrow> yields (on s k f) Q"
  by (auto simp: on_def yields_def)

lemma yields_on_bind: "yields (f (s k)) (\<lambda>b. yields (g (s(k := b))) Q) \<Longrightarrow> yields (Option.bind (on s k f) g) Q"
  by (auto simp: on_def yields_def)

lemma on_wr: "in_bounds (s k) i \<Longrightarrow> on s k (\<lambda>b. wr b i v) = Some (s(k := (s k)[nat i := v]))"
  by (simp add: on_def wr_upd)

text \<open>\<open>writes s R V s'\<close>: the buffers keep their lengths, the locations in \<open>R k\<close> hold \<open>V k\<close>, all others are
  as in \<open>s\<close>.\<close>

definition writes :: "'k store \<Rightarrow> ('k \<Rightarrow> int set) \<Rightarrow> ('k \<Rightarrow> int \<Rightarrow> int) \<Rightarrow> 'k store \<Rightarrow> bool" where
  "writes s R V s' \<longleftrightarrow> (\<forall>k. length (s' k) = length (s k) \<and>
     (\<forall>j. in_bounds (s k) j \<longrightarrow> at (s' k) j = (if j \<in> R k then V k j else at (s k) j)))"

lemma writesI:
  "(\<And>k. length (s' k) = length (s k)) \<Longrightarrow>
   (\<And>k j. in_bounds (s k) j \<Longrightarrow> at (s' k) j = (if j \<in> R k then V k j else at (s k) j)) \<Longrightarrow> writes s R V s'"
  unfolding writes_def by blast

lemma writes_length [simp]: "writes s R V s' \<Longrightarrow> length (s' k) = length (s k)"
  by (simp add: writes_def)

lemma writes_at:
  "writes s R V s' \<Longrightarrow> in_bounds (s k) j \<Longrightarrow> at (s' k) j = (if j \<in> R k then V k j else at (s k) j)"
  unfolding writes_def by blast

lemma yields_for_each_store:
  assumes body: "\<And>i s. i \<in> set is \<Longrightarrow> (\<And>k. length (s k) = length (s0 k)) \<Longrightarrow>
      (\<And>k j. in_bounds (s0 k) j \<Longrightarrow> j \<in> R i k \<Longrightarrow> at (s k) j = at (s0 k) j) \<Longrightarrow>
      yields (body i s) (writes s (R i) (V i))"
    and disj: "\<And>i j k. i \<in> set is \<Longrightarrow> j \<in> set is \<Longrightarrow> i \<noteq> j \<Longrightarrow> R i k \<inter> R j k = {}"
    and "distinct is"
    and Q: "\<And>s. (\<And>k. length (s k) = length (s0 k)) \<Longrightarrow>
      (\<And>i k j. i \<in> set is \<Longrightarrow> in_bounds (s0 k) j \<Longrightarrow> j \<in> R i k \<Longrightarrow> at (s k) j = V i k j) \<Longrightarrow>
      (\<And>k j. in_bounds (s0 k) j \<Longrightarrow> (\<And>i. i \<in> set is \<Longrightarrow> j \<notin> R i k) \<Longrightarrow> at (s k) j = at (s0 k) j) \<Longrightarrow> Q s"
  shows "yields (for_each is body s0) Q"
proof -
  let ?L = "{(k, j). in_bounds (s0 k) j}" and ?R = "\<lambda>i. {(k, j). j \<in> R i k}"
    and ?get = "\<lambda>s (k, j). at (s k) j" and ?ok = "\<lambda>s. \<forall>k. length (s k) = length (s0 k)"
  have "yields (for_each is body s0) (\<lambda>s. ?ok s \<and>
      (\<forall>i\<in>set is. \<forall>l\<in>?L \<inter> ?R i. ?get s l = (\<lambda>(k, j). V i k j) l) \<and>
      (\<forall>l\<in>?L. (\<forall>i\<in>set is. l \<notin> ?R i) \<longrightarrow> ?get s l = ?get s0 l))"
  proof (rule yields_for_each_regions)
    fix i s assume "i \<in> set is" "?ok s" and "\<And>l. l \<in> ?L \<Longrightarrow> l \<in> ?R i \<Longrightarrow> ?get s l = ?get s0 l"
    then have "yields (body i s) (writes s (R i) (V i))" by (intro body) auto
    then show "yields (body i s) (\<lambda>s'. ?ok s' \<and>
        (\<forall>l\<in>?L. ?get s' l = (if l \<in> ?R i then (\<lambda>(k, j). V i k j) l else ?get s l)))"
    proof (rule yields_mono)
      fix s' assume w: "writes s (R i) (V i) s'"
      show "?ok s' \<and> (\<forall>l\<in>?L. ?get s' l = (if l \<in> ?R i then (\<lambda>(k, j). V i k j) l else ?get s l))"
        using \<open>?ok s\<close> by (auto simp: writes_length [OF w] writes_at [OF w])
    qed
  next
    fix i j assume "i \<in> set is" "j \<in> set is" "i \<noteq> j"
    then show "?R i \<inter> ?R j \<inter> ?L = {}" using disj [of i j] by auto
  qed (use assms in simp_all)
  then show ?thesis
  proof (rule yields_mono, elim conjE)
    fix s assume len: "?ok s" and new: "\<forall>i\<in>set is. \<forall>l\<in>?L \<inter> ?R i. ?get s l = (\<lambda>(k, j). V i k j) l"
      and old: "\<forall>l\<in>?L. (\<forall>i\<in>set is. l \<notin> ?R i) \<longrightarrow> ?get s l = ?get s0 l"
    show "Q s"
    proof (rule Q)
      fix i k j assume "i \<in> set is" "in_bounds (s0 k) j" "j \<in> R i k"
      then have "(k, j) \<in> ?L \<inter> ?R i" by simp
      from bspec [OF bspec [OF new \<open>i \<in> set is\<close>] this] show "at (s k) j = V i k j" by simp
    next
      fix k j assume "in_bounds (s0 k) j" and "\<And>i. i \<in> set is \<Longrightarrow> j \<notin> R i k"
      then show "at (s k) j = at (s0 k) j" using old by auto
    qed (use len in simp)
  qed
qed

text \<open>The scheduler is a parameter that lists the iterations in the order in which they run.\<close>

definition is_schedule :: "(int \<Rightarrow> int list) \<Rightarrow> bool" where
  "is_schedule order \<longleftrightarrow> (\<forall>n. schedule (order n) n)"

definition omp_for :: "(int \<Rightarrow> int list) \<Rightarrow> int \<Rightarrow> (int \<Rightarrow> 's \<Rightarrow> 's option) \<Rightarrow> 's \<Rightarrow> 's option" where
  "omp_for order n body s = for_each (order n) body s"

lemma is_schedule_rev: "is_schedule (\<lambda>n. rev [0..n - 1])"
  by (simp add: is_schedule_def schedule_def)

lemma yields_omp_store:
  assumes sched: "is_schedule order"
    and body: "\<And>i s. 0 \<le> i \<Longrightarrow> i < n \<Longrightarrow> (\<And>k. length (s k) = length (s0 k)) \<Longrightarrow>
      (\<And>k j. in_bounds (s0 k) j \<Longrightarrow> j \<in> R i k \<Longrightarrow> at (s k) j = at (s0 k) j) \<Longrightarrow>
      yields (body i s) (writes s (R i) (V i))"
    and disj: "\<And>i j k. 0 \<le> i \<Longrightarrow> i < n \<Longrightarrow> 0 \<le> j \<Longrightarrow> j < n \<Longrightarrow> i \<noteq> j \<Longrightarrow> R i k \<inter> R j k = {}"
    and Q: "\<And>s. (\<And>k. length (s k) = length (s0 k)) \<Longrightarrow>
      (\<And>i k j. 0 \<le> i \<Longrightarrow> i < n \<Longrightarrow> in_bounds (s0 k) j \<Longrightarrow> j \<in> R i k \<Longrightarrow> at (s k) j = V i k j) \<Longrightarrow>
      (\<And>k j. in_bounds (s0 k) j \<Longrightarrow> (\<And>i. 0 \<le> i \<Longrightarrow> i < n \<Longrightarrow> j \<notin> R i k) \<Longrightarrow> at (s k) j = at (s0 k) j) \<Longrightarrow> Q s"
  shows "yields (omp_for order n body s0) Q"
proof -
  have o: "distinct (order n)" "set (order n) = {0..<n}"
    using scheduleD [of "order n" n] sched by (auto simp: is_schedule_def)
  show ?thesis unfolding omp_for_def
    by (rule yields_for_each_store [where R = R and V = V]) (use o body disj Q in auto)
qed

text \<open>A loop that can be left by \<open>break\<close>; the flag of the result tells whether it was.\<close>

fun each_break :: "'i list \<Rightarrow> ('i \<Rightarrow> 's \<Rightarrow> ('s \<times> bool) option) \<Rightarrow> 's \<Rightarrow> ('s \<times> bool) option" where
  "each_break [] body s = Some (s, False)"
| "each_break (i # is) body s = do {
     r \<leftarrow> body i s;
     if snd r then Some (fst r, True) else each_break is body (fst r) }"

definition for_break :: "int \<Rightarrow> int \<Rightarrow> (int \<Rightarrow> 's \<Rightarrow> ('s \<times> bool) option) \<Rightarrow> 's \<Rightarrow> ('s \<times> bool) option" where
  "for_break lo hi body s = each_break [lo..hi - 1] body s"

lemma for_break_empty [simp]: "hi \<le> lo \<Longrightarrow> for_break lo hi body s = Some (s, False)"
  by (simp add: for_break_def)

lemma for_break_rec:
  "lo < hi \<Longrightarrow> for_break lo hi body s = do {
     r \<leftarrow> body lo s; if snd r then Some (fst r, True) else for_break (lo + 1) hi body (fst r) }"
  unfolding for_break_def by (simp add: upto_rec1)

text \<open>An invariant \<open>P i\<close> before iteration \<open>i\<close>, and \<open>B i\<close> when iteration \<open>i\<close> breaks.\<close>

lemma yields_for_break:
  assumes "lo \<le> hi" "P lo s"
    and "\<And>i s. lo \<le> i \<Longrightarrow> i < hi \<Longrightarrow> P i s \<Longrightarrow> yields (body i s) (\<lambda>r. if snd r then B i (fst r) else P (i + 1) (fst r))"
  shows "yields (for_break lo hi body s) (\<lambda>r. if snd r then \<exists>i. lo \<le> i \<and> i < hi \<and> B i (fst r) else P hi (fst r))"
  using assms
proof (induction "nat (hi - lo)" arbitrary: lo s)
  case (Suc n)
  then have lt: "lo < hi" by simp
  have b: "yields (body lo s) (\<lambda>r. if snd r then B lo (fst r) else P (lo + 1) (fst r))" using Suc.prems lt by simp
  show ?case unfolding for_break_rec [OF lt]
  proof (rule yields_bindI [OF b])
    fix r assume r: "if snd r then B lo (fst r) else P (lo + 1) (fst r)"
    show "yields (if snd r then Some (fst r, True) else for_break (lo + 1) hi body (fst r))
        (\<lambda>r. if snd r then \<exists>i. lo \<le> i \<and> i < hi \<and> B i (fst r) else P hi (fst r))"
    proof (cases "snd r")
      case True then show ?thesis using r lt by auto
    next
      case False
      then have "yields (for_break (lo + 1) hi body (fst r))
          (\<lambda>r. if snd r then \<exists>i. lo + 1 \<le> i \<and> i < hi \<and> B i (fst r) else P hi (fst r))"
        using r Suc.prems Suc.hyps(2) lt by (intro Suc.hyps(1)) auto
      moreover have "\<exists>i. lo \<le> i \<and> i < hi \<and> B i x" if ex: "\<exists>i. lo + 1 \<le> i \<and> i < hi \<and> B i x" for x
      proof -
        from ex obtain i where "lo + 1 \<le> i" "i < hi" "B i x" by blast
        then show ?thesis by (intro exI [of _ i]) simp
      qed
      ultimately show ?thesis using False by (auto elim!: yields_mono split: if_splits)
    qed
  qed
qed simp

text \<open>The number of leading indices on which a test holds.\<close>

definition prefix_len :: "(int \<Rightarrow> bool) \<Rightarrow> int \<Rightarrow> int" where
  "prefix_len P n = int (length (takeWhile P [0..n - 1]))"

lemma prefix_len_all: "0 \<le> n \<Longrightarrow> (\<And>i. 0 \<le> i \<Longrightarrow> i < n \<Longrightarrow> P i) \<Longrightarrow> prefix_len P n = n"
  by (simp add: prefix_len_def takeWhile_eq_all_conv [THEN iffD2])

lemma prefix_len_le: "0 \<le> n \<Longrightarrow> prefix_len P n \<le> n"
  using length_takeWhile_le [of P "[0..n - 1]"] by (simp add: prefix_len_def)

lemma prefix_len_stop:
  assumes "0 \<le> i" "i < n" "\<not> P i" "\<And>k. 0 \<le> k \<Longrightarrow> k < i \<Longrightarrow> P k"
  shows "prefix_len P n = i"
proof -
  have "[0..n - 1] = [0..i - 1] @ i # [i + 1..n - 1]" using assms(1,2) by (intro upto_split3) auto
  moreover have "takeWhile P ([0..i - 1] @ i # [i + 1..n - 1]) = [0..i - 1]"
    using assms(3,4) by (subst takeWhile_append2) auto
  ultimately show ?thesis using assms(1) by (simp add: prefix_len_def)
qed

lemma prefix_len_nonneg [simp]: "0 \<le> prefix_len P n"
  by (simp add: prefix_len_def)

lemma prefix_lenD:
  assumes "0 \<le> i" "i < prefix_len P n" shows "P i"
proof -
  have "i < n" using assms length_takeWhile_le [of P "[0..n - 1]"] by (simp add: prefix_len_def)
  moreover have "takeWhile P [0..n - 1] ! nat i = [0..n - 1] ! nat i"
    using assms by (intro takeWhile_nth) (auto simp: prefix_len_def)
  moreover have "takeWhile P [0..n - 1] ! nat i \<in> set (takeWhile P [0..n - 1])"
    using assms by (intro nth_mem) (auto simp: prefix_len_def)
  ultimately show ?thesis using assms(1) by (auto dest: set_takeWhileD)
qed

lemma prefix_len_ge:
  assumes "0 \<le> n" "m \<le> n" "\<And>i. 0 \<le> i \<Longrightarrow> i < m \<Longrightarrow> P i" shows "m \<le> prefix_len P n"
proof (cases "\<exists>i. 0 \<le> i \<and> i < n \<and> \<not> P i")
  case True
  define k where "k = (LEAST k. int k < n \<and> \<not> P (int k))"
  have ex: "\<exists>k. int k < n \<and> \<not> P (int k)" using True by (metis nonneg_int_cases)
  then have k: "int k < n" "\<not> P (int k)" using LeastI_ex [OF ex] unfolding k_def [symmetric] by blast+
  have "P i" if "0 \<le> i" "i < int k" for i
  proof -
    have "nat i < k" "int (nat i) < n" using that k(1) by linarith+
    then show ?thesis using not_less_Least [of "nat i" "\<lambda>k. int k < n \<and> \<not> P (int k)"] that(1) unfolding k_def [symmetric] by simp
  qed
  then have "prefix_len P n = int k" using k by (intro prefix_len_stop) auto
  moreover have "m \<le> int k" using k(2) assms(3) [of "int k"] by (meson not_less of_nat_0_le_iff)
  ultimately show ?thesis by simp
next
  case False then show ?thesis using assms(1,2) by (subst prefix_len_all) auto
qed

lemma prefix_len_iff: "0 < m \<Longrightarrow> m \<le> prefix_len P n \<longleftrightarrow> m \<le> n \<and> (\<forall>k \<in> {0..m - 1}. P k)"
proof (cases "0 \<le> n")
  case True then show ?thesis using prefix_len_le [of n P] prefix_lenD [of _ P n] prefix_len_ge [of n m P] by force
qed (simp add: prefix_len_def)

text \<open>A loop that records the last index on which a test held and breaks at the first failure.\<close>

lemma for_break_prefix:
  assumes body: "\<And>i s. lo \<le> i \<Longrightarrow> i < hi \<Longrightarrow> body i s = Some (if P (i - lo) then (i, False) else (s, True))"
  shows "yields (for_break lo hi body (lo - 1)) (\<lambda>r. fst r = lo + prefix_len P (hi - lo) - 1)"
proof (cases "lo \<le> hi")
  case le: True
  let ?I = "\<lambda>i s. (\<forall>k. 0 \<le> k \<longrightarrow> k < i - lo \<longrightarrow> P k) \<and> s = i - 1"
  have "yields (for_break lo hi body (lo - 1))
      (\<lambda>r. if snd r then \<exists>i. lo \<le> i \<and> i < hi \<and> (?I i (fst r) \<and> \<not> P (i - lo)) else ?I hi (fst r))"
  proof (rule yields_for_break [where P = ?I and B = "\<lambda>i s. ?I i s \<and> \<not> P (i - lo)"], goal_cases)
    case (3 i s)
    have "P k" if "P (i - lo)" "0 \<le> k" "k < i + 1 - lo" for k using 3(3) that by (cases "k = i - lo") auto
    then show ?case using 3 by (simp add: body)
  qed (use le in auto)
  then show ?thesis
  proof (rule yields_mono)
    fix r assume r: "if snd r then \<exists>i. lo \<le> i \<and> i < hi \<and> (?I i (fst r) \<and> \<not> P (i - lo)) else ?I hi (fst r)"
    show "fst r = lo + prefix_len P (hi - lo) - 1"
    proof (cases "snd r")
      case True
      then obtain i where i: "lo \<le> i" "i < hi" "?I i (fst r)" "\<not> P (i - lo)" using r by auto
      then have "prefix_len P (hi - lo) = i - lo" by (intro prefix_len_stop) auto
      then show ?thesis using i by simp
    next
      case False
      then have "prefix_len P (hi - lo) = hi - lo" using r le by (intro prefix_len_all) auto
      then show ?thesis using r False by simp
    qed
  qed
qed (simp add: prefix_len_def)

text \<open>A loop over a list that may break: the processed elements are a prefix of the list.\<close>

lemma yields_each_break:
  assumes "P [] s"
    and "\<And>pre i post s. is = pre @ i # post \<Longrightarrow> P pre s \<Longrightarrow>
      yields (body i s) (\<lambda>r. P (pre @ [i]) (fst r) \<and> (snd r \<longrightarrow> B i))"
  shows "yields (each_break is body s) (\<lambda>r. \<exists>pre post. is = pre @ post \<and> P pre (fst r) \<and>
    (if snd r then \<exists>i \<in> set pre. B i else post = []))"
proof -
  have "yields (each_break js body s) (\<lambda>r. \<exists>pre post. is = pre @ post \<and> P pre (fst r) \<and>
      (if snd r then \<exists>i \<in> set pre. B i else post = []))" if "is = ds @ js" "P ds s" for ds js s
    using that
  proof (induction js arbitrary: ds s)
    case Nil then show ?case by auto
  next
    case (Cons j js)
    show ?case unfolding each_break.simps
    proof (rule yields_bindI [OF assms(2) [OF Cons.prems]])
      fix r assume r: "P (ds @ [j]) (fst r) \<and> (snd r \<longrightarrow> B j)"
      have eq: "is = (ds @ [j]) @ js" using Cons.prems(1) by simp
      show "yields (if snd r then Some (fst r, True) else each_break js body (fst r)) (\<lambda>r. \<exists>pre post. is = pre @ post \<and> P pre (fst r) \<and>
          (if snd r then \<exists>i \<in> set pre. B i else post = []))"
      proof (cases "snd r")
        case True
        have "is = (ds @ [j]) @ js \<and> P (ds @ [j]) (fst r) \<and> (\<exists>i \<in> set (ds @ [j]). B i)" using r eq True by simp
        then show ?thesis using True by (simp only: if_True yields_Some fst_conv snd_conv) blast
      next
        case False then show ?thesis using Cons.IH [OF eq] r by simp
      qed
    qed
  qed
  from this [of "[]" "is" s] assms(1) show ?thesis by simp
qed

lemma yields_omp_flat:
  assumes sched: "is_schedule order"
    and body: "\<And>i s. 0 \<le> i \<Longrightarrow> i < n \<Longrightarrow> length s = length s0 \<Longrightarrow>
      (\<And>j. in_bounds s0 j \<Longrightarrow> j \<in> R i \<Longrightarrow> at s j = at s0 j) \<Longrightarrow>
      yields (body i s) (\<lambda>s'. length s' = length s0 \<and>
        (\<forall>j. in_bounds s0 j \<longrightarrow> at s' j = (if j \<in> R i then V i j else at s j)))"
    and disj: "\<And>i j. 0 \<le> i \<Longrightarrow> i < n \<Longrightarrow> 0 \<le> j \<Longrightarrow> j < n \<Longrightarrow> i \<noteq> j \<Longrightarrow> R i \<inter> R j = {}"
    and Q: "\<And>s. length s = length s0 \<Longrightarrow>
      (\<And>i j. 0 \<le> i \<Longrightarrow> i < n \<Longrightarrow> in_bounds s0 j \<Longrightarrow> j \<in> R i \<Longrightarrow> at s j = V i j) \<Longrightarrow>
      (\<And>j. in_bounds s0 j \<Longrightarrow> (\<And>i. 0 \<le> i \<Longrightarrow> i < n \<Longrightarrow> j \<notin> R i) \<Longrightarrow> at s j = at s0 j) \<Longrightarrow> Q s"
  shows "yields (omp_for order n body s0) Q"
proof -
  have o: "distinct (order n)" "set (order n) = {0..<n}"
    using scheduleD [of "order n" n] sched by (auto simp: is_schedule_def)
  have "yields (for_each (order n) body s0) (\<lambda>s. length s = length s0 \<and>
      (\<forall>i\<in>set (order n). \<forall>j\<in>{0..<int (length s0)} \<inter> R i. at s j = V i j) \<and>
      (\<forall>j\<in>{0..<int (length s0)}. (\<forall>i\<in>set (order n). j \<notin> R i) \<longrightarrow> at s j = at s0 j))"
  proof (rule yields_for_each_regions [where get = at], goal_cases)
    case (1 i s)
    then have "yields (body i s) (\<lambda>s'. length s' = length s0 \<and>
        (\<forall>j. in_bounds s0 j \<longrightarrow> at s' j = (if j \<in> R i then V i j else at s j)))"
      using o by (intro body) auto
    then show ?case by (rule yields_mono) auto
  qed (use o disj in auto)
  then show ?thesis unfolding omp_for_def o by (rule yields_mono) (rule Q; auto)
qed

text \<open>Writes compose when both put the same values.\<close>

lemma writes_refl: "writes s (\<lambda>_. {}) V s"
  by (rule writesI) auto

lemma writes_trans:
  assumes "writes s R V s1" "writes s1 R' V s2" shows "writes s (\<lambda>k. R k \<union> R' k) V s2"
proof (rule writesI)
  show "length (s2 k) = length (s k)" for k using assms by simp
  show "at (s2 k) j = (if j \<in> R k \<union> R' k then V k j else at (s k) j)" if j: "in_bounds (s k) j" for k j
    using writes_at [OF assms(1) j] writes_at [OF assms(2), of j k] j assms(1) by auto
qed

lemma writes_cong: "writes s R V s' \<Longrightarrow> (\<And>k. R k = R' k) \<Longrightarrow> writes s R' V s'"
proof -
  assume w: "writes s R V s'" and "\<And>k. R k = R' k"
  then have "R = R'" by blast
  with w show ?thesis by simp
qed

lemma yields_writes_bind:
  assumes "yields m (writes s R V)" "\<And>s1. writes s R V s1 \<Longrightarrow> yields (f s1) (writes s1 R' V)" "\<And>k. R k \<union> R' k = R'' k"
  shows "yields (Option.bind m f) (writes s R'' V)"
proof (rule yields_bindI [OF assms(1)])
  fix s1 assume w: "writes s R V s1"
  show "yields (f s1) (writes s R'' V)"
    by (rule yields_mono [OF assms(2) [OF w]]) (rule writes_cong [OF writes_trans [OF w] assms(3)])
qed

lemma yields_on_wr: "in_bounds (s k) i \<Longrightarrow> V k i = v \<Longrightarrow> yields (on s k (\<lambda>b. wr b i v)) (writes s (\<lambda>k'. if k' = k then {i} else {}) V)"
  by (auto simp: on_wr at_upd intro!: writesI)

lemma yields_for_range_writes:
  assumes "\<And>i s. lo \<le> i \<Longrightarrow> i < hi \<Longrightarrow> (\<And>k. length (s k) = length (s0 k)) \<Longrightarrow> yields (body i s) (writes s (R i) V)"
  shows "yields (for_range lo hi body s0) (writes s0 (\<lambda>k. \<Union>i\<in>{lo..<hi}. R i k) V)"
proof (cases "lo \<le> hi")
  case True
  show ?thesis
  proof (rule yields_for_range [where P = "\<lambda>n. writes s0 (\<lambda>k. \<Union>i\<in>{lo..<n}. R i k) V"], goal_cases)
    case (3 n s)
    have "{lo..<n + 1} = insert n {lo..<n}" using 3 by auto
    then have eq: "(\<Union>i\<in>{lo..<n}. R i k) \<union> R n k = (\<Union>i\<in>{lo..<n + 1}. R i k)" for k by auto
    have "yields (body n s) (writes s (R n) V)" using 3 by (intro assms) auto
    then show ?case by (rule yields_mono) (rule writes_cong [OF writes_trans [OF 3(3)] eq])
  qed (simp_all add: True writes_refl)
qed (simp add: writes_refl)

end
