(* ===== verification/Block_Table.thy ===== *)
theory Block_Table
  imports Kernels
begin

text \<open>
  The block table kernels of \<open>src/csrc/cpu/block_table.cpp\<close>.

  \<open>gather_block_table_cpu\<close> copies the block rows of the scheduled requests to the rows of the batch
  and clears the padding rows; \<open>compute_slot_mapping_cpu\<close> turns token positions into cache slots.
  The theorems give every element of the results, which includes that no access leaves a buffer,
  and that tokens of a batch never share a cache slot when the requests do not share blocks.
\<close>

section \<open>The kernels\<close>

definition gather_block_table_cpu ::
  "int tensor2 \<Rightarrow> int tensor2 \<Rightarrow> int list \<Rightarrow> int list \<Rightarrow> int \<Rightarrow> int tensor2 option" where
  "gather_block_table_cpu block_table output idx_mapping num_blocks num_reqs_padded =
     (let num_reqs = int (length idx_mapping);
          block_table_stride = stride0 block_table;
          output_stride = stride0 output
      in do {
        out1 \<leftarrow> for_range 0 num_reqs (\<lambda>batch_idx out. do {
            req_idx \<leftarrow> rd idx_mapping batch_idx;
            request_num_blocks \<leftarrow> rd num_blocks req_idx;
            memcpy out (batch_idx * output_stride) (dat block_table) (req_idx * block_table_stride)
              request_num_blocks }) (dat output);
        out2 \<leftarrow> for_range num_reqs num_reqs_padded (\<lambda>batch_idx out.
            fill out (batch_idx * output_stride) (batch_idx * output_stride + size1 output) 0) out1;
        Some (output\<lparr>dat := out2\<rparr>) })"

definition slot_of :: "int tensor2 \<Rightarrow> int \<Rightarrow> int \<Rightarrow> int \<Rightarrow> int option" where
  "slot_of block_table block_size req_state_idx position = do {
     block_idx \<leftarrow> sdiv position block_size;
     block_offset \<leftarrow> smod position block_size;
     block_number \<leftarrow> rd (dat block_table) (req_state_idx * stride0 block_table + block_idx);
     base \<leftarrow> ck64 (block_number * block_size);
     ck64 (base + block_offset) }"

definition compute_slot_mapping_cpu ::
  "int tensor2 \<Rightarrow> int list \<Rightarrow> int list \<Rightarrow> int list \<Rightarrow> int list \<Rightarrow> int \<Rightarrow> bool \<Rightarrow> int \<Rightarrow> int list option" where
  "compute_slot_mapping_cpu block_table slot_mapping idx_mapping query_start_loc positions block_size
     mapping_enabled pad_slot_id =
     (let num_reqs = int (length idx_mapping) in do {
        num_tokens \<leftarrow> rd query_start_loc num_reqs;
        filled \<leftarrow> fill slot_mapping num_tokens (int (length slot_mapping)) pad_slot_id;
        for_range 0 num_reqs (\<lambda>batch_idx slots. do {
          req_state_idx \<leftarrow> rd idx_mapping batch_idx;
          start \<leftarrow> rd query_start_loc batch_idx;
          end \<leftarrow> rd query_start_loc (batch_idx + 1);
          if \<not> mapping_enabled \<or> req_state_idx < 0 then fill slots start end pad_slot_id
          else for_range start end (\<lambda>token_idx slots. do {
              position \<leftarrow> rd positions token_idx;
              slot \<leftarrow> slot_of block_table block_size req_state_idx position;
              wr slots token_idx slot }) slots }) filled })"

section \<open>Gathering block rows\<close>

text \<open>What the element \<open>(b, j)\<close> of the output is to be.\<close>

definition gathered :: "int tensor2 \<Rightarrow> int tensor2 \<Rightarrow> int list \<Rightarrow> int list \<Rightarrow> int \<Rightarrow> int \<Rightarrow> int \<Rightarrow> int" where
  "gathered block_table output idx_mapping num_blocks num_reqs_padded b j =
     (if b < int (length idx_mapping) then
        (let req = at idx_mapping b in if j < at num_blocks req then el2 block_table req j else el2 output b j)
      else if b < num_reqs_padded then 0 else el2 output b j)"

definition gather_ok :: "int tensor2 \<Rightarrow> int tensor2 \<Rightarrow> int list \<Rightarrow> int list \<Rightarrow> int \<Rightarrow> bool" where
  "gather_ok block_table output idx_mapping num_blocks num_reqs_padded \<longleftrightarrow>
     wf2 block_table \<and> wf2 output \<and> int (length idx_mapping) \<le> size0 output \<and> num_reqs_padded \<le> size0 output \<and>
     (\<forall>req \<in> set idx_mapping. in_bounds num_blocks req \<and> req < size0 block_table \<and>
        0 \<le> at num_blocks req \<and> at num_blocks req \<le> size1 block_table \<and> at num_blocks req \<le> size1 output)"

lemma gather_copy_rows:
  assumes "gather_ok block_table output idx_mapping num_blocks num_reqs_padded"
  shows "yields (for_range 0 (int (length idx_mapping)) (\<lambda>batch_idx out. do {
            req_idx \<leftarrow> rd idx_mapping batch_idx;
            request_num_blocks \<leftarrow> rd num_blocks req_idx;
            memcpy out (batch_idx * stride0 output) (dat block_table) (req_idx * stride0 block_table)
              request_num_blocks }) (dat output))
    (\<lambda>out. length out = length (dat output) \<and>
       (\<forall>b j. 0 \<le> b \<longrightarrow> b < size0 output \<longrightarrow> 0 \<le> j \<longrightarrow> j < size1 output \<longrightarrow>
          at out (b * stride0 output + j) =
            gathered block_table output idx_mapping num_blocks (int (length idx_mapping)) b j))"
    (is "yields (for_range 0 ?n ?body _) _")
proof (rule yields_for_range_flat
    [where R = "\<lambda>b. {b * stride0 output..<b * stride0 output + at num_blocks (at idx_mapping b)}"
      and V = "\<lambda>b j. el2 block_table (at idx_mapping b) (j - b * stride0 output)"])
  fix b and out :: "int list"
  assume b: "0 \<le> b" "b < ?n" and len: "length out = length (dat output)"
  define req where "req = at idx_mapping b"
  have ok: "wf2 block_table" "wf2 output" "b < size0 output" "in_bounds num_blocks req"
    "req < size0 block_table" "0 \<le> at num_blocks req" "at num_blocks req \<le> size1 block_table"
    "at num_blocks req \<le> size1 output"
    using assms b at_in_set [of b idx_mapping] by (auto simp: gather_ok_def req_def)
  note src = row_in_bounds [OF ok(1), of req] and dst = row_in_bounds [OF ok(2) b(1) ok(3)]
  show "yields (?body b out) (\<lambda>out'. length out' = length (dat output) \<and>
      (\<forall>j. in_bounds (dat output) j \<longrightarrow> at out' j =
         (if j \<in> {b * stride0 output..<b * stride0 output + at num_blocks (at idx_mapping b)}
          then el2 block_table (at idx_mapping b) (j - b * stride0 output) else at out j)))"
    unfolding req_def [symmetric]
    apply (intro yields_rd_bind)
    using b ok src [of 0] src [of "at num_blocks req"] dst [of 0] dst [of "at num_blocks req"] len
    by (auto simp: req_def el2_def intro!: yields_memcpy)
next
  fix b b' assume "0 \<le> b" "b < ?n" "0 \<le> b'" "b' < ?n" "b \<noteq> b'"
  then show "{b * stride0 output..<b * stride0 output + at num_blocks (at idx_mapping b)} \<inter>
      {b' * stride0 output..<b' * stride0 output + at num_blocks (at idx_mapping b')} = {}"
    using assms at_in_set [of b idx_mapping] at_in_set [of b' idx_mapping]
    by (intro rows_disjoint) (auto simp: gather_ok_def wf2_def)
next
  fix out :: "int list" assume len: "length out = length (dat output)"
    and new: "\<And>b j. 0 \<le> b \<Longrightarrow> b < ?n \<Longrightarrow> in_bounds (dat output) j \<Longrightarrow>
      j \<in> {b * stride0 output..<b * stride0 output + at num_blocks (at idx_mapping b)} \<Longrightarrow>
      at out j = el2 block_table (at idx_mapping b) (j - b * stride0 output)"
    and old: "\<And>j. in_bounds (dat output) j \<Longrightarrow>
      (\<And>b. 0 \<le> b \<Longrightarrow> b < ?n \<Longrightarrow> j \<notin> {b * stride0 output..<b * stride0 output + at num_blocks (at idx_mapping b)}) \<Longrightarrow>
      at out j = at (dat output) j"
  have ok: "wf2 output" "size1 output \<le> stride0 output" using assms by (auto simp: gather_ok_def wf2_def)
  have "at out (b * stride0 output + j) = gathered block_table output idx_mapping num_blocks ?n b j"
    if bj: "0 \<le> b" "b < size0 output" "0 \<le> j" "j < size1 output" for b j
  proof (cases "b < ?n \<and> j < at num_blocks (at idx_mapping b)")
    case True
    then show ?thesis using new [of b "b * stride0 output + j"] row_in_bounds [OF ok(1), of b j] bj
      by (simp add: gathered_def Let_def)
  next
    case False
    have "at out (b * stride0 output + j) = at (dat output) (b * stride0 output + j)"
    proof (rule old)
      fix b' assume b': "0 \<le> b'" "b' < ?n"
      show "b * stride0 output + j \<notin> {b' * stride0 output..<b' * stride0 output + at num_blocks (at idx_mapping b')}"
        using rows_disjoint [of b b' "stride0 output" "stride0 output" "at num_blocks (at idx_mapping b')"]
          False b' bj ok assms at_in_set [of b' idx_mapping]
        by (cases "b = b'") (auto simp: gather_ok_def)
    qed (use row_in_bounds [OF ok(1), of b j] bj in auto)
    then show ?thesis using False by (auto simp: gathered_def el2_def Let_def)
  qed
  then show "length out = length (dat output) \<and> (\<forall>b j. 0 \<le> b \<longrightarrow> b < size0 output \<longrightarrow> 0 \<le> j \<longrightarrow>
      j < size1 output \<longrightarrow> at out (b * stride0 output + j) = gathered block_table output idx_mapping num_blocks ?n b j)"
    using len by blast
qed

lemma gather_clear_rows:
  fixes out1 :: "int list"
  assumes wf: "wf2 output" and len: "length out1 = length (dat output)" and n: "0 \<le> n" "m \<le> size0 output"
  shows "yields (for_range n m (\<lambda>b out. fill out (b * stride0 output) (b * stride0 output + size1 output) 0) out1)
    (\<lambda>out. length out = length (dat output) \<and>
       (\<forall>b j. 0 \<le> b \<longrightarrow> b < size0 output \<longrightarrow> 0 \<le> j \<longrightarrow> j < size1 output \<longrightarrow>
          at out (b * stride0 output + j) = (if n \<le> b \<and> b < m then 0 else at out1 (b * stride0 output + j))))"
proof (rule yields_for_range_flat [where R = "\<lambda>b. {b * stride0 output..<b * stride0 output + size1 output}"
      and V = "\<lambda>_ _. 0"])
  fix b and out :: "int list" assume b: "n \<le> b" "b < m" and l: "length out = length out1"
  have b': "0 \<le> b" "b < size0 output" "0 \<le> size1 output" using b n wf by (auto simp: wf2_def)
  show "yields (fill out (b * stride0 output) (b * stride0 output + size1 output) 0)
      (\<lambda>s'. length s' = length out1 \<and> (\<forall>j. in_bounds out1 j \<longrightarrow> at s' j =
         (if j \<in> {b * stride0 output..<b * stride0 output + size1 output} then 0 else at out j)))"
    by (rule yields_fill)
      (use row_in_bounds [OF wf b'(1,2), of 0] row_in_bounds [OF wf b'(1,2), of "size1 output"] b' l len in auto)
next
  fix b b' :: int assume "b \<noteq> b'"
  then show "{b * stride0 output..<b * stride0 output + size1 output} \<inter>
      {b' * stride0 output..<b' * stride0 output + size1 output} = {}"
    using wf by (intro rows_disjoint) (auto simp: wf2_def)
next
  fix out :: "int list" assume l: "length out = length out1"
    and new: "\<And>b j. n \<le> b \<Longrightarrow> b < m \<Longrightarrow> in_bounds out1 j \<Longrightarrow>
      j \<in> {b * stride0 output..<b * stride0 output + size1 output} \<Longrightarrow> at out j = 0"
    and old: "\<And>j. in_bounds out1 j \<Longrightarrow>
      (\<And>b. n \<le> b \<Longrightarrow> b < m \<Longrightarrow> j \<notin> {b * stride0 output..<b * stride0 output + size1 output}) \<Longrightarrow> at out j = at out1 j"
  have "at out (b * stride0 output + j) = (if n \<le> b \<and> b < m then 0 else at out1 (b * stride0 output + j))"
    if bj: "0 \<le> b" "b < size0 output" "0 \<le> j" "j < size1 output" for b j
  proof (cases "n \<le> b \<and> b < m")
    case True
    then show ?thesis using new [of b "b * stride0 output + j"] row_in_bounds [OF wf, of b j] bj len by simp
  next
    case False
    have "at out (b * stride0 output + j) = at out1 (b * stride0 output + j)"
    proof (rule old)
      fix b' assume "n \<le> b'" "b' < m"
      then show "b * stride0 output + j \<notin> {b' * stride0 output..<b' * stride0 output + size1 output}"
        using rows_disjoint [of b b' "size1 output" "stride0 output" "size1 output"] False bj wf
        by (auto simp: wf2_def)
    qed (use row_in_bounds [OF wf, of b j] bj len in auto)
    then show ?thesis using False by auto
  qed
  then show "length out = length (dat output) \<and> (\<forall>b j. 0 \<le> b \<longrightarrow> b < size0 output \<longrightarrow> 0 \<le> j \<longrightarrow>
      j < size1 output \<longrightarrow> at out (b * stride0 output + j) =
        (if n \<le> b \<and> b < m then 0 else at out1 (b * stride0 output + j)))"
    using l len by simp
qed

text \<open>C36. Gathering the block table returns, without leaving a buffer, the tensor whose row \<open>b\<close> starts
  with the blocks of the \<open>b\<close>-th scheduled request and is unchanged behind them; the padding rows are
  zero and further rows are unchanged.\<close>

theorem gather_block_table:
  assumes "gather_ok block_table output idx_mapping num_blocks num_reqs_padded"
  shows "\<exists>out. gather_block_table_cpu block_table output idx_mapping num_blocks num_reqs_padded = Some out \<and>
    size0 out = size0 output \<and> size1 out = size1 output \<and> stride0 out = stride0 output \<and>
    (\<forall>b j. 0 \<le> b \<longrightarrow> b < size0 output \<longrightarrow> 0 \<le> j \<longrightarrow> j < size1 output \<longrightarrow>
       el2 out b j = gathered block_table output idx_mapping num_blocks num_reqs_padded b j)"
proof -
  let ?n = "int (length idx_mapping)"
  have "yields (gather_block_table_cpu block_table output idx_mapping num_blocks num_reqs_padded)
    (\<lambda>out. size0 out = size0 output \<and> size1 out = size1 output \<and> stride0 out = stride0 output \<and>
      (\<forall>b j. 0 \<le> b \<longrightarrow> b < size0 output \<longrightarrow> 0 \<le> j \<longrightarrow> j < size1 output \<longrightarrow>
         el2 out b j = gathered block_table output idx_mapping num_blocks num_reqs_padded b j))"
    unfolding gather_block_table_cpu_def Let_def
  proof (rule yields_bindI [OF gather_copy_rows [OF assms]])
    fix out1 :: "int list"
    assume out1: "length out1 = length (dat output) \<and> (\<forall>b j. 0 \<le> b \<longrightarrow> b < size0 output \<longrightarrow> 0 \<le> j \<longrightarrow>
      j < size1 output \<longrightarrow> at out1 (b * stride0 output + j) = gathered block_table output idx_mapping num_blocks ?n b j)"
    show "yields (do { out2 \<leftarrow> for_range ?n num_reqs_padded (\<lambda>batch_idx out.
            fill out (batch_idx * stride0 output) (batch_idx * stride0 output + size1 output) 0) out1;
        Some (output\<lparr>dat := out2\<rparr>) })
      (\<lambda>out. size0 out = size0 output \<and> size1 out = size1 output \<and> stride0 out = stride0 output \<and>
        (\<forall>b j. 0 \<le> b \<longrightarrow> b < size0 output \<longrightarrow> 0 \<le> j \<longrightarrow> j < size1 output \<longrightarrow>
           el2 out b j = gathered block_table output idx_mapping num_blocks num_reqs_padded b j))"
      by (rule yields_bindI [OF gather_clear_rows])
        (use assms out1 in \<open>auto simp: gather_ok_def el2_def gathered_def Let_def\<close>)
  qed
  then show ?thesis by (rule yieldsD)
qed

definition demo_table :: "int tensor2" where
  "demo_table = \<lparr>dat = [7, 9, 4, 5, 0, 0, 8, 3], size0 = 4, size1 = 2, stride0 = 2, stride1 = 1\<rparr>"

definition demo_rows :: "int tensor2" where
  "demo_rows = \<lparr>dat = [-1, -1, -1, -1, -1, -1, -1], size0 = 3, size1 = 1, stride0 = 3, stride1 = 1\<rparr>"

theorem gather_block_table_witness:
  "\<exists>out. gather_block_table_cpu demo_table demo_rows [3, 0] [1, 2, 0, 1] 3 = Some out \<and>
    el2 out 0 0 = 8 \<and> el2 out 1 0 = 7 \<and> el2 out 2 0 = 0"
proof -
  have "gather_ok demo_table demo_rows [3, 0] [1, 2, 0, 1] 3"
    by (simp add: gather_ok_def demo_table_def demo_rows_def wf2_def at_def)
  from gather_block_table [OF this] obtain out where
    out: "gather_block_table_cpu demo_table demo_rows [3, 0] [1, 2, 0, 1] 3 = Some out"
    "\<forall>b j. 0 \<le> b \<longrightarrow> b < size0 demo_rows \<longrightarrow> 0 \<le> j \<longrightarrow> j < size1 demo_rows \<longrightarrow>
       el2 out b j = gathered demo_table demo_rows [3, 0] [1, 2, 0, 1] 3 b j" by blast
  have "el2 out b 0 = gathered demo_table demo_rows [3, 0] [1, 2, 0, 1] 3 b 0" if "0 \<le> b" "b < 3" for b
    using out(2) that by (simp add: demo_rows_def)
  moreover have "gathered demo_table demo_rows [3, 0] [1, 2, 0, 1] 3 0 0 = 8"
    "gathered demo_table demo_rows [3, 0] [1, 2, 0, 1] 3 1 0 = 7"
    "gathered demo_table demo_rows [3, 0] [1, 2, 0, 1] 3 2 0 = 0" by code_simp+
  ultimately have "el2 out 0 0 = 8 \<and> el2 out 1 0 = 7 \<and> el2 out 2 0 = 0" by simp
  with out(1) show ?thesis by blast
qed

section \<open>Slot mapping\<close>

definition slot_value :: "int tensor2 \<Rightarrow> int \<Rightarrow> int \<Rightarrow> int \<Rightarrow> int" where
  "slot_value block_table block_size req position =
     el2 block_table req (position div block_size) * block_size + position mod block_size"

text \<open>A position that the block table of request \<open>req\<close> covers, with a slot that fits 64 bits.\<close>

definition covered :: "int tensor2 \<Rightarrow> int \<Rightarrow> int \<Rightarrow> int \<Rightarrow> bool" where
  "covered block_table block_size req position \<longleftrightarrow>
     0 < block_size \<and> 0 \<le> req \<and> req < size0 block_table \<and> 0 \<le> position \<and> in_i64 position \<and>
     position div block_size < size1 block_table \<and> 0 \<le> el2 block_table req (position div block_size) \<and>
     in_i64 ((el2 block_table req (position div block_size) + 1) * block_size)"

lemma slot_of_covered:
  assumes "wf2 block_table" "covered block_table block_size req position"
  shows "slot_of block_table block_size req position = Some (slot_value block_table block_size req position)"
proof -
  let ?i = "position div block_size" and ?o = "position mod block_size"
  let ?b = "el2 block_table req ?i"
  have c: "0 < block_size" "0 \<le> req" "req < size0 block_table" "0 \<le> position" "in_i64 position"
    "?i < size1 block_table" "0 \<le> ?b" "in_i64 ((?b + 1) * block_size)"
    using assms(2) by (auto simp: covered_def)
  have i: "0 \<le> ?i" using c by (simp add: pos_imp_zdiv_nonneg_iff)
  have o: "0 \<le> ?o" "?o < block_size" using c by auto
  have top: "?b * block_size + block_size = (?b + 1) * block_size" by (simp add: algebra_simps)
  have nn: "0 \<le> ?b * block_size" using c by simp
  have "in_i64 (?b * block_size)" "in_i64 (?b * block_size + ?o)"
    using in_i64_between [OF _ _ c(8), of "?b * block_size"] in_i64_between [OF _ _ c(8), of "?b * block_size + ?o"]
      nn o top by linarith+
  moreover have "rd (dat block_table) (req * stride0 block_table + ?i) = Some ?b"
    using row_in_bounds [OF assms(1) c(2,3) i] c(6) by (simp add: rd_at el2_def)
  ultimately show ?thesis
    using c by (simp add: slot_of_def sdiv_nonneg smod_nonneg ck64_def slot_value_def)
qed

lemma yields_slot_of_bind:
  "wf2 block_table \<Longrightarrow> covered block_table block_size req position \<Longrightarrow>
    yields (f (slot_value block_table block_size req position)) Q \<Longrightarrow>
    yields (Option.bind (slot_of block_table block_size req position) f) Q"
  by (simp add: slot_of_covered)

definition slots_ok :: "int tensor2 \<Rightarrow> int list \<Rightarrow> int list \<Rightarrow> int list \<Rightarrow> int list \<Rightarrow> int \<Rightarrow> bool \<Rightarrow> bool" where
  "slots_ok block_table slot_mapping idx_mapping query_start_loc positions block_size mapping_enabled \<longleftrightarrow>
     wf2 block_table \<and>
     offsets_ok query_start_loc (int (length idx_mapping)) (int (length slot_mapping)) \<and>
     (\<forall>b \<in> {0..<int (length idx_mapping)}. \<not> mapping_enabled \<or> at idx_mapping b < 0 \<or>
        (\<forall>t \<in> segment query_start_loc b. in_bounds positions t \<and>
           covered block_table block_size (at idx_mapping b) (at positions t)))"

definition mapped_slot :: "int tensor2 \<Rightarrow> int list \<Rightarrow> int list \<Rightarrow> int \<Rightarrow> bool \<Rightarrow> int \<Rightarrow> int \<Rightarrow> int \<Rightarrow> int" where
  "mapped_slot block_table idx_mapping positions block_size mapping_enabled pad b t =
     (if \<not> mapping_enabled \<or> at idx_mapping b < 0 then pad
      else slot_value block_table block_size (at idx_mapping b) (at positions t))"

lemma slot_loop:
  assumes "wf2 block_table" "0 \<le> start" "end \<le> int (length slots)"
    and "\<And>t. start \<le> t \<Longrightarrow> t < end \<Longrightarrow> in_bounds positions t \<and> covered block_table block_size req (at positions t)"
  shows "yields (for_range start end (\<lambda>token_idx slots. do {
              position \<leftarrow> rd positions token_idx;
              slot \<leftarrow> slot_of block_table block_size req position;
              wr slots token_idx slot }) slots)
    (\<lambda>r. length r = length slots \<and> (\<forall>j. in_bounds slots j \<longrightarrow> at r j =
       (if j \<in> {start..<end} then slot_value block_table block_size req (at positions j) else at slots j)))"
  by (rule yields_for_range_flat [where R = "\<lambda>t. {t}" and
        V = "\<lambda>t _. slot_value block_table block_size req (at positions t)"])
    (use assms in \<open>auto intro!: yields_rd_bind yields_slot_of_bind yields_wr\<close>)

lemma slot_mapping_correct:
  assumes "slots_ok block_table slot_mapping idx_mapping query_start_loc positions block_size mapping_enabled"
  shows "yields (compute_slot_mapping_cpu block_table slot_mapping idx_mapping query_start_loc positions
      block_size mapping_enabled pad) (\<lambda>slots. length slots = length slot_mapping \<and>
    (\<forall>b t. 0 \<le> b \<longrightarrow> b < int (length idx_mapping) \<longrightarrow> t \<in> segment query_start_loc b \<longrightarrow>
       at slots t = mapped_slot block_table idx_mapping positions block_size mapping_enabled pad b t) \<and>
    (\<forall>t. at query_start_loc (int (length idx_mapping)) \<le> t \<longrightarrow> t < int (length slot_mapping) \<longrightarrow> at slots t = pad))"
proof -
  let ?n = "int (length idx_mapping)" and ?q = query_start_loc
  have wf: "wf2 block_table" and off: "offsets_ok ?q ?n (int (length slot_mapping))"
    using assms by (auto simp: slots_ok_def)
  show ?thesis unfolding compute_slot_mapping_cpu_def Let_def
  proof (intro yields_rd_bind yields_bind [OF yields_fill] yields_for_range_flat
        [where R = "segment ?q" and V = "mapped_slot block_table idx_mapping positions block_size mapping_enabled pad"])
    fix filled slots :: "int list" and b
    assume l: "length filled = length slot_mapping" "length slots = length filled" and b: "0 \<le> b" "b < ?n"
    have q: "0 \<le> at ?q b" "at ?q b \<le> at ?q (b + 1)" "at ?q (b + 1) \<le> int (length slots)"
      using offsets_bounds [OF off, of b] offsets_bounds [OF off, of "b + 1"] offsets_mono [OF off, of b "b + 1"] b l
      by auto
    let ?V = "mapped_slot block_table idx_mapping positions block_size mapping_enabled pad b"
    show "yields (if \<not> mapping_enabled \<or> at idx_mapping b < 0 then fill slots (at ?q b) (at ?q (b + 1)) pad
        else for_range (at ?q b) (at ?q (b + 1)) (\<lambda>token_idx slots. do {
              position \<leftarrow> rd positions token_idx;
              slot \<leftarrow> slot_of block_table block_size (at idx_mapping b) position;
              wr slots token_idx slot }) slots)
      (\<lambda>s'. length s' = length filled \<and>
        (\<forall>j. in_bounds filled j \<longrightarrow> at s' j = (if j \<in> segment ?q b then ?V j else at slots j)))"
    proof (cases "\<not> mapping_enabled \<or> at idx_mapping b < 0")
      case True
      then show ?thesis using q l by (auto simp: segment_def mapped_slot_def intro!: yields_fill)
    next
      case False
      have "in_bounds positions t \<and> covered block_table block_size (at idx_mapping b) (at positions t)"
        if "at ?q b \<le> t" "t < at ?q (b + 1)" for t
        using assms b False that by (auto simp: slots_ok_def segment_def)
      from yields_mono [OF slot_loop [OF wf q(1,3) this]] False l show ?thesis
        by (auto simp: segment_def mapped_slot_def)
    qed
  next
    fix filled slots :: "int list"
    assume "length filled = length slot_mapping" "length slots = length filled"
      and f: "\<And>j. in_bounds slot_mapping j \<Longrightarrow> at filled j =
        (if at ?q ?n \<le> j \<and> j < int (length slot_mapping) then pad else at slot_mapping j)"
      and new: "\<And>b j. 0 \<le> b \<Longrightarrow> b < ?n \<Longrightarrow> in_bounds filled j \<Longrightarrow> j \<in> segment ?q b \<Longrightarrow> at slots j =
        mapped_slot block_table idx_mapping positions block_size mapping_enabled pad b j"
      and old: "\<And>j. in_bounds filled j \<Longrightarrow> (\<And>b. 0 \<le> b \<Longrightarrow> b < ?n \<Longrightarrow> j \<notin> segment ?q b) \<Longrightarrow> at slots j = at filled j"
    moreover have "0 \<le> at ?q ?n" using offsets_bounds [OF off, of ?n] by simp
    moreover have "j \<notin> segment ?q b" if "at ?q ?n \<le> j" "0 \<le> b" "b < ?n" for j b
      using in_segment [OF off, of b j] that by auto
    ultimately show "length slots = length slot_mapping \<and>
        (\<forall>b t. 0 \<le> b \<longrightarrow> b < ?n \<longrightarrow> t \<in> segment ?q b \<longrightarrow>
           at slots t = mapped_slot block_table idx_mapping positions block_size mapping_enabled pad b t) \<and>
        (\<forall>t. at ?q ?n \<le> t \<longrightarrow> t < int (length slot_mapping) \<longrightarrow> at slots t = pad)"
      using in_segment [OF off] by (intro conjI allI impI) auto
  qed (use off offsets_bounds [OF off] offsets_bounds(3) [OF off, of ?n] segments_disjoint [OF off] in auto)
qed

text \<open>C17. The slot mapping kernel returns, without leaving a buffer or overflowing, the array that gives
  each token of a mapped request its block number times the block size plus the offset of its
  position, and the padding slot to every token of an unmapped request and to every entry behind
  the last token.\<close>

theorem compute_slot_mapping:
  assumes "slots_ok block_table slot_mapping idx_mapping query_start_loc positions block_size mapping_enabled"
  shows "\<exists>slots. compute_slot_mapping_cpu block_table slot_mapping idx_mapping query_start_loc positions
      block_size mapping_enabled pad = Some slots \<and> length slots = length slot_mapping \<and>
    (\<forall>b t. 0 \<le> b \<longrightarrow> b < int (length idx_mapping) \<longrightarrow> t \<in> segment query_start_loc b \<longrightarrow>
       at slots t = mapped_slot block_table idx_mapping positions block_size mapping_enabled pad b t) \<and>
    (\<forall>t. at query_start_loc (int (length idx_mapping)) \<le> t \<longrightarrow> t < int (length slot_mapping) \<longrightarrow> at slots t = pad)"
  using slot_mapping_correct [OF assms, THEN yieldsD] .

theorem compute_slot_mapping_witness:
  "\<exists>slots. compute_slot_mapping_cpu demo_table [0, 0, 0, 0, 0] [3, -1, 0] [0, 2, 3, 4] [15, 16, 5, 31] 16 True (-7) = Some slots
    \<and> at slots 0 = 8 * 16 + 15 \<and> at slots 1 = 3 * 16 \<and> at slots 2 = -7 \<and> at slots 3 = 9 * 16 + 15 \<and> at slots 4 = -7"
proof -
  let ?m = "mapped_slot demo_table [3, -1, 0] [15, 16, 5, 31] 16 True (-7)"
  have "slots_ok demo_table [0, 0, 0, 0, 0] [3, -1, 0] [0, 2, 3, 4] [15, 16, 5, 31] 16 True" by code_simp
  from compute_slot_mapping [OF this, of "-7"] obtain slots where
    s: "compute_slot_mapping_cpu demo_table [0, 0, 0, 0, 0] [3, -1, 0] [0, 2, 3, 4] [15, 16, 5, 31] 16 True (-7) = Some slots"
    "\<And>b t. 0 \<le> b \<Longrightarrow> b < 3 \<Longrightarrow> t \<in> segment [0, 2, 3, 4] b \<Longrightarrow> at slots t = ?m b t"
    "\<And>t. at [0, 2, 3, 4] 3 \<le> t \<Longrightarrow> t < 5 \<Longrightarrow> at slots t = -7" by auto
  have "?m 0 0 = 8 * 16 + 15" "?m 0 1 = 3 * 16" "?m 1 2 = -7" "?m 2 3 = 9 * 16 + 15" by code_simp+
  then have "at slots 0 = 8 * 16 + 15 \<and> at slots 1 = 3 * 16 \<and> at slots 2 = -7 \<and> at slots 3 = 9 * 16 + 15"
    using s(2) [of 0 0] s(2) [of 0 1] s(2) [of 1 2] s(2) [of 2 3] by (simp add: segment_def at_def)
  with s(1) s(3) [of 4] show ?thesis by (simp add: at_def)
qed

text \<open>An entry of the block table is a pair of a row and a column.  The blocks in the entries \<open>W\<close>, which a step writes, are private
  among the entries \<open>U\<close> when none of them stands in another entry of \<open>U\<close>.  Entries outside \<open>U\<close>, such as the unused ones that hold zero, do
  not matter, and the blocks that are only read may be shared.\<close>

definition private_blocks :: "int tensor2 \<Rightarrow> (int \<times> int) set \<Rightarrow> (int \<times> int) set \<Rightarrow> bool" where
  "private_blocks block_table W U \<longleftrightarrow>
     (\<forall>(r, i) \<in> W. \<forall>(r', i') \<in> U. el2 block_table r i = el2 block_table r' i' \<longrightarrow> r = r' \<and> i = i')"

text \<open>The entries that hold the positions of the scheduled tokens of mapped requests.\<close>

definition written_entries :: "int list \<Rightarrow> int list \<Rightarrow> int list \<Rightarrow> int \<Rightarrow> (int \<times> int) set" where
  "written_entries idx_mapping query_start_loc positions block_size =
     (\<Union>b \<in> {0..<int (length idx_mapping)}.
        if at idx_mapping b < 0 then {}
        else (\<lambda>t. (at idx_mapping b, at positions t div block_size)) ` segment query_start_loc b)"

lemma slots_ok_covered:
  assumes "slots_ok block_table slot_mapping idx_mapping query_start_loc positions block_size True"
    and "b \<in> {0..<int (length idx_mapping)}" "t \<in> segment query_start_loc b" "0 \<le> at idx_mapping b"
  shows "covered block_table block_size (at idx_mapping b) (at positions t)"
proof -
  have "at idx_mapping b < 0 \<or> (\<forall>t \<in> segment query_start_loc b.
      covered block_table block_size (at idx_mapping b) (at positions t))"
    using assms(1,2) by (auto simp: slots_ok_def)
  then show ?thesis using assms(3,4) by auto
qed

lemma private_blocksD:
  "private_blocks bt W U \<Longrightarrow> (r, i) \<in> W \<Longrightarrow> (r', i') \<in> U \<Longrightarrow> el2 bt r i = el2 bt r' i' \<Longrightarrow> r = r' \<and> i = i'"
  by (auto simp: private_blocks_def)

lemma slot_value_inj:
  assumes "private_blocks block_table W U" "(r, p div bs) \<in> W" "(r', p' div bs) \<in> U" "0 < bs"
    and "slot_value block_table bs r p = slot_value block_table bs r' p'"
  shows "r = r' \<and> p = p'"
proof -
  let ?e = "el2 block_table"
  have "?e r (p div bs) = ?e r' (p' div bs) \<and> p mod bs = p' mod bs"
    using assms(4,5) by (intro row_unique [where s = bs]) (auto simp: slot_value_def)
  moreover from this have "r = r' \<and> p div bs = p' div bs"
    using private_blocksD [OF assms(1-3)] by simp
  ultimately show ?thesis by (metis mult_div_mod_eq)
qed

lemma in_written_entries:
  "b \<in> {0..<int (length idx_mapping)} \<Longrightarrow> t \<in> segment query_start_loc b \<Longrightarrow> 0 \<le> at idx_mapping b \<Longrightarrow>
    (at idx_mapping b, at positions t div bs) \<in> written_entries idx_mapping query_start_loc positions bs"
  by (force simp: written_entries_def)

text \<open>C11. When the entries of the block table that hold the scheduled tokens' positions name different blocks, no request state is
  scheduled twice and positions do not repeat within a request, two tokens of mapped requests never get the same cache slot.
  Other entries of the table may hold anything.\<close>

theorem slots_never_shared:
  assumes "slots_ok block_table slot_mapping idx_mapping query_start_loc positions block_size True"
    and "private_blocks block_table (written_entries idx_mapping query_start_loc positions block_size)
      (written_entries idx_mapping query_start_loc positions block_size)"
    and "inj_on (at idx_mapping) {b \<in> {0..<int (length idx_mapping)}. 0 \<le> at idx_mapping b}"
    and "\<forall>b \<in> {0..<int (length idx_mapping)}. inj_on (at positions) (segment query_start_loc b)"
    and "compute_slot_mapping_cpu block_table slot_mapping idx_mapping query_start_loc positions
      block_size True pad = Some slots"
    and "b \<in> {0..<int (length idx_mapping)}" "t \<in> segment query_start_loc b" "0 \<le> at idx_mapping b"
    and "b' \<in> {0..<int (length idx_mapping)}" "t' \<in> segment query_start_loc b'" "0 \<le> at idx_mapping b'"
    and "t \<noteq> t'"
  shows "at slots t \<noteq> at slots t'"
proof
  assume eq: "at slots t = at slots t'"
  have bs: "0 < block_size"
    using slots_ok_covered [OF assms(1,6,7,8)] by (simp add: covered_def)
  have "at slots t = slot_value block_table block_size (at idx_mapping b) (at positions t)"
    "at slots t' = slot_value block_table block_size (at idx_mapping b') (at positions t')"
    using slot_mapping_correct [OF assms(1), THEN yieldsD, of pad] assms(5-11) by (auto simp: mapped_slot_def)
  with eq have same: "at idx_mapping b = at idx_mapping b'" "at positions t = at positions t'"
    using slot_value_inj [OF assms(2) in_written_entries [OF assms(6-8)] in_written_entries [OF assms(9-11)] bs] by auto
  then have "b = b'" using inj_onD [OF assms(3)] assms(6,8,9,11) by simp
  then show False using assms(4,6,7,10,12) same(2) by (auto dest: inj_onD)
qed

text \<open>A table with unused entries that hold zero, and a batch with a padding request.\<close>

theorem slots_never_shared_witness:
  "\<exists>slots. compute_slot_mapping_cpu \<lparr>dat = [7, 9, 0, 4, 5, 0, 0, 0, 0], size0 = 3, size1 = 3, stride0 = 3, stride1 = 1\<rparr>
     [0, 0, 0, 0] [1, -1, 0, -1] [0, 2, 3, 4, 4] [15, 16, 0, 31] 16 True (-1) = Some slots \<and> at slots 1 \<noteq> at slots 3"
proof -
  let ?bt = "\<lparr>dat = [7, 9, 0, 4, 5, 0, 0, 0, 0], size0 = 3, size1 = 3, stride0 = 3, stride1 = 1\<rparr> :: int tensor2"
  let ?i = "[1, -1, 0, -1] :: int list" and ?q = "[0, 2, 3, 4, 4] :: int list" and ?p = "[15, 16, 0, 31] :: int list"
  have ok: "slots_ok ?bt [0, 0, 0, 0] ?i ?q ?p 16 True" by code_simp
  have pr: "private_blocks ?bt (written_entries ?i ?q ?p 16) (written_entries ?i ?q ?p 16)" by code_simp
  have run: "compute_slot_mapping_cpu ?bt [0, 0, 0, 0] ?i ?q ?p 16 True (-1) = Some [79, 80, -1, 159]"
    by code_simp
  have rows: "inj_on (at ?i) {b \<in> {0..<int (length ?i)}. 0 \<le> at ?i b}"
    by (auto simp: inj_on_def at_def nth_Cons' split: if_splits)
  have inj: "\<forall>b \<in> {0..<int (length ?i)}. inj_on (at ?p) (segment ?q b)"
    by code_simp
  have "at [79, 80, -1, 159 :: int] 1 \<noteq> at [79, 80, -1, 159] 3"
    by (rule slots_never_shared [OF ok pr rows inj run, of 0 1 2 3]) (simp_all add: segment_def at_def)
  then show ?thesis using run by blast
qed

end
