(* ===== verification/Input_Batch.thy ===== *)
theory Input_Batch
  imports Block_Table
begin

text \<open>
  The input preparation kernels of \<open>src/csrc/cpu/input_batch.cpp\<close>, run by the model runner around each
  forward pass: prefill tokens and lookahead tokens, prompt logprob targets, positions and sequence
  lengths, multi-dimensional rotary positions, sampled and draft tokens, and the update of the
  request states after sampling.

  A kernel that writes several tensors works on a store of named buffers; the loop body of a kernel
  is a definition of its own.  32-bit and 64-bit overflow and accesses outside a buffer are \<open>None\<close>.
  Every kernel has a lemma that gives all elements of its results; \<open>post_update\<close> is shown to refine
  the operation on token histories it implements.
\<close>

section \<open>The kernels\<close>

subsection \<open>Prefill inputs\<close>

datatype prefill_buf = Input_ids | Next_prefill_tokens

definition lookahead_loop ::
  "int list \<Rightarrow> int \<Rightarrow> int \<Rightarrow> int \<Rightarrow> int \<Rightarrow> int \<Rightarrow> int \<Rightarrow> int list \<Rightarrow> int list option" where
  "lookahead_loop tokens request_tokens request_prefill_len lookahead_start num_lookahead stride
     req_state_idx next =
     for_range 0 num_lookahead (\<lambda>lookahead next. do {
       pos \<leftarrow> ck64 (lookahead_start + lookahead);
       v \<leftarrow> (if pos < request_prefill_len then rd tokens (request_tokens + pos) else Some 0);
       wr next (lookahead * stride + req_state_idx) v }) next"

definition prefill_request ::
  "int tensor2 \<Rightarrow> int list \<Rightarrow> int list \<Rightarrow> int tensor2 \<Rightarrow> int list \<Rightarrow> int list \<Rightarrow> int \<Rightarrow>
    prefill_buf store \<Rightarrow> prefill_buf store option" where
  "prefill_request next_prefill_tokens idx_mapping query_start_loc all_token_ids prefill_len
     num_computed_tokens batch_idx s = do {
       req_state_idx \<leftarrow> rd idx_mapping batch_idx;
       request_prefill_len \<leftarrow> rd prefill_len req_state_idx;
       num_computed \<leftarrow> rd num_computed_tokens req_state_idx;
       if num_computed \<ge> request_prefill_len then Some s
       else do {
         query_start \<leftarrow> rd query_start_loc batch_idx;
         query_end \<leftarrow> rd query_start_loc (batch_idx + 1);
         query_len \<leftarrow> ck32 (query_end - query_start);
         s1 \<leftarrow> on s Input_ids (\<lambda>ids. memcpy ids query_start (dat all_token_ids)
                  (req_state_idx * stride0 all_token_ids + num_computed) query_len);
         lookahead_start \<leftarrow> ck64 (num_computed + query_len);
         on s1 Next_prefill_tokens (lookahead_loop (dat all_token_ids)
           (req_state_idx * stride0 all_token_ids) request_prefill_len lookahead_start
           (size0 next_prefill_tokens) (stride0 next_prefill_tokens) req_state_idx) } }"

definition prepare_prefill_inputs_cpu ::
  "int list \<Rightarrow> int tensor2 \<Rightarrow> int list \<Rightarrow> int list \<Rightarrow> int tensor2 \<Rightarrow> int list \<Rightarrow> int list \<Rightarrow>
    prefill_buf store option" where
  "prepare_prefill_inputs_cpu input_ids next_prefill_tokens idx_mapping query_start_loc all_token_ids
     prefill_len num_computed_tokens =
     for_range 0 (int (length idx_mapping))
       (prefill_request next_prefill_tokens idx_mapping query_start_loc all_token_ids prefill_len
          num_computed_tokens)
       (case_prefill_buf input_ids (dat next_prefill_tokens))"

subsection \<open>Prompt logprob targets\<close>

text \<open>\<open>torch::empty\<close> returns a buffer of the given length with unspecified contents.\<close>

definition torch_empty :: "(int \<Rightarrow> int) \<Rightarrow> int \<Rightarrow> int list option" where
  "torch_empty garbage n = (if 0 \<le> n then Some (map garbage [0..n - 1]) else None)"

definition get_prompt_logprobs_token_ids_cpu ::
  "(int \<Rightarrow> int) \<Rightarrow> int \<Rightarrow> int list \<Rightarrow> int list \<Rightarrow> int list \<Rightarrow> int tensor2 \<Rightarrow> int list option" where
  "get_prompt_logprobs_token_ids_cpu garbage num_tokens query_start_loc idx_mapping
     num_computed_tokens all_token_ids = do {
     token_ids \<leftarrow> torch_empty garbage num_tokens;
     for_range 0 (int (length idx_mapping)) (\<lambda>batch_idx token_ids. do {
       req_state_idx \<leftarrow> rd idx_mapping batch_idx;
       query_start \<leftarrow> rd query_start_loc batch_idx;
       query_end \<leftarrow> rd query_start_loc (batch_idx + 1);
       computed \<leftarrow> rd num_computed_tokens req_state_idx;
       target_start \<leftarrow> ck32 (computed + 1);
       let request_tokens = req_state_idx * stride0 all_token_ids;
       transform (\<lambda>token_id. token_id) (dat all_token_ids) (request_tokens + target_start)
         (request_tokens + target_start + query_end - query_start) token_ids query_start }) token_ids }"

subsection \<open>Positions and sequence lengths\<close>

datatype pos_buf = Pos | Seq_lens

definition pos_request ::
  "int list \<Rightarrow> int list \<Rightarrow> int list \<Rightarrow> int \<Rightarrow> pos_buf store \<Rightarrow> pos_buf store option" where
  "pos_request idx_mapping query_start_loc num_computed_tokens req_idx s = do {
     req_state_idx \<leftarrow> rd idx_mapping req_idx;
     num_computed \<leftarrow> rd num_computed_tokens req_state_idx;
     start \<leftarrow> rd query_start_loc req_idx;
     end \<leftarrow> rd query_start_loc (req_idx + 1);
     seq_len \<leftarrow> ck32 (num_computed + i32 (end - start));
     s1 \<leftarrow> on s Seq_lens (\<lambda>b. wr b req_idx seq_len);
     on s1 Pos (\<lambda>b. iota b start end num_computed) }"

definition prepare_pos_seq_lens_cpu ::
  "int list \<Rightarrow> int list \<Rightarrow> int list \<Rightarrow> int list \<Rightarrow> int list \<Rightarrow> pos_buf store option" where
  "prepare_pos_seq_lens_cpu idx_mapping query_start_loc num_computed_tokens pos seq_lens =
     (let num_reqs = int (length idx_mapping) in do {
        cleared \<leftarrow> fill seq_lens num_reqs (int (length seq_lens)) 0;
        for_range 0 num_reqs (pos_request idx_mapping query_start_loc num_computed_tokens)
          (case_pos_buf pos cleared) })"

subsection \<open>Rotary positions\<close>

definition mrope_dim ::
  "int list \<Rightarrow> int \<Rightarrow> int \<Rightarrow> int \<Rightarrow> int \<Rightarrow> int \<Rightarrow> int \<Rightarrow> int \<Rightarrow> int \<Rightarrow> int list \<Rightarrow> int list option" where
  "mrope_dim prefill_positions prompt prompt_stride num_computed prompt_len query_len delta out stride
     positions = do {
     p1 \<leftarrow> for_range 0 prompt_len (\<lambda>token_idx positions. do {
         i \<leftarrow> ck32 (num_computed + token_idx);
         v \<leftarrow> rd prefill_positions (prompt + i * prompt_stride);
         wr positions (out + token_idx * stride) v }) positions;
     for_range prompt_len query_len (\<lambda>token_idx positions. do {
         p \<leftarrow> ck32 (num_computed + token_idx);
         v \<leftarrow> ck32 (p + delta);
         wr positions (out + token_idx * stride) v }) p1 }"

definition prepare_mrope_positions_cpu ::
  "int tensor2 \<Rightarrow> int tensor2 \<Rightarrow> int list \<Rightarrow> int list \<Rightarrow> int list \<Rightarrow> int list \<Rightarrow> int list \<Rightarrow> int list option" where
  "prepare_mrope_positions_cpu positions prefill_positions prefill_delta idx_mapping query_start_loc
     prefill_lens num_computed_tokens =
     for_range 0 (int (length idx_mapping)) (\<lambda>batch_idx pos. do {
       req_state_idx \<leftarrow> rd idx_mapping batch_idx;
       query_start \<leftarrow> rd query_start_loc batch_idx;
       query_end \<leftarrow> rd query_start_loc (batch_idx + 1);
       query_len \<leftarrow> ck32 (query_end - query_start);
       num_computed \<leftarrow> rd num_computed_tokens req_state_idx;
       plen \<leftarrow> rd prefill_lens req_state_idx;
       remaining \<leftarrow> ck32 (plen - num_computed);
       let prompt_len = min query_len (max remaining 0);
       delta \<leftarrow> rd prefill_delta req_state_idx;
       for_range 0 (size0 positions) (\<lambda>dim pos.
         mrope_dim (dat prefill_positions)
           ((req_state_idx * size0 positions + dim) * stride0 prefill_positions)
           (stride1 prefill_positions) num_computed prompt_len query_len delta
           (dim * stride0 positions + query_start * stride1 positions) (stride1 positions) pos) pos })
     (dat positions)"

subsection \<open>Sampled and draft tokens\<close>

datatype combine_buf = Logits_indices | Combined_ids

definition combine_request ::
  "int list \<Rightarrow> int list \<Rightarrow> int list \<Rightarrow> int list \<Rightarrow> int list \<Rightarrow> int tensor2 \<Rightarrow> int list \<Rightarrow> int \<Rightarrow> int \<Rightarrow>
    combine_buf store \<Rightarrow> combine_buf store option" where
  "combine_request idx_mapping last_sampled_tokens query_start_loc seq_lens prefill_len draft_tokens
     cu_num_logits num_new_sampled_tokens req_idx s = do {
     req_state_idx \<leftarrow> rd idx_mapping req_idx;
     logits_offset \<leftarrow> rd cu_num_logits req_idx;
     logits_offset_end \<leftarrow> rd cu_num_logits (req_idx + 1);
     let request_num_logits = logits_offset_end - logits_offset;
     num_draft_tokens \<leftarrow> ck64 (request_num_logits - num_new_sampled_tokens);
     query_end \<leftarrow> rd query_start_loc (req_idx + 1);
     let logits_start = query_end - request_num_logits;
     s1 \<leftarrow> on s Logits_indices (\<lambda>b. iota b logits_offset logits_offset_end logits_start);
     seq_len \<leftarrow> rd seq_lens req_idx;
     request_prefill_len \<leftarrow> rd prefill_len req_state_idx;
     if seq_len \<le> request_prefill_len then Some s1
     else do {
       let first_logit_seq_pos = seq_len - request_num_logits;
       s2 \<leftarrow> (if num_new_sampled_tokens > 0 \<and> first_logit_seq_pos \<ge> request_prefill_len
         then do {
           t \<leftarrow> rd last_sampled_tokens req_state_idx;
           on s1 Combined_ids (\<lambda>b. wr b logits_start (i32 t)) }
         else Some s1);
       draft_start \<leftarrow> ck64 (query_end - num_draft_tokens);
       on s2 Combined_ids (for_range 0 num_draft_tokens (\<lambda>i b. do {
           t \<leftarrow> rd (dat draft_tokens) (req_state_idx * stride0 draft_tokens + i);
           wr b (draft_start + i) (i32 t) })) } }"

definition combine_sampled_and_draft_tokens_cpu ::
  "(int \<Rightarrow> int) \<Rightarrow> int list \<Rightarrow> int list \<Rightarrow> int list \<Rightarrow> int list \<Rightarrow> int list \<Rightarrow> int list \<Rightarrow> int tensor2 \<Rightarrow> int list \<Rightarrow>
    int \<Rightarrow> int \<Rightarrow> combine_buf store option" where
  "combine_sampled_and_draft_tokens_cpu garbage input_ids idx_mapping last_sampled_tokens
     query_start_loc seq_lens prefill_len draft_tokens cu_num_logits num_logits num_new_sampled_tokens = do {
     logits_indices \<leftarrow> torch_empty garbage num_logits;
     for_range 0 (int (length idx_mapping))
       (combine_request idx_mapping last_sampled_tokens query_start_loc seq_lens prefill_len
          draft_tokens cu_num_logits num_new_sampled_tokens)
       (case_combine_buf logits_indices input_ids) }"

subsection \<open>Update after sampling\<close>

datatype update_buf = Num_computed_tokens | Last_sampled_tokens | Output_bin_counts | All_token_ids | Total_len

text \<open>What the update reads and does not write; the strides of the tensors it writes.  An absent
  \<open>output_bin_counts\<close> is \<open>counted = False\<close>.\<close>

record update_args =
  u_idx_mapping :: "int list"
  u_sampled_tokens :: "int tensor2"
  u_num_sampled :: "int list"
  u_num_rejected :: "int list"
  u_query_start_loc :: "int list option"
  counted :: bool
  last_sampled_stride :: int
  bin_counts_stride :: int
  all_token_ids_stride :: int

definition update_token :: "update_args \<Rightarrow> int \<Rightarrow> int \<Rightarrow> int \<Rightarrow> int \<Rightarrow> update_buf store \<Rightarrow> update_buf store option" where
  "update_token a req_idx req_state_idx request_total_len i s = do {
     token_id \<leftarrow> rd (dat (u_sampled_tokens a)) (req_idx * stride0 (u_sampled_tokens a) + i);
     k \<leftarrow> ck32 (request_total_len + i);
     s1 \<leftarrow> on s All_token_ids (\<lambda>b. wr b (req_state_idx * all_token_ids_stride a + k) (i32 token_id));
     if counted a then
       on s1 Output_bin_counts (\<lambda>b. do {
         c \<leftarrow> rd b (req_state_idx * bin_counts_stride a + token_id);
         c1 \<leftarrow> ck32 (c + 1);
         wr b (req_state_idx * bin_counts_stride a + token_id) c1 })
     else Some s1 }"

definition update_query_len :: "update_args \<Rightarrow> int \<Rightarrow> int option" where
  "update_query_len a req_idx =
     (case u_query_start_loc a of
        None \<Rightarrow> Some 0
      | Some q \<Rightarrow> do { e \<leftarrow> rd q (req_idx + 1); b \<leftarrow> rd q req_idx; ck32 (e - b) })"

definition update_last :: "update_args \<Rightarrow> int \<Rightarrow> int \<Rightarrow> int \<Rightarrow> int \<Rightarrow> update_buf store \<Rightarrow> update_buf store option" where
  "update_last a req_idx req_state_idx request_total_len request_num_sampled s =
     (if request_num_sampled > 0 then do {
        t \<leftarrow> rd (dat (u_sampled_tokens a)) (req_idx * stride0 (u_sampled_tokens a) + (request_num_sampled - 1));
        s1 \<leftarrow> on s Last_sampled_tokens (\<lambda>b. wr b (req_state_idx * last_sampled_stride a) t);
        n \<leftarrow> ck32 (request_total_len + request_num_sampled);
        on s1 Total_len (\<lambda>b. wr b req_state_idx n) }
      else Some s)"

definition update_request :: "update_args \<Rightarrow> int \<Rightarrow> update_buf store \<Rightarrow> update_buf store option" where
  "update_request a req_idx s = do {
     req_state_idx \<leftarrow> rd (u_idx_mapping a) req_idx;
     if req_state_idx < 0 then Some s
     else do {
       request_total_len \<leftarrow> rd (s Total_len) req_state_idx;
       request_num_sampled \<leftarrow> rd (u_num_sampled a) req_idx;
       s1 \<leftarrow> update_last a req_idx req_state_idx request_total_len request_num_sampled s;
       s2 \<leftarrow> for_range 0 request_num_sampled (update_token a req_idx req_state_idx request_total_len) s1;
       query_len \<leftarrow> update_query_len a req_idx;
       rejected \<leftarrow> rd (u_num_rejected a) req_idx;
       computed_delta \<leftarrow> ck32 (query_len - rejected);
       if computed_delta \<noteq> 0 then
         on s2 Num_computed_tokens (\<lambda>b. do {
           c \<leftarrow> rd b req_state_idx;
           c1 \<leftarrow> ck32 (c + computed_delta);
           wr b req_state_idx c1 })
       else Some s2 } }"

definition post_update_cpu :: "update_args \<Rightarrow> update_buf store \<Rightarrow> update_buf store option" where
  "post_update_cpu a s = for_range 0 (int (length (u_idx_mapping a))) (update_request a) s"

section \<open>Positions and sequence lengths\<close>

text \<open>Each scheduled request names a state, and its sequence stays within 32 bits.\<close>

definition pos_ok :: "int list \<Rightarrow> int list \<Rightarrow> int list \<Rightarrow> int list \<Rightarrow> int list \<Rightarrow> bool" where
  "pos_ok idx_mapping query_start_loc num_computed_tokens pos seq_lens \<longleftrightarrow>
     length idx_mapping \<le> length seq_lens \<and>
     offsets_ok query_start_loc (int (length idx_mapping)) (int (length pos)) \<and>
     (\<forall>b \<in> {0..<int (length idx_mapping)}. in_bounds num_computed_tokens (at idx_mapping b) \<and>
        0 \<le> at num_computed_tokens (at idx_mapping b) \<and>
        in_i32 (at num_computed_tokens (at idx_mapping b) + (at query_start_loc (b + 1) - at query_start_loc b)))"

lemma pos_seq_lens_correct:
  assumes ok: "pos_ok idx_mapping query_start_loc num_computed_tokens pos seq_lens"
  shows "yields (prepare_pos_seq_lens_cpu idx_mapping query_start_loc num_computed_tokens pos seq_lens)
    (\<lambda>s. length (s Pos) = length pos \<and> length (s Seq_lens) = length seq_lens \<and>
      (\<forall>b t. 0 \<le> b \<longrightarrow> b < int (length idx_mapping) \<longrightarrow> t \<in> segment query_start_loc b \<longrightarrow>
         at (s Pos) t = at num_computed_tokens (at idx_mapping b) + (t - at query_start_loc b)) \<and>
      (\<forall>b. 0 \<le> b \<longrightarrow> b < int (length seq_lens) \<longrightarrow> at (s Seq_lens) b =
         (if b < int (length idx_mapping)
          then at num_computed_tokens (at idx_mapping b) + (at query_start_loc (b + 1) - at query_start_loc b)
          else 0)))"
proof -
  let ?n = "int (length idx_mapping)" and ?q = query_start_loc
  let ?c = "\<lambda>b. at num_computed_tokens (at idx_mapping b)"
  have off: "offsets_ok ?q ?n (int (length pos))" and n: "?n \<le> int (length seq_lens)"
    using ok by (auto simp: pos_ok_def)
  show ?thesis unfolding prepare_pos_seq_lens_cpu_def Let_def for_range_def
  proof (intro yields_bind [OF yields_fill] yields_for_each_store
      [where R = "\<lambda>b. case_pos_buf (segment ?q b) {b}"
        and V = "\<lambda>b. case_pos_buf (\<lambda>t. ?c b + (t - at ?q b)) (\<lambda>_. ?c b + (at ?q (b + 1) - at ?q b))"])
    fix cleared :: "int list" and b and s :: "pos_buf store"
    assume b: "b \<in> set [0..?n - 1]" and len: "\<And>k. length (s k) = length (case k of Pos \<Rightarrow> pos | Seq_lens \<Rightarrow> cleared)"
      and cl: "length cleared = length seq_lens"
    have b': "0 \<le> b" "b < ?n" using b by auto
    have q: "0 \<le> at ?q b" "at ?q b \<le> at ?q (b + 1)" "at ?q (b + 1) \<le> int (length pos)"
      "in_bounds ?q b" "in_bounds ?q (b + 1)"
      using offsets_bounds [OF off, of b] offsets_bounds [OF off, of "b + 1"] offsets_mono [OF off, of b "b + 1"] b'
      by auto
    have c: "in_bounds num_computed_tokens (at idx_mapping b)" "0 \<le> ?c b"
      and top: "in_i32 (?c b + (at ?q (b + 1) - at ?q b))"
      using ok b' by (auto simp: pos_ok_def)
    have d: "i32 (at ?q (b + 1) - at ?q b) = at ?q (b + 1) - at ?q b"
      using in_i32_between [OF _ _ top] q c by (intro i32_id) auto
    show "yields (pos_request idx_mapping ?q num_computed_tokens b s)
        (writes s (case_pos_buf (segment ?q b) {b})
           (case_pos_buf (\<lambda>t. ?c b + (t - at ?q b)) (\<lambda>_. ?c b + (at ?q (b + 1) - at ?q b))))"
      unfolding pos_request_def
    proof (intro yields_rd_bind yields_ck32_bind yields_on_bind yields_wr yields_on yields_iota, goal_cases)
      case (11 r)
      show ?case
      proof (rule writesI)
        fix k j assume j: "in_bounds (s k) j"
        show "at ((s(Seq_lens := (s Seq_lens)[nat b := ?c b + i32 (at ?q (b + 1) - at ?q b)], Pos := r)) k) j =
          (if j \<in> (case k of Pos \<Rightarrow> segment ?q b | Seq_lens \<Rightarrow> {b}) then
             (case k of Pos \<Rightarrow> \<lambda>t. ?c b + (t - at ?q b) | Seq_lens \<Rightarrow> \<lambda>_. ?c b + (at ?q (b + 1) - at ?q b)) j
           else at (s k) j)"
          using j d b' 11(2) by (cases k) (auto simp: segment_def at_upd)
      qed (use 11(1) in \<open>simp split: if_split\<close>)
    qed (use b' q c top d n len [of Pos] len [of Seq_lens] cl in_i32_imp_i64 [OF top] in auto)
  qed (use n off segments_disjoint [OF off] in_segment [OF off] in \<open>auto split: pos_buf.splits\<close>)
qed

section \<open>Prefill inputs\<close>

text \<open>The token at position \<open>p\<close> of a request, or 0 behind the prompt.\<close>

definition prompt_token :: "int tensor2 \<Rightarrow> int \<Rightarrow> int \<Rightarrow> int \<Rightarrow> int" where
  "prompt_token all_token_ids len req p = (if p < len then el2 all_token_ids req p else 0)"

definition prefill_ok :: "int list \<Rightarrow> int tensor2 \<Rightarrow> int list \<Rightarrow> int list \<Rightarrow> int tensor2 \<Rightarrow> int list \<Rightarrow> int list \<Rightarrow> bool" where
  "prefill_ok input_ids next_prefill_tokens idx_mapping query_start_loc all_token_ids prefill_len
     num_computed_tokens \<longleftrightarrow>
     wf2 next_prefill_tokens \<and> wf2 all_token_ids \<and> distinct idx_mapping \<and>
     offsets_ok query_start_loc (int (length idx_mapping)) (int (length input_ids)) \<and>
     (\<forall>b \<in> {0..<int (length idx_mapping)}.
        let req = at idx_mapping b; computed = at num_computed_tokens req;
            query_len = at query_start_loc (b + 1) - at query_start_loc b in
        in_bounds prefill_len req \<and> in_bounds num_computed_tokens req \<and>
        req < size0 all_token_ids \<and> req < size1 next_prefill_tokens \<and> 0 \<le> computed \<and>
        computed + query_len \<le> size1 all_token_ids \<and> at prefill_len req \<le> size1 all_token_ids \<and>
        in_i32 (computed + query_len) \<and> in_i64 (computed + query_len + size0 next_prefill_tokens))"

lemma lookahead_correct:
  assumes wf: "wf2 nxt" "wf2 toks" and len: "length next = length (dat nxt)"
    and req: "0 \<le> req" "req < size1 nxt" "req < size0 toks" and plen: "plen \<le> size1 toks"
    and st: "0 \<le> start" "in_i64 (start + size0 nxt)"
  shows "yields (lookahead_loop (dat toks) (req * stride0 toks) plen start (size0 nxt) (stride0 nxt) req next)
    (\<lambda>r. length r = length next \<and> (\<forall>j. in_bounds next j \<longrightarrow> at r j =
       (if \<exists>la. 0 \<le> la \<and> la < size0 nxt \<and> j = la * stride0 nxt + req
        then prompt_token toks plen req (start + (j - req) div stride0 nxt) else at next j)))"
  unfolding lookahead_loop_def
proof (rule yields_for_range_flat [where R = "\<lambda>la. {la * stride0 nxt + req}" and
      V = "\<lambda>la _. prompt_token toks plen req (start + la)"])
  fix la and r :: "int list" assume la: "0 \<le> la" "la < size0 nxt" and r: "length r = length next"
  have i: "in_i64 (start + la)" using st la by (intro in_i64_between [OF _ _ st(2)]) auto
  have v: "yields (if start + la < plen then rd (dat toks) (req * stride0 toks + (start + la)) else Some 0)
      (\<lambda>v. v = prompt_token toks plen req (start + la))"
    using row_in_bounds [OF wf(2) req(1,3), of "start + la"] st la plen
    by (auto simp: rd_at prompt_token_def el2_def)
  show "yields (do { pos \<leftarrow> ck64 (start + la);
       v \<leftarrow> (if pos < plen then rd (dat toks) (req * stride0 toks + pos) else Some 0);
       wr r (la * stride0 nxt + req) v })
    (\<lambda>s'. length s' = length next \<and> (\<forall>j. in_bounds next j \<longrightarrow> at s' j =
       (if j \<in> {la * stride0 nxt + req} then prompt_token toks plen req (start + la) else at r j)))"
    by (intro yields_ck64_bind yields_bindI [OF v] yields_wr)
      (use i row_in_bounds [OF wf(1) la, of req] req r len in \<open>auto simp: at_upd\<close>)
next
  fix i j :: int assume "i \<noteq> j"
  then show "{i * stride0 nxt + req} \<inter> {j * stride0 nxt + req} = {}"
    using req wf(1) by (auto simp: wf2_def)
qed (use req wf(1) in \<open>auto simp: wf2_def\<close>)

text \<open>The column of \<open>next_prefill_tokens\<close> that request state \<open>c\<close> owns.\<close>

definition column :: "'a tensor2 \<Rightarrow> int \<Rightarrow> int set" where
  "column t c = {l * stride0 t + c | l. 0 \<le> l \<and> l < size0 t}"

lemma in_column:
  assumes "wf2 t" "0 \<le> c" "c < size1 t" "0 \<le> c'" "c' < size1 t"
  shows "l * stride0 t + c' \<in> column t c \<longleftrightarrow> 0 \<le> l \<and> l < size0 t \<and> c' = c"
  using row_unique [of l "stride0 t" c' _ c] assms by (auto simp: wf2_def column_def)

lemma columns_disjoint:
  assumes "wf2 t" "0 \<le> c" "c < size1 t" "0 \<le> c'" "c' < size1 t" "c \<noteq> c'"
  shows "column t c \<inter> column t c' = {}"
proof -
  have False if x: "x \<in> column t c" "x \<in> column t c'" for x
  proof -
    from x(1) obtain l where "x = l * stride0 t + c" by (auto simp: column_def)
    with x(2) in_column [OF assms(1,4,5,2,3), of l] assms(6) show False by simp
  qed
  then show ?thesis by blast
qed

abbreviation in_prefill :: "int list \<Rightarrow> int list \<Rightarrow> int list \<Rightarrow> int \<Rightarrow> bool" where
  "in_prefill idx_mapping prefill_len num_computed_tokens b \<equiv>
     at num_computed_tokens (at idx_mapping b) < at prefill_len (at idx_mapping b)"

lemma prefill_request_correct:
  fixes s :: "prefill_buf store"
  assumes ok: "prefill_ok input_ids nxt idx q toks plen ncomp" and b: "0 \<le> b" "b < int (length idx)"
    and len: "length (s Input_ids) = length input_ids" "length (s Next_prefill_tokens) = length (dat nxt)"
  shows "yields (prefill_request nxt idx q toks plen ncomp b s)
    (writes s
       (if in_prefill idx plen ncomp b then case_prefill_buf (segment q b) (column nxt (at idx b)) else (\<lambda>_. {}))
       (case_prefill_buf
         (\<lambda>t. el2 toks (at idx b) (at ncomp (at idx b) + (t - at q b)))
         (\<lambda>j. prompt_token toks (at plen (at idx b)) (at idx b)
            (at ncomp (at idx b) + (at q (b + 1) - at q b) + (j - at idx b) div stride0 nxt))))"
proof -
  define req c ql where "req = at idx b" and "c = at ncomp req" and "ql = at q (b + 1) - at q b"
  have wf: "wf2 nxt" "wf2 toks" and off: "offsets_ok q (int (length idx)) (int (length input_ids))"
    and r: "in_bounds plen req" "in_bounds ncomp req" "0 \<le> req" "req < size0 toks" "req < size1 nxt" "0 \<le> c"
      "c + ql \<le> size1 toks" "at plen req \<le> size1 toks" "in_i32 (c + ql)" "in_i64 (c + ql + size0 nxt)"
    using ok b by (auto simp: prefill_ok_def req_def c_def ql_def Let_def)
  have q: "0 \<le> at q b" "0 \<le> ql" "at q b + ql \<le> int (length input_ids)" "in_bounds q b" "in_bounds q (b + 1)"
    using offsets_bounds [OF off, of b] offsets_bounds [OF off, of "b + 1"] offsets_mono [OF off, of b "b + 1"] b
    by (auto simp: ql_def)
  have ql: "in_i32 ql" "in_i64 (c + ql)"
    using in_i32_between [OF _ _ r(9), of ql] q r(6) in_i32_imp_i64 [OF r(9)] by auto
  show ?thesis
  proof (cases "c < at plen req")
    case False
    then have "\<not> in_prefill idx plen ncomp b" by (simp add: c_def req_def)
    moreover have "writes s (\<lambda>_. {}) V s" for V :: "prefill_buf \<Rightarrow> int \<Rightarrow> int" by (rule writesI) auto
    ultimately show ?thesis
      using b r(1,2) by (auto simp: prefill_request_def c_def req_def intro!: yields_rd_bind)
  next
    case True
    note rows = row_in_bounds [OF wf(2) r(3,4), of c] row_in_bounds [OF wf(2) r(3,4), of "c + ql"]
    have "rd idx b = Some req" "rd plen req = Some (at plen req)" "rd ncomp req = Some c" "rd q b = Some (at q b)"
      "rd q (b + 1) = Some (at q (b + 1))"
      using b r(1,2) q by (simp_all add: rd_at req_def c_def)
    then have run: "prefill_request nxt idx q toks plen ncomp b s = do {
        s1 \<leftarrow> on s Input_ids (\<lambda>ids. memcpy ids (at q b) (dat toks) (req * stride0 toks + c) ql);
        on s1 Next_prefill_tokens (lookahead_loop (dat toks) (req * stride0 toks) (at plen req) (c + ql)
          (size0 nxt) (stride0 nxt) req) }"
      using True ql by (simp add: prefill_request_def ck32_def ck64_def flip: ql_def)
    show ?thesis
      unfolding run req_def [symmetric] c_def [symmetric] ql_def [symmetric] if_P [OF True]
    proof (intro yields_on_bind yields_memcpy yields_on yields_mono [OF lookahead_correct [OF wf]], goal_cases)
      case (13 ids nx)
      let ?s' = "s(Input_ids := ids, Next_prefill_tokens := nx)"
      have len': "length nx = length (s Next_prefill_tokens)" using 13(3) by simp
      have nx: "at nx j = (if j \<in> column nxt req then prompt_token toks (at plen req) req (c + ql + (j - req) div stride0 nxt)
          else at (s Next_prefill_tokens) j)" if "in_bounds (s Next_prefill_tokens) j" for j
        using 13(3) that by (auto simp: column_def)
      show ?case
      proof (rule writesI)
        show "length (?s' k) = length (s k)" for k using 13(1) len' by simp
        show "at (?s' k) j = (if j \<in> (case k of Input_ids \<Rightarrow> segment q b | Next_prefill_tokens \<Rightarrow> column nxt req) then
            (case k of Input_ids \<Rightarrow> \<lambda>t. el2 toks req (c + (t - at q b)) | Next_prefill_tokens \<Rightarrow>
               \<lambda>j. prompt_token toks (at plen req) req (c + ql + (j - req) div stride0 nxt)) j else at (s k) j)"
          if "in_bounds (s k) j" for k j
          using that 13(2) nx by (cases k) (auto simp: segment_def ql_def el2_def algebra_simps)
      qed
    qed (use b r q ql rows len in auto)
  qed
qed

lemma prefill_inputs_correct:
  assumes ok: "prefill_ok input_ids nxt idx q toks plen ncomp"
  shows "yields (prepare_prefill_inputs_cpu input_ids nxt idx q toks plen ncomp) (\<lambda>s.
    length (s Input_ids) = length input_ids \<and> length (s Next_prefill_tokens) = length (dat nxt) \<and>
    (\<forall>b. 0 \<le> b \<longrightarrow> b < int (length idx) \<longrightarrow> in_prefill idx plen ncomp b \<longrightarrow>
       (\<forall>t \<in> segment q b. at (s Input_ids) t = el2 toks (at idx b) (at ncomp (at idx b) + (t - at q b))) \<and>
       (\<forall>la. 0 \<le> la \<longrightarrow> la < size0 nxt \<longrightarrow> at (s Next_prefill_tokens) (la * stride0 nxt + at idx b) =
          prompt_token toks (at plen (at idx b)) (at idx b)
            (at ncomp (at idx b) + (at q (b + 1) - at q b) + la))) \<and>
    (\<forall>b. 0 \<le> b \<longrightarrow> b < int (length idx) \<longrightarrow> \<not> in_prefill idx plen ncomp b \<longrightarrow>
       (\<forall>t \<in> segment q b. at (s Input_ids) t = at input_ids t)))"
proof -
  let ?n = "int (length idx)"
  let ?R = "\<lambda>b. if in_prefill idx plen ncomp b then case_prefill_buf (segment q b) (column nxt (at idx b)) else (\<lambda>_. {})"
  have wf: "wf2 nxt" and off: "offsets_ok q ?n (int (length input_ids))" and dist: "distinct idx"
    and req: "\<And>b. 0 \<le> b \<Longrightarrow> b < ?n \<Longrightarrow> 0 \<le> at idx b \<and> at idx b < size1 nxt"
    using ok by (auto simp: prefill_ok_def Let_def)
  show ?thesis unfolding prepare_prefill_inputs_cpu_def for_range_def
  proof (rule yields_for_each_store [OF prefill_request_correct [OF ok]], goal_cases)
    case (5 b b' k)
    then have "segment q b \<inter> segment q b' = {}" "column nxt (at idx b) \<inter> column nxt (at idx b') = {}"
      using segments_disjoint [OF off, of b b'] columns_disjoint [OF wf, of "at idx b" "at idx b'"] req
        distinct_at [OF dist, of b b'] by auto
    then show ?case by (cases k) auto
  next
    case (7 s)
    have inb: "in_bounds (dat nxt) (la * stride0 nxt + at idx b)" if "0 \<le> b" "b < ?n" "0 \<le> la" "la < size0 nxt" for b la
      using row_in_bounds [OF wf, of la "at idx b"] req [OF that(1,2)] that by auto
    have div: "(la * stride0 nxt + at idx b - at idx b) div stride0 nxt = la" if "0 \<le> b" "b < ?n" for b la
      using req [OF that] wf by (auto simp: wf2_def)
    have seg: "t \<notin> segment q b'" if "0 \<le> b" "b < ?n" "t \<in> segment q b" "0 \<le> b'" "b' < ?n"
      "in_prefill idx plen ncomp b'" "\<not> in_prefill idx plen ncomp b" for b b' t
      using segments_disjoint [OF off, of b b'] that by (cases "b = b'") auto
    have "at (s Input_ids) t = at input_ids t"
      if "0 \<le> b" "b < ?n" "\<not> in_prefill idx plen ncomp b" "t \<in> segment q b" for b t
      using 7(3) [of t Input_ids] in_segment [OF off that(1,2,4)] seg [OF that(1,2,4) _ _ _ that(3)] by auto
    moreover have "at (s Next_prefill_tokens) (la * stride0 nxt + at idx b) = prompt_token toks (at plen (at idx b))
        (at idx b) (at ncomp (at idx b) + (at q (b + 1) - at q b) + la)"
      if "0 \<le> b" "b < ?n" "in_prefill idx plen ncomp b" "0 \<le> la" "la < size0 nxt" for b la
      using 7(2) [of b "la * stride0 nxt + at idx b" Next_prefill_tokens] inb [OF that(1,2,4,5)] div [OF that(1,2)]
        in_column [OF wf, of "at idx b" "at idx b" la] req [OF that(1,2)] that by simp
    moreover have "at (s Input_ids) t = el2 toks (at idx b) (at ncomp (at idx b) + (t - at q b))"
      if "0 \<le> b" "b < ?n" "in_prefill idx plen ncomp b" "t \<in> segment q b" for b t
      using 7(2) [of b t Input_ids] in_segment [OF off that(1,2,4)] that by simp
    ultimately show ?case using 7(1) by auto
  qed auto
qed

section \<open>The update after sampling\<close>

text \<open>The abstract state of a request: its tokens, the last sampled one, how often each token of the
  vocabulary was sampled, and how many tokens have been computed.\<close>

record request =
  history :: "int list"
  last_token :: int
  bin_counts :: "int list"
  computed :: int

definition sample_step :: "int list \<Rightarrow> int \<Rightarrow> request \<Rightarrow> request" where
  "sample_step tokens delta r =
     \<lparr>history = history r @ map i32 tokens,
      last_token = (if tokens = [] then last_token r else last tokens),
      bin_counts = map (\<lambda>t. at (bin_counts r) t + int (count_list tokens t)) [0..int (length (bin_counts r)) - 1],
      computed = computed r + delta\<rparr>"

text \<open>How the buffers represent the request in state slot \<open>req\<close>.\<close>

definition request_state :: "update_args \<Rightarrow> update_buf store \<Rightarrow> int \<Rightarrow> request" where
  "request_state a s req =
     \<lparr>history = map (\<lambda>k. at (s All_token_ids) (req * all_token_ids_stride a + k)) [0..at (s Total_len) req - 1],
      last_token = at (s Last_sampled_tokens) (req * last_sampled_stride a),
      bin_counts = (if counted a
        then map (\<lambda>t. at (s Output_bin_counts) (req * bin_counts_stride a + t)) [0..bin_counts_stride a - 1]
        else []),
      computed = at (s Num_computed_tokens) req\<rparr>"

text \<open>The tokens sampled for batch entry \<open>b\<close> and the change of its computed tokens.\<close>

definition sampled :: "update_args \<Rightarrow> int \<Rightarrow> int list" where
  "sampled a b = map (el2 (u_sampled_tokens a) b) [0..at (u_num_sampled a) b - 1]"

definition query_len_of :: "update_args \<Rightarrow> int \<Rightarrow> int" where
  "query_len_of a b = (case u_query_start_loc a of None \<Rightarrow> 0 | Some q \<Rightarrow> at q (b + 1) - at q b)"

definition delta_of :: "update_args \<Rightarrow> int \<Rightarrow> int" where
  "delta_of a b = query_len_of a b - at (u_num_rejected a) b"

definition entry_ok :: "update_args \<Rightarrow> update_buf store \<Rightarrow> int \<Rightarrow> bool" where
  "entry_ok a s b \<longleftrightarrow>
     (let req = at (u_idx_mapping a) b; n = at (u_num_sampled a) b; len = at (s Total_len) req in
      in_bounds (u_num_sampled a) b \<and> in_bounds (u_num_rejected a) b \<and>
      0 \<le> req \<and> req < int (length (s Total_len)) \<and> req < int (length (s Num_computed_tokens)) \<and>
      0 < last_sampled_stride a \<and> req * last_sampled_stride a < int (length (s Last_sampled_tokens)) \<and>
      b < size0 (u_sampled_tokens a) \<and> 0 \<le> n \<and> n \<le> size1 (u_sampled_tokens a) \<and>
      0 \<le> len \<and> len + n \<le> all_token_ids_stride a \<and> in_i32 (len + n) \<and>
      (req + 1) * all_token_ids_stride a \<le> int (length (s All_token_ids)) \<and>
      (counted a \<longrightarrow> (req + 1) * bin_counts_stride a \<le> int (length (s Output_bin_counts)) \<and>
         (\<forall>t \<in> set (sampled a b). 0 \<le> t \<and> t < bin_counts_stride a) \<and>
         (\<forall>t \<in> {0..<bin_counts_stride a}. let c = at (s Output_bin_counts) (req * bin_counts_stride a + t) in
            0 \<le> c \<and> in_i32 (c + n))) \<and>
      (case u_query_start_loc a of None \<Rightarrow> True | Some q \<Rightarrow> in_bounds q b \<and> in_bounds q (b + 1)) \<and>
      in_i32 (query_len_of a b) \<and> in_i32 (delta_of a b) \<and>
      in_i32 (at (s Num_computed_tokens) req + delta_of a b))"

definition update_ok :: "update_args \<Rightarrow> update_buf store \<Rightarrow> bool" where
  "update_ok a s \<longleftrightarrow> wf2 (u_sampled_tokens a) \<and>
     (\<forall>b \<in> {0..<int (length (u_idx_mapping a))}. at (u_idx_mapping a) b < 0 \<or> entry_ok a s b) \<and>
     (\<forall>b \<in> {0..<int (length (u_idx_mapping a))}. \<forall>b' \<in> {0..<int (length (u_idx_mapping a))}.
        at (u_idx_mapping a) b = at (u_idx_mapping a) b' \<and> 0 \<le> at (u_idx_mapping a) b \<longrightarrow> b = b')"

subsection \<open>One request\<close>

definition upd_region :: "update_args \<Rightarrow> int \<Rightarrow> update_buf \<Rightarrow> int set" where
  "upd_region a b k =
     (let req = at (u_idx_mapping a) b in
      if req < 0 then {}
      else case k of
        Num_computed_tokens \<Rightarrow> {req}
      | Last_sampled_tokens \<Rightarrow> {req * last_sampled_stride a}
      | Output_bin_counts \<Rightarrow> (if counted a then {req * bin_counts_stride a..<(req + 1) * bin_counts_stride a} else {})
      | All_token_ids \<Rightarrow> {req * all_token_ids_stride a..<(req + 1) * all_token_ids_stride a}
      | Total_len \<Rightarrow> {req})"

definition upd_value :: "update_args \<Rightarrow> update_buf store \<Rightarrow> int \<Rightarrow> update_buf \<Rightarrow> int \<Rightarrow> int" where
  "upd_value a s b k j =
     (let req = at (u_idx_mapping a) b; n = at (u_num_sampled a) b; len = at (s Total_len) req in
      case k of
        Num_computed_tokens \<Rightarrow> at (s k) j + delta_of a b
      | Last_sampled_tokens \<Rightarrow> (if 0 < n then el2 (u_sampled_tokens a) b (n - 1) else at (s k) j)
      | Output_bin_counts \<Rightarrow> at (s k) j + int (count_list (sampled a b) (j - req * bin_counts_stride a))
      | All_token_ids \<Rightarrow>
          (let i = j - req * all_token_ids_stride a - len in
           if 0 \<le> i \<and> i < n then i32 (el2 (u_sampled_tokens a) b i) else at (s k) j)
      | Total_len \<Rightarrow> at (s k) j + n)"

text \<open>The state after the tokens \<open>0..i - 1\<close> were recorded.\<close>

definition recorded :: "update_args \<Rightarrow> update_buf store \<Rightarrow> int \<Rightarrow> int \<Rightarrow> update_buf store \<Rightarrow> bool" where
  "recorded a s b i s' \<longleftrightarrow>
     (let req = at (u_idx_mapping a) b; len = at (s Total_len) req in
      (\<forall>k. length (s' k) = length (s k)) \<and>
      (\<forall>j. in_bounds (s All_token_ids) j \<longrightarrow> at (s' All_token_ids) j =
         (let m = j - req * all_token_ids_stride a - len in
          if 0 \<le> m \<and> m < i then i32 (el2 (u_sampled_tokens a) b m) else at (s All_token_ids) j)) \<and>
      (\<forall>j. in_bounds (s Output_bin_counts) j \<longrightarrow> at (s' Output_bin_counts) j = at (s Output_bin_counts) j +
         (if counted a then int (count_list (map (el2 (u_sampled_tokens a) b) [0..i - 1])
            (j - req * bin_counts_stride a)) else 0)) \<and>
      s' Num_computed_tokens = s Num_computed_tokens \<and>
      s' Last_sampled_tokens =
        (if 0 < at (u_num_sampled a) b
         then (s Last_sampled_tokens)[nat (req * last_sampled_stride a) := el2 (u_sampled_tokens a) b (at (u_num_sampled a) b - 1)]
         else s Last_sampled_tokens) \<and>
      s' Total_len =
        (if 0 < at (u_num_sampled a) b then (s Total_len)[nat req := len + at (u_num_sampled a) b] else s Total_len))"

lemma count_upto_snoc:
  "0 \<le> i \<Longrightarrow> count_list (map f [0..i]) t = count_list (map f [0..i - 1]) t + (if f i = t then 1 else 0)"
  by (simp add: upto_rec2)

lemma count_list_le_length: "count_list xs t \<le> length xs"
  by (induction xs) auto

lemma update_token_step:
  assumes ok: "entry_ok a s b" and wf: "wf2 (u_sampled_tokens a)" and b: "0 \<le> b"
    and i: "0 \<le> i" "i < at (u_num_sampled a) b" and rec: "recorded a s b i s'"
  shows "yields (update_token a b (at (u_idx_mapping a) b) (at (s Total_len) (at (u_idx_mapping a) b)) i s')
    (recorded a s b (i + 1))"
proof -
  define req n len as bs tok where "req = at (u_idx_mapping a) b" and "n = at (u_num_sampled a) b"
    and "len = at (s Total_len) req" and "as = all_token_ids_stride a" and "bs = bin_counts_stride a"
    and "tok = el2 (u_sampled_tokens a) b i"
  have e: "b < size0 (u_sampled_tokens a)" "n \<le> size1 (u_sampled_tokens a)" "0 \<le> req" "0 \<le> len" "len + n \<le> as"
    "in_i32 (len + n)" "(req + 1) * as \<le> int (length (s All_token_ids))"
    using ok by (auto simp: entry_ok_def Let_def req_def n_def len_def as_def)
  have in': "i < n" using i by (simp add: n_def)
  have rd1: "rd (dat (u_sampled_tokens a)) (b * stride0 (u_sampled_tokens a) + i) = Some tok"
    using row_in_bounds [OF wf b e(1) i(1)] in' e(2) by (auto simp: rd_at el2_def tok_def)
  have k32: "in_i32 (len + i)" using in_i32_between [OF _ _ e(6), of "len + i"] e(4) i in' by auto
  have all: "in_bounds (s All_token_ids) (req * as + (len + i))"
    using e(3,4,5,7) i(1) in' by (auto simp: algebra_simps)
  have l: "\<And>k. length (s' k) = length (s k)" using rec by (simp add: recorded_def Let_def)
  let ?s1 = "s'(All_token_ids := (s' All_token_ids)[nat (req * as + (len + i)) := i32 tok])"
  have s1: "on s' All_token_ids (\<lambda>b. wr b (req * as + (len + i)) (i32 tok)) = Some ?s1"
    using all by (simp add: on_def wr_upd l)
  have allv: "at (?s1 All_token_ids) j = (let m = j - req * as - len in
      if 0 \<le> m \<and> m < i + 1 then i32 (el2 (u_sampled_tokens a) b m) else at (s All_token_ids) j)"
    if "in_bounds (s All_token_ids) j" for j
    using rec that all l i(1) by (auto simp: recorded_def Let_def at_upd req_def as_def len_def tok_def)
  show ?thesis
  proof (cases "counted a")
    case False
    then have "recorded a s b (i + 1) ?s1"
      using rec allv by (auto simp: recorded_def Let_def req_def as_def len_def)
    then show ?thesis
      using False rd1 k32 s1 by (simp add: update_token_def ck32_def req_def as_def len_def)
  next
    case True
    define p where "p = req * bs + tok"
    have tok: "0 \<le> tok" "tok < bs" and cb: "(req + 1) * bs \<le> int (length (s Output_bin_counts))"
      "0 \<le> at (s Output_bin_counts) p" "in_i32 (at (s Output_bin_counts) p + n)"
      using ok True i in' by (auto simp: entry_ok_def Let_def sampled_def req_def bs_def tok_def n_def p_def)
    have p: "in_bounds (s Output_bin_counts) p"
      using e(3) tok cb(1) by (auto simp: p_def algebra_simps)
    define c where "c = at (s' Output_bin_counts) p"
    have "int (count_list (map (el2 (u_sampled_tokens a) b) [0..i - 1]) tok) \<le> i"
      using count_list_le_length [of "map (el2 (u_sampled_tokens a) b) [0..i - 1]" tok] i by simp
    then have c: "0 \<le> c" "c + 1 \<le> at (s Output_bin_counts) p + n"
      using rec True p cb(2) in' by (auto simp: recorded_def Let_def c_def p_def req_def bs_def)
    have c32: "in_i32 (c + 1)" using in_i32_between [OF _ _ cb(3), of "c + 1"] c by simp
    let ?s2 = "?s1(Output_bin_counts := (s' Output_bin_counts)[nat p := c + 1])"
    have binv: "at (?s2 Output_bin_counts) j = at (s Output_bin_counts) j +
        int (count_list (map (el2 (u_sampled_tokens a) b) [0..i]) (j - req * bs))"
      if "in_bounds (s Output_bin_counts) j" for j
      using rec that p l True i
      by (auto simp: recorded_def Let_def at_upd req_def bs_def c_def p_def tok_def count_upto_snoc)
    have "recorded a s b (i + 1) ?s2"
      using rec allv binv True unfolding recorded_def Let_def
      by (auto simp: req_def as_def bs_def len_def)
    moreover have "on ?s1 Output_bin_counts (\<lambda>b. do { c \<leftarrow> rd b p; c1 \<leftarrow> ck32 (c + 1); wr b p c1 }) = Some ?s2"
      using p c32 by (simp add: on_def rd_at wr_upd l ck32_def c_def)
    ultimately show ?thesis
      using True rd1 k32 s1
      by (simp add: update_token_def ck32_def req_def as_def bs_def len_def p_def)
  qed
qed

lemma update_last_recorded:
  assumes ok: "entry_ok a s b" and wf: "wf2 (u_sampled_tokens a)" and b: "0 \<le> b"
  shows "yields (update_last a b (at (u_idx_mapping a) b) (at (s Total_len) (at (u_idx_mapping a) b))
    (at (u_num_sampled a) b) s) (recorded a s b 0)"
proof (cases "0 < at (u_num_sampled a) b")
  case True
  define req n where "req = at (u_idx_mapping a) b" and "n = at (u_num_sampled a) b"
  have e: "b < size0 (u_sampled_tokens a)" "n \<le> size1 (u_sampled_tokens a)" "0 \<le> req"
    "req < int (length (s Total_len))" "in_i32 (at (s Total_len) req + n)"
    "0 < last_sampled_stride a" "req * last_sampled_stride a < int (length (s Last_sampled_tokens))"
    using ok by (auto simp: entry_ok_def Let_def req_def n_def)
  have n: "0 < n" using True by (simp add: n_def)
  show ?thesis
    unfolding update_last_def if_P [OF True] unfolding req_def [symmetric] n_def [symmetric]
    apply (intro yields_rd_bind yields_on_bind yields_wr yields_ck32_bind yields_on)
    using row_in_bounds [OF wf b e(1), of "n - 1"] e n True
    by (auto simp: recorded_def Let_def req_def n_def el2_def)
next
  case False
  then have "at (u_num_sampled a) b = 0" using ok by (simp add: entry_ok_def Let_def)
  then show ?thesis by (simp add: update_last_def recorded_def Let_def)
qed

lemma recorded_writes:
  assumes ok: "entry_ok a s b" and rec: "recorded a s b (at (u_num_sampled a) b) s2"
    and s3: "s3 = s2(Num_computed_tokens := (s Num_computed_tokens)
      [nat (at (u_idx_mapping a) b) := at (s Num_computed_tokens) (at (u_idx_mapping a) b) + delta_of a b])"
  shows "writes s (upd_region a b) (upd_value a s b) s3"
proof (rule writesI)
  define req n len as bs ls where "req = at (u_idx_mapping a) b" and "n = at (u_num_sampled a) b"
    and "len = at (s Total_len) req" and "as = all_token_ids_stride a" and "bs = bin_counts_stride a"
    and "ls = last_sampled_stride a"
  note defs = req_def n_def len_def as_def bs_def ls_def
  have e: "0 \<le> req" "req < int (length (s Total_len))" "req < int (length (s Num_computed_tokens))" "0 < ls"
    "req * ls < int (length (s Last_sampled_tokens))" "0 \<le> n" "0 \<le> len" "len + n \<le> as"
    "counted a \<Longrightarrow> \<forall>t \<in> set (sampled a b). 0 \<le> t \<and> t < bs"
    using ok by (auto simp: entry_ok_def Let_def defs)
  have l: "\<And>k. length (s2 k) = length (s k)" using rec by (simp add: recorded_def Let_def)
  show "length (s3 k) = length (s k)" for k using l s3 by simp
  fix k j assume j: "in_bounds (s k) j"
  have allv: "at (s2 All_token_ids) j = (let m = j - req * as - len in
      if 0 \<le> m \<and> m < n then i32 (el2 (u_sampled_tokens a) b m) else at (s All_token_ids) j)"
    if "in_bounds (s All_token_ids) j" using rec that by (simp add: recorded_def Let_def defs)
  have bin: "at (s2 Output_bin_counts) j = at (s Output_bin_counts) j +
      (if counted a then int (count_list (sampled a b) (j - req * bs)) else 0)"
    if "in_bounds (s Output_bin_counts) j" using rec that by (simp add: recorded_def Let_def defs sampled_def)
  show "at (s3 k) j = (if j \<in> upd_region a b k then upd_value a s b k j else at (s k) j)"
  proof (cases k)
    case Num_computed_tokens
    then show ?thesis using e(1,3) j s3
      by (auto simp: upd_region_def upd_value_def Let_def at_upd req_def)
  next
    case Last_sampled_tokens
    have "s3 Last_sampled_tokens = (if 0 < n then (s Last_sampled_tokens)[nat (req * ls) := el2 (u_sampled_tokens a) b (n - 1)]
        else s Last_sampled_tokens)" using rec s3 by (simp add: recorded_def Let_def defs)
    then show ?thesis using e(1,4,5,6) j Last_sampled_tokens
      by (auto simp: upd_region_def upd_value_def Let_def at_upd defs)
  next
    case Output_bin_counts
    have "count_list (sampled a b) (j - req * bs) = 0" if "counted a" "\<not> (req * bs \<le> j \<and> j < (req + 1) * bs)"
      using e(9) [OF that(1)] that(2) by (auto simp: count_list_0_iff algebra_simps)
    then show ?thesis using bin e(1) j s3 Output_bin_counts
      by (auto simp: upd_region_def upd_value_def Let_def defs)
  next
    case All_token_ids
    then show ?thesis using allv e(1,7,8) j s3
      by (auto simp: upd_region_def upd_value_def Let_def defs algebra_simps)
  next
    case Total_len
    have "s3 Total_len = (if 0 < n then (s Total_len)[nat req := len + n] else s Total_len)"
      using rec s3 by (simp add: recorded_def Let_def defs)
    then show ?thesis using e(1,2,6) j Total_len
      by (auto simp: upd_region_def upd_value_def Let_def at_upd defs)
  qed
qed

lemma update_request_correct:
  assumes ok: "entry_ok a s b" and wf: "wf2 (u_sampled_tokens a)" and b: "in_bounds (u_idx_mapping a) b"
  shows "yields (update_request a b s) (writes s (upd_region a b) (upd_value a s b))"
proof -
  define req where "req = at (u_idx_mapping a) b"
  let ?n = "at (u_num_sampled a) b" and ?len = "at (s Total_len) req"
  have e: "in_bounds (u_num_sampled a) b" "in_bounds (u_num_rejected a) b" "0 \<le> req" "req < int (length (s Total_len))"
    "req < int (length (s Num_computed_tokens))" "0 \<le> ?n" "in_i32 (delta_of a b)"
    "in_i32 (at (s Num_computed_tokens) req + delta_of a b)"
    using ok by (auto simp: entry_ok_def Let_def req_def)
  have "update_query_len a b = Some (query_len_of a b)"
    using ok by (auto simp: update_query_len_def query_len_of_def entry_ok_def Let_def rd_at ck32_def split: option.splits)
  then have run: "update_request a b s = do {
      s1 \<leftarrow> update_last a b req ?len ?n s;
      s2 \<leftarrow> for_range 0 ?n (update_token a b req ?len) s1;
      if delta_of a b \<noteq> 0 then on s2 Num_computed_tokens (\<lambda>b'. do {
           c \<leftarrow> rd b' req; c1 \<leftarrow> ck32 (c + delta_of a b); wr b' req c1 }) else Some s2 }"
    using b e by (simp add: update_request_def rd_at ck32_def delta_of_def req_def cong: if_cong)
  have step: "yields (for_range 0 ?n (update_token a b req ?len) s1) (recorded a s b ?n)" if "recorded a s b 0 s1" for s1
    using that e(6) update_token_step [OF ok wf] b
    by (intro yields_for_range [where P = "recorded a s b"]) (auto simp: req_def)
  have fin: "yields (if delta_of a b \<noteq> 0 then on s2 Num_computed_tokens (\<lambda>b'. do {
           c \<leftarrow> rd b' req; c1 \<leftarrow> ck32 (c + delta_of a b); wr b' req c1 }) else Some s2)
      (writes s (upd_region a b) (upd_value a s b))" if rec: "recorded a s b ?n s2" for s2
  proof -
    have n: "s2 Num_computed_tokens = s Num_computed_tokens" using rec by (simp add: recorded_def Let_def)
    have "s2(Num_computed_tokens := (s Num_computed_tokens)[nat req := at (s Num_computed_tokens) req]) = s2"
      using n by (auto simp: at_def)
    with recorded_writes [OF ok rec refl] show ?thesis
      using e n by (auto simp: on_def rd_at wr_upd ck32_def req_def)
  qed
  show ?thesis unfolding run
    using update_last_recorded [OF ok wf] b
    by (intro yields_bindI [OF _ yields_bindI [OF step fin]]) (auto simp: req_def)
qed

subsection \<open>The whole batch\<close>

lemma entry_agree:
  assumes ok: "entry_ok a s0 b" and len: "\<And>k. length (s k) = length (s0 k)"
    and agree: "\<And>k j. in_bounds (s0 k) j \<Longrightarrow> j \<in> upd_region a b k \<Longrightarrow> at (s k) j = at (s0 k) j"
  shows "entry_ok a s b"
    and "in_bounds (s0 k) j \<Longrightarrow> j \<in> upd_region a b k \<Longrightarrow> upd_value a s b k j = upd_value a s0 b k j"
proof -
  define req bs where "req = at (u_idx_mapping a) b" and "bs = bin_counts_stride a"
  have e: "0 \<le> req" "req < int (length (s0 Total_len))" "req < int (length (s0 Num_computed_tokens))"
    "counted a \<Longrightarrow> (req + 1) * bs \<le> int (length (s0 Output_bin_counts))"
    using ok by (auto simp: entry_ok_def Let_def req_def bs_def)
  have t: "at (s Total_len) req = at (s0 Total_len) req" and n: "at (s Num_computed_tokens) req = at (s0 Num_computed_tokens) req"
    using agree [of req Total_len] agree [of req Num_computed_tokens] e by (auto simp: upd_region_def req_def Let_def)
  have c: "at (s Output_bin_counts) (req * bs + i) = at (s0 Output_bin_counts) (req * bs + i)"
    if "counted a" "0 \<le> i" "i < bs" for i
    using agree [of "req * bs + i" Output_bin_counts] e that
    by (auto simp: upd_region_def req_def bs_def Let_def algebra_simps)
  show "entry_ok a s b"
    using ok len t n c by (simp add: entry_ok_def Let_def req_def bs_def)
  show "in_bounds (s0 k) j \<Longrightarrow> j \<in> upd_region a b k \<Longrightarrow> upd_value a s b k j = upd_value a s0 b k j"
    using t agree [of j k] by (cases k) (auto simp: upd_value_def Let_def req_def)
qed

lemma upd_regions_disjoint:
  assumes "entry_ok a s b \<or> at (u_idx_mapping a) b < 0" "entry_ok a s b' \<or> at (u_idx_mapping a) b' < 0"
    and "at (u_idx_mapping a) b \<noteq> at (u_idx_mapping a) b' \<or> at (u_idx_mapping a) b < 0"
  shows "upd_region a b k \<inter> upd_region a b' k = {}"
proof (cases "at (u_idx_mapping a) b < 0 \<or> at (u_idx_mapping a) b' < 0")
  case True then show ?thesis by (auto simp: upd_region_def Let_def)
next
  case False
  then have ne: "at (u_idx_mapping a) b \<noteq> at (u_idx_mapping a) b'" and ls: "0 < last_sampled_stride a"
    using assms by (auto simp: entry_ok_def Let_def)
  show ?thesis
    using ne ls rows_disjoint [OF ne order_refl order_refl, of "bin_counts_stride a"]
      rows_disjoint [OF ne order_refl order_refl, of "all_token_ids_stride a"]
    by (cases k) (auto simp: upd_region_def Let_def algebra_simps)
qed

lemma post_update_correct:
  assumes ok: "update_ok a s0"
  shows "yields (post_update_cpu a s0) (\<lambda>s. (\<forall>k. length (s k) = length (s0 k)) \<and>
    (\<forall>b k j. 0 \<le> b \<longrightarrow> b < int (length (u_idx_mapping a)) \<longrightarrow> in_bounds (s0 k) j \<longrightarrow> j \<in> upd_region a b k \<longrightarrow>
       at (s k) j = upd_value a s0 b k j) \<and>
    (\<forall>k j. in_bounds (s0 k) j \<longrightarrow> (\<forall>b \<in> {0..<int (length (u_idx_mapping a))}. j \<notin> upd_region a b k) \<longrightarrow>
       at (s k) j = at (s0 k) j))"
proof -
  let ?n = "int (length (u_idx_mapping a))"
  have wf: "wf2 (u_sampled_tokens a)"
    and ent: "\<And>b. 0 \<le> b \<Longrightarrow> b < ?n \<Longrightarrow> entry_ok a s0 b \<or> at (u_idx_mapping a) b < 0"
    and inj: "\<And>b b'. 0 \<le> b \<Longrightarrow> b < ?n \<Longrightarrow> 0 \<le> b' \<Longrightarrow> b' < ?n \<Longrightarrow> b \<noteq> b' \<Longrightarrow>
      at (u_idx_mapping a) b \<noteq> at (u_idx_mapping a) b' \<or> at (u_idx_mapping a) b < 0"
    using ok unfolding update_ok_def by (auto simp: not_le [symmetric])
  show ?thesis unfolding post_update_cpu_def for_range_def
  proof (rule yields_for_each_store [where R = "upd_region a" and V = "upd_value a s0"], goal_cases)
    case (1 b s)
    then have b: "0 \<le> b" "b < ?n" by auto
    show ?case
    proof (cases "at (u_idx_mapping a) b < 0")
      case True
      then have "writes s (upd_region a b) (upd_value a s0 b) s"
        by (intro writesI) (auto simp: upd_region_def Let_def)
      with True b show ?thesis by (simp add: update_request_def rd_at)
    next
      case False
      then have e: "entry_ok a s0 b" using ent b by auto
      have "yields (update_request a b s) (writes s (upd_region a b) (upd_value a s b))"
        using b by (intro update_request_correct entry_agree(1) [OF e 1(2,3)] wf) auto
      then show ?thesis
      proof (rule yields_mono)
        fix s' assume w: "writes s (upd_region a b) (upd_value a s b) s'"
        show "writes s (upd_region a b) (upd_value a s0 b) s'"
          by (rule writesI) (use w 1(2) entry_agree(2) [OF e 1(2,3)] in \<open>simp_all add: writes_at [OF w]\<close>)
      qed
    qed
  next
    case (2 b b' k)
    then show ?case using ent inj by (intro upd_regions_disjoint [where s = s0]) auto
  qed auto
qed

text \<open>A request slot whose representation lies inside the buffers.\<close>

definition slot_ok :: "update_args \<Rightarrow> update_buf store \<Rightarrow> int \<Rightarrow> bool" where
  "slot_ok a s r \<longleftrightarrow> 0 \<le> r \<and> r < int (length (s Total_len)) \<and> r < int (length (s Num_computed_tokens)) \<and>
     0 < last_sampled_stride a \<and> r * last_sampled_stride a < int (length (s Last_sampled_tokens)) \<and>
     at (s Total_len) r \<le> all_token_ids_stride a \<and>
     (r + 1) * all_token_ids_stride a \<le> int (length (s All_token_ids)) \<and>
     (counted a \<longrightarrow> (r + 1) * bin_counts_stride a \<le> int (length (s Output_bin_counts)))"

lemma request_state_scheduled:
  assumes e: "entry_ok a s0 b" and len: "\<And>k. length (s k) = length (s0 k)"
    and new: "\<And>k j. in_bounds (s0 k) j \<Longrightarrow> j \<in> upd_region a b k \<Longrightarrow> at (s k) j = upd_value a s0 b k j"
  shows "request_state a s (at (u_idx_mapping a) b) =
    sample_step (sampled a b) (delta_of a b) (request_state a s0 (at (u_idx_mapping a) b))"
proof -
  define req n l as bs where "req = at (u_idx_mapping a) b" and "n = at (u_num_sampled a) b"
    and "l = at (s0 Total_len) req" and "as = all_token_ids_stride a" and "bs = bin_counts_stride a"
  note defs = req_def n_def l_def as_def bs_def
  have o: "0 \<le> req" "req < int (length (s0 Total_len))" "req < int (length (s0 Num_computed_tokens))" "0 \<le> n" "0 \<le> l"
    "l + n \<le> as" "0 \<le> req * last_sampled_stride a" "req * last_sampled_stride a < int (length (s0 Last_sampled_tokens))"
    "(req + 1) * as \<le> int (length (s0 All_token_ids))"
    "counted a \<Longrightarrow> (req + 1) * bs \<le> int (length (s0 Output_bin_counts))"
    using e by (auto simp: entry_ok_def Let_def defs)
  have tot: "at (s Total_len) req = l + n" and comp: "at (s Num_computed_tokens) req = at (s0 Num_computed_tokens) req + delta_of a b"
    and lst: "at (s Last_sampled_tokens) (req * last_sampled_stride a) =
      (if 0 < n then el2 (u_sampled_tokens a) b (n - 1) else at (s0 Last_sampled_tokens) (req * last_sampled_stride a))"
    using new [of req Total_len] new [of req Num_computed_tokens] new [of "req * last_sampled_stride a" Last_sampled_tokens] o
    by (auto simp: upd_region_def upd_value_def Let_def defs)
  have all: "at (s All_token_ids) (req * as + k) =
      (if k < l then at (s0 All_token_ids) (req * as + k) else i32 (el2 (u_sampled_tokens a) b (k - l)))"
    if "0 \<le> k" "k < l + n" for k
    using new [of "req * as + k" All_token_ids] row_index [of k as req "int (length (s0 All_token_ids))"] o that
    by (auto simp: upd_region_def upd_value_def Let_def defs algebra_simps)
  have bin: "at (s Output_bin_counts) (req * bs + t) = at (s0 Output_bin_counts) (req * bs + t) + int (count_list (sampled a b) t)"
    if "counted a" "0 \<le> t" "t < bs" for t
    using new [of "req * bs + t" Output_bin_counts] row_index [of t bs req "int (length (s0 Output_bin_counts))"] o that
    by (auto simp: upd_region_def upd_value_def Let_def defs algebra_simps)
  have split: "[0..l + n - 1] = [0..l - 1] @ map (\<lambda>i. l + i) [0..n - 1]"
    using upto_split2 [of 0 "l - 1" "l + n - 1"] upto_shift [of l n] o by (cases "l = 0") auto
  have hist: "map (\<lambda>k. at (s All_token_ids) (req * as + k)) [0..l + n - 1] =
      map (\<lambda>k. at (s0 All_token_ids) (req * as + k)) [0..l - 1] @ map i32 (sampled a b)"
    unfolding split using all o by (auto simp: sampled_def n_def)
  have lastv: "sampled a b = [] \<longleftrightarrow> n = 0" "0 < n \<Longrightarrow> last (sampled a b) = el2 (u_sampled_tokens a) b (n - 1)"
    using o(4) by (auto simp: sampled_def n_def last_map upto_rec2)
  show ?thesis
    unfolding request_state_def sample_step_def req_def [symmetric] as_def [symmetric] bs_def [symmetric]
    using hist tot comp lst lastv bin o(4) by (auto simp: l_def [symmetric])
qed

lemma in_upd_region:
  "j \<in> upd_region a b Total_len \<longleftrightarrow> 0 \<le> at (u_idx_mapping a) b \<and> j = at (u_idx_mapping a) b"
  "j \<in> upd_region a b Num_computed_tokens \<longleftrightarrow> 0 \<le> at (u_idx_mapping a) b \<and> j = at (u_idx_mapping a) b"
  "j \<in> upd_region a b Last_sampled_tokens \<longleftrightarrow>
     0 \<le> at (u_idx_mapping a) b \<and> j = at (u_idx_mapping a) b * last_sampled_stride a"
  "j \<in> upd_region a b All_token_ids \<longleftrightarrow> 0 \<le> at (u_idx_mapping a) b \<and>
     j \<in> {at (u_idx_mapping a) b * all_token_ids_stride a..<(at (u_idx_mapping a) b + 1) * all_token_ids_stride a}"
  "j \<in> upd_region a b Output_bin_counts \<longleftrightarrow> 0 \<le> at (u_idx_mapping a) b \<and> counted a \<and>
     j \<in> {at (u_idx_mapping a) b * bin_counts_stride a..<(at (u_idx_mapping a) b + 1) * bin_counts_stride a}"
  by (auto simp: upd_region_def Let_def)

lemma request_state_unscheduled:
  assumes ok: "slot_ok a s0 r" and r: "\<And>b. 0 \<le> b \<Longrightarrow> b < int (length (u_idx_mapping a)) \<Longrightarrow> at (u_idx_mapping a) b \<noteq> r"
    and old: "\<And>k j. in_bounds (s0 k) j \<Longrightarrow> \<forall>b \<in> {0..<int (length (u_idx_mapping a))}. j \<notin> upd_region a b k \<Longrightarrow>
      at (s k) j = at (s0 k) j"
  shows "request_state a s r = request_state a s0 r"
proof -
  let ?as = "all_token_ids_stride a" and ?bs = "bin_counts_stride a" and ?ls = "last_sampled_stride a"
  have o: "0 \<le> r" "r < int (length (s0 Total_len))" "r < int (length (s0 Num_computed_tokens))" "0 < ?ls"
    "r * ?ls < int (length (s0 Last_sampled_tokens))" "at (s0 Total_len) r \<le> ?as"
    "(r + 1) * ?as \<le> int (length (s0 All_token_ids))"
    "counted a \<Longrightarrow> (r + 1) * ?bs \<le> int (length (s0 Output_bin_counts))"
    using ok by (auto simp: slot_ok_def)
  have row: "r * m + k \<notin> {r' * m..<(r' + 1) * m}" if "r' \<noteq> r" "0 \<le> k" "k < m" for r' k m :: int
    using rows_disjoint [OF that(1), of m m m] that(2,3) by (auto simp: algebra_simps)
  have "at (s Total_len) r = at (s0 Total_len) r" "at (s Num_computed_tokens) r = at (s0 Num_computed_tokens) r"
    "at (s Last_sampled_tokens) (r * ?ls) = at (s0 Last_sampled_tokens) (r * ?ls)"
    using o r r [symmetric] by (intro old; simp add: in_upd_region)+
  moreover have "at (s All_token_ids) (r * ?as + k) = at (s0 All_token_ids) (r * ?as + k)"
    if "0 \<le> k" "k < at (s0 Total_len) r" for k
    using o r that row [OF r] row_index [of k ?as r "int (length (s0 All_token_ids))"]
    by (intro old) (simp_all add: in_upd_region)
  moreover have "at (s Output_bin_counts) (r * ?bs + t) = at (s0 Output_bin_counts) (r * ?bs + t)"
    if "counted a" "0 \<le> t" "t < ?bs" for t
    using o r that row [OF r] row_index [of t ?bs r "int (length (s0 Output_bin_counts))"]
    by (intro old) (simp_all add: in_upd_region)
  ultimately show ?thesis by (simp add: request_state_def)
qed

text \<open>C12. The update after sampling refines the operation on requests it implements: for each scheduled
  request it appends the sampled tokens to the history, records the last one, adds the tokens to
  the counts and moves the number of computed tokens by the query length less the rejected tokens.
  All other requests keep their state, and no access leaves a buffer.\<close>

theorem post_update_refines:
  assumes "update_ok a s0"
  shows "\<exists>s. post_update_cpu a s0 = Some s \<and>
    (\<forall>b. 0 \<le> b \<longrightarrow> b < int (length (u_idx_mapping a)) \<longrightarrow> 0 \<le> at (u_idx_mapping a) b \<longrightarrow>
       request_state a s (at (u_idx_mapping a) b) =
         sample_step (sampled a b) (delta_of a b) (request_state a s0 (at (u_idx_mapping a) b))) \<and>
    (\<forall>r. slot_ok a s0 r \<longrightarrow> r \<notin> set (u_idx_mapping a) \<longrightarrow> request_state a s r = request_state a s0 r)"
proof -
  let ?n = "int (length (u_idx_mapping a))"
  from yieldsD [OF post_update_correct [OF assms]] obtain s where run: "post_update_cpu a s0 = Some s"
    and len: "\<And>k. length (s k) = length (s0 k)"
    and new: "\<And>b k j. 0 \<le> b \<Longrightarrow> b < ?n \<Longrightarrow> in_bounds (s0 k) j \<Longrightarrow> j \<in> upd_region a b k \<Longrightarrow> at (s k) j = upd_value a s0 b k j"
    and old: "\<And>k j. in_bounds (s0 k) j \<Longrightarrow> \<forall>b \<in> {0..<?n}. j \<notin> upd_region a b k \<Longrightarrow> at (s k) j = at (s0 k) j"
    by blast
  have "request_state a s (at (u_idx_mapping a) b) =
      sample_step (sampled a b) (delta_of a b) (request_state a s0 (at (u_idx_mapping a) b))"
    if "0 \<le> b" "b < ?n" "0 \<le> at (u_idx_mapping a) b" for b
  proof (rule request_state_scheduled)
    have "at (u_idx_mapping a) b < 0 \<or> entry_ok a s0 b" using assms that(1,2) by (simp add: update_ok_def)
    then show "entry_ok a s0 b" using that by simp
  qed (use that len new in auto)
  moreover have "request_state a s r = request_state a s0 r" if "slot_ok a s0 r" "r \<notin> set (u_idx_mapping a)" for r
    using that old at_in_set by (intro request_state_unscheduled) auto
  ultimately show ?thesis using run by blast
qed

definition demo_args :: update_args where
  "demo_args = \<lparr>u_idx_mapping = [2, -1, 0],
     u_sampled_tokens = \<lparr>dat = [3, 1, 9, 9, 2, 9], size0 = 3, size1 = 2, stride0 = 2, stride1 = 1\<rparr>,
     u_num_sampled = [2, 0, 1], u_num_rejected = [1, 0, 0], u_query_start_loc = Some [0, 3, 3, 4],
     counted = True, last_sampled_stride = 1, bin_counts_stride = 4, all_token_ids_stride = 5\<rparr>"

definition demo_store :: "update_buf store" where
  "demo_store k = (case k of
     Num_computed_tokens \<Rightarrow> [7, 0, 4] | Last_sampled_tokens \<Rightarrow> [8, 8, 8] | Output_bin_counts \<Rightarrow> replicate 12 0
   | All_token_ids \<Rightarrow> replicate 15 6 | Total_len \<Rightarrow> [2, 5, 1])"

theorem post_update_refines_witness:
  "\<exists>s. post_update_cpu demo_args demo_store = Some s \<and>
    history (request_state demo_args s 2) = [6, 3, 1] \<and> computed (request_state demo_args s 2) = 6 \<and>
    request_state demo_args s 1 = request_state demo_args demo_store 1"
proof -
  have "update_ok demo_args demo_store" by code_simp
  from post_update_refines [OF this] obtain s where s: "post_update_cpu demo_args demo_store = Some s"
    "\<And>b. 0 \<le> b \<Longrightarrow> b < int (length (u_idx_mapping demo_args)) \<Longrightarrow> 0 \<le> at (u_idx_mapping demo_args) b \<Longrightarrow>
       request_state demo_args s (at (u_idx_mapping demo_args) b) = sample_step (sampled demo_args b)
         (delta_of demo_args b) (request_state demo_args demo_store (at (u_idx_mapping demo_args) b))"
    "\<And>r. slot_ok demo_args demo_store r \<Longrightarrow> r \<notin> set (u_idx_mapping demo_args) \<Longrightarrow>
       request_state demo_args s r = request_state demo_args demo_store r" by blast
  have "at (u_idx_mapping demo_args) 0 = 2" "slot_ok demo_args demo_store 1" "1 \<notin> set (u_idx_mapping demo_args)"
    "history (sample_step (sampled demo_args 0) (delta_of demo_args 0) (request_state demo_args demo_store 2)) = [6, 3, 1]"
    "computed (sample_step (sampled demo_args 0) (delta_of demo_args 0) (request_state demo_args demo_store 2)) = 6"
    by code_simp+
  then show ?thesis using s(1) s(2) [of 0] s(3) [of 1] by (auto simp: demo_args_def)
qed

end
