(* ===== verification/Batch_Tokens.thy ===== *)
theory Batch_Tokens
  imports Input_Batch
begin

text \<open>
  What the token kernels of \<open>src/csrc/cpu/input_batch.cpp\<close> compute: prefill tokens, prompt logprob
  targets, the combination of sampled and draft tokens, and rotary positions.  The kernels are
  defined in \<open>Input_Batch\<close>.
\<close>

section \<open>Prefill inputs\<close>

text \<open>C37. For every request that is still in its prompt, preparing the prefill inputs puts its next tokens
  into its part of the input and its lookahead tokens (0 behind the prompt) into its column of
  \<open>next_prefill_tokens\<close>; the input of the other requests is unchanged.\<close>

theorem prepare_prefill_inputs:
  assumes "prefill_ok input_ids nxt idx q toks plen ncomp"
  shows "\<exists>s. prepare_prefill_inputs_cpu input_ids nxt idx q toks plen ncomp = Some s \<and>
    (\<forall>b. 0 \<le> b \<longrightarrow> b < int (length idx) \<longrightarrow> in_prefill idx plen ncomp b \<longrightarrow>
       (\<forall>t \<in> segment q b. at (s Input_ids) t = el2 toks (at idx b) (at ncomp (at idx b) + (t - at q b))) \<and>
       (\<forall>la. 0 \<le> la \<longrightarrow> la < size0 nxt \<longrightarrow> at (s Next_prefill_tokens) (la * stride0 nxt + at idx b) =
          prompt_token toks (at plen (at idx b)) (at idx b)
            (at ncomp (at idx b) + (at q (b + 1) - at q b) + la))) \<and>
    (\<forall>b. 0 \<le> b \<longrightarrow> b < int (length idx) \<longrightarrow> \<not> in_prefill idx plen ncomp b \<longrightarrow>
       (\<forall>t \<in> segment q b. at (s Input_ids) t = at input_ids t))"
  using yieldsD [OF prefill_inputs_correct [OF assms]] by blast

theorem prepare_prefill_inputs_witness:
  "\<exists>s. prepare_prefill_inputs_cpu [0, 0, 0] \<lparr>dat = [5, 5], size0 = 1, size1 = 2, stride0 = 2, stride1 = 1\<rparr> [1, 0] [0, 2, 3]
     \<lparr>dat = [1, 2, 3, 4, 11, 12, 13, 14], size0 = 2, size1 = 4, stride0 = 4, stride1 = 1\<rparr> [2, 4] [3, 1] = Some s \<and>
     at (s Input_ids) 0 = 12 \<and> at (s Input_ids) 1 = 13 \<and> at (s Input_ids) 2 = 0 \<and> at (s Next_prefill_tokens) 1 = 14"
proof -
  let ?nxt = "\<lparr>dat = [5, 5], size0 = 1, size1 = 2, stride0 = 2, stride1 = 1\<rparr> :: int tensor2"
  let ?toks = "\<lparr>dat = [1, 2, 3, 4, 11, 12, 13, 14], size0 = 2, size1 = 4, stride0 = 4, stride1 = 1\<rparr> :: int tensor2"
  have "prefill_ok [0, 0, 0] ?nxt [1, 0] [0, 2, 3] ?toks [2, 4] [3, 1]" by code_simp
  from prepare_prefill_inputs [OF this] obtain s where
    run: "prepare_prefill_inputs_cpu [0, 0, 0] ?nxt [1, 0] [0, 2, 3] ?toks [2, 4] [3, 1] = Some s"
    and new: "\<And>b t la. 0 \<le> b \<Longrightarrow> b < 2 \<Longrightarrow> in_prefill [1, 0] [2, 4] [3, 1] b \<Longrightarrow>
      (t \<in> segment [0, 2, 3] b \<longrightarrow> at (s Input_ids) t = el2 ?toks (at [1, 0] b) (at [3, 1] (at [1, 0] b) + (t - at [0, 2, 3] b))) \<and>
      (0 \<le> la \<longrightarrow> la < 1 \<longrightarrow> at (s Next_prefill_tokens) (la * 2 + at [1, 0] b) = prompt_token ?toks (at [2, 4] (at [1, 0] b)) (at [1, 0] b)
         (at [3, 1] (at [1, 0] b) + (at [0, 2, 3] (b + 1) - at [0, 2, 3] b) + la))"
    and old: "\<And>b t. 0 \<le> b \<Longrightarrow> b < 2 \<Longrightarrow> \<not> in_prefill [1, 0] [2, 4] [3, 1] b \<Longrightarrow> t \<in> segment [0, 2, 3] b \<Longrightarrow>
      at (s Input_ids) t = at [0, 0, 0] t"
    by auto
  have "at (s Input_ids) 0 = 12" "at (s Input_ids) 1 = 13" "at (s Next_prefill_tokens) 1 = 14" "at (s Input_ids) 2 = 0"
    using new [of 0 0 0] new [of 0 1 0] old [of 1 2]
    by (simp_all add: at_def segment_def el2_def prompt_token_def)
  with run show ?thesis by blast
qed

section \<open>Prompt logprob targets\<close>

lemma prompt_logprobs_correct:
  assumes wf: "wf2 toks" and off: "offsets_ok q (int (length idx)) num_tokens"
    and req: "\<And>b. 0 \<le> b \<Longrightarrow> b < int (length idx) \<Longrightarrow> in_bounds ncomp (at idx b) \<and> at idx b < size0 toks \<and>
      0 \<le> at ncomp (at idx b) \<and> in_i32 (at ncomp (at idx b) + 1) \<and>
      at ncomp (at idx b) + 1 + (at q (b + 1) - at q b) \<le> size1 toks"
  shows "yields (get_prompt_logprobs_token_ids_cpu garbage num_tokens q idx ncomp toks) (\<lambda>ids.
    length ids = nat num_tokens \<and> (\<forall>b t. 0 \<le> b \<longrightarrow> b < int (length idx) \<longrightarrow> t \<in> segment q b \<longrightarrow>
      at ids t = el2 toks (at idx b) (at ncomp (at idx b) + 1 + (t - at q b))))"
proof -
  let ?n = "int (length idx)"
  let ?V = "\<lambda>b t. el2 toks (at idx b) (at ncomp (at idx b) + 1 + (t - at q b))"
  have pos: "0 \<le> num_tokens" using offsets_bounds [OF off, of ?n] by simp
  have start: "torch_empty garbage num_tokens = Some (map garbage [0..num_tokens - 1])"
    using pos by (simp add: torch_empty_def)
  show ?thesis unfolding get_prompt_logprobs_token_ids_cpu_def start bind.simps
  proof (rule yields_for_range_flat [where R = "segment q" and V = ?V], goal_cases)
    case (1 b ids)
    let ?r = "at idx b" and ?ql = "at q (b + 1) - at q b"
    have r: "in_bounds ncomp ?r" "?r < size0 toks" "0 \<le> at ncomp ?r" "in_i32 (at ncomp ?r + 1)" "at ncomp ?r + 1 + ?ql \<le> size1 toks"
      using req [OF 1(1,2)] by auto
    have qb: "0 \<le> at q b" "at q b \<le> at q (b + 1)" "at q (b + 1) \<le> num_tokens" "in_bounds q b" "in_bounds q (b + 1)"
      using offsets_bounds [OF off, of b] offsets_bounds [OF off, of "b + 1"] offsets_mono [OF off, of b "b + 1"] 1(1,2) by auto
    show ?case unfolding Let_def
      apply (intro yields_rd_bind yields_ck32_bind yields_transform)
      using r qb 1 row_in_bounds [OF wf, of ?r "at ncomp ?r + 1"] row_in_bounds [OF wf, of ?r "at ncomp ?r + 1 + ?ql"] pos
      by (auto simp: el2_def segment_def algebra_simps)
  next
    case (3 ids)
    then show ?case using in_segment [OF off] pos by auto
  qed (use segments_disjoint [OF off] in auto)
qed

section \<open>Sampled and draft tokens\<close>

definition combine_ok ::
  "int list \<Rightarrow> int list \<Rightarrow> int list \<Rightarrow> int list \<Rightarrow> int list \<Rightarrow> int list \<Rightarrow> int tensor2 \<Rightarrow> int list \<Rightarrow> int \<Rightarrow> int \<Rightarrow> bool" where
  "combine_ok input_ids idx lasts q seq_lens plen draft cu num_logits m \<longleftrightarrow>
     wf2 draft \<and> in_i64 (int (length input_ids)) \<and> 0 \<le> m \<and>
     offsets_ok cu (int (length idx)) num_logits \<and> offsets_ok q (int (length idx)) (int (length input_ids)) \<and>
     (\<forall>b \<in> {0..<int (length idx)}. let req = at idx b; logits = at cu (b + 1) - at cu b in
        in_bounds seq_lens b \<and> in_bounds plen req \<and> in_bounds lasts req \<and> req < size0 draft \<and>
        m \<le> logits \<and> logits - m \<le> size1 draft \<and> logits \<le> at q (b + 1) - at q b)"

text \<open>The input token at index \<open>j\<close> of the part of batch entry \<open>b\<close>: a draft token, the last sampled token
  in front of the draft tokens, or what was there before.\<close>

definition combined_token ::
  "int list \<Rightarrow> int list \<Rightarrow> int list \<Rightarrow> int list \<Rightarrow> int list \<Rightarrow> int list \<Rightarrow> int tensor2 \<Rightarrow> int list \<Rightarrow> int \<Rightarrow> int \<Rightarrow> int \<Rightarrow> int" where
  "combined_token input_ids idx lasts q seq_lens plen draft cu m b j =
     (let req = at idx b; logits = at cu (b + 1) - at cu b; drafts = logits - m; e = at q (b + 1) in
      if at seq_lens b \<le> at plen req then at input_ids j
      else if e - drafts \<le> j then i32 (el2 draft req (j - (e - drafts)))
      else if 0 < m \<and> at plen req \<le> at seq_lens b - logits \<and> j = e - logits then i32 (at lasts req)
      else at input_ids j)"

lemma draft_loop:
  assumes "wf2 draft" "0 \<le> req" "req < size0 draft" "0 \<le> n" "n \<le> size1 draft" "0 \<le> d" "d + n \<le> int (length ids)"
  shows "yields (for_range 0 n (\<lambda>i b. do {
           t \<leftarrow> rd (dat draft) (req * stride0 draft + i);
           wr b (d + i) (i32 t) }) ids)
    (\<lambda>r. length r = length ids \<and> (\<forall>j. in_bounds ids j \<longrightarrow> at r j =
       (if d \<le> j \<and> j < d + n then i32 (el2 draft req (j - d)) else at ids j)))"
proof (rule yields_for_range_flat [where R = "\<lambda>i. {d + i}" and V = "\<lambda>i _. i32 (el2 draft req i)"], goal_cases)
  case (1 i r)
  then show ?case
    using row_in_bounds [OF assms(1-3), of i] assms by (auto intro!: yields_rd_bind yields_wr simp: el2_def at_upd)
next
  case (3 r)
  have "at r j = i32 (el2 draft req (j - d))" if "in_bounds ids j" "d \<le> j" "j < d + n" for j
    using 3(2) [of "j - d" j] that by simp
  moreover have "at r j = at ids j" if "in_bounds ids j" "\<not> (d \<le> j \<and> j < d + n)" for j
    using 3(3) [of j] that by auto
  ultimately show ?case using 3(1) by simp
qed auto

lemma combine_request_correct:
  fixes s :: "combine_buf store"
  assumes ok: "combine_ok input_ids idx lasts q seq_lens plen draft cu num_logits m"
    and b: "0 \<le> b" "b < int (length idx)"
    and len: "length (s Logits_indices) = nat num_logits" "length (s Combined_ids) = length input_ids"
    and old: "\<And>j. j \<in> segment q b \<Longrightarrow> at (s Combined_ids) j = at input_ids j"
  shows "yields (combine_request idx lasts q seq_lens plen draft cu m b s)
    (writes s (case_combine_buf (segment cu b) (segment q b))
      (case_combine_buf (\<lambda>t. at q (b + 1) - (at cu (b + 1) - at cu b) + (t - at cu b))
        (combined_token input_ids idx lasts q seq_lens plen draft cu m b)))"
    (is "yields _ (writes s ?R ?V)")
proof -
  define req l e where "req = at idx b" and "l = at cu (b + 1) - at cu b" and "e = at q (b + 1)"
  have wf: "wf2 draft" and big: "in_i64 (int (length input_ids))" and m: "0 \<le> m"
    and offc: "offsets_ok cu (int (length idx)) num_logits" and offq: "offsets_ok q (int (length idx)) (int (length input_ids))"
    and r: "in_bounds seq_lens b" "in_bounds plen req" "in_bounds lasts req" "0 \<le> req" "req < size0 draft" "m \<le> l"
      "l - m \<le> size1 draft" "l \<le> e - at q b"
    using ok b by (auto simp: combine_ok_def req_def l_def e_def Let_def)
  have c: "0 \<le> at cu b" "0 \<le> l" "at cu (b + 1) \<le> num_logits" "in_bounds cu b" "in_bounds cu (b + 1)"
    using offsets_bounds [OF offc, of b] offsets_bounds [OF offc, of "b + 1"] offsets_mono [OF offc, of b "b + 1"] b
    by (auto simp: l_def)
  have qb: "0 \<le> at q b" "at q b \<le> e" "e \<le> int (length input_ids)" "in_bounds q (b + 1)"
    using offsets_bounds [OF offq, of b] offsets_bounds [OF offq, of "b + 1"] offsets_mono [OF offq, of b "b + 1"] b
    by (auto simp: e_def)
  have i64: "in_i64 e" "in_i64 (l - m)" "in_i64 (e - (l - m))"
    using in_i64_between [OF _ _ big] qb r m by auto
  define s1 where "s1 idxs = s(Logits_indices := idxs)" for idxs
  let ?prefill = "at seq_lens b \<le> at plen req"
  let ?newtok = "m > 0 \<and> at seq_lens b - l \<ge> at plen req"
  let ?rest = "\<lambda>s1. if ?prefill then Some s1 else do {
       s2 \<leftarrow> (if ?newtok then on s1 Combined_ids (\<lambda>b. wr b (e - l) (i32 (at lasts req))) else Some s1);
       on s2 Combined_ids (for_range 0 (l - m) (\<lambda>i b. do {
           t \<leftarrow> rd (dat draft) (req * stride0 draft + i); wr b (e - (l - m) + i) (i32 t) })) }"
  have run: "combine_request idx lasts q seq_lens plen draft cu m b s = do {
      s1 \<leftarrow> on s Logits_indices (\<lambda>b'. iota b' (at cu b) (at cu (b + 1)) (e - l)); ?rest s1 }"
    using b r c qb i64
    by (simp add: combine_request_def rd_at ck64_def Let_def req_def l_def e_def cong: if_cong)
  have rest: "yields (?rest (s1 idxs)) (\<lambda>s'. \<exists>ids. s' = s(Logits_indices := idxs, Combined_ids := ids) \<and>
      length ids = length input_ids \<and> (\<forall>j. in_bounds input_ids j \<longrightarrow> at ids j =
        (if j \<in> segment q b then combined_token input_ids idx lasts q seq_lens plen draft cu m b j else at (s Combined_ids) j)))"
    for idxs
  proof (cases ?prefill)
    case True
    have "s1 idxs = s(Logits_indices := idxs, Combined_ids := s Combined_ids)" by (auto simp: s1_def)
    with True old len show ?thesis
      by (auto simp: combined_token_def Let_def req_def intro!: exI [of _ "s Combined_ids"])
  next
    case False
    define ids1 where "ids1 = (if ?newtok then (s Combined_ids)[nat (e - l) := i32 (at lasts req)] else s Combined_ids)"
    have el: "in_bounds (s Combined_ids) (e - l)" if ?newtok using that qb r c m len by auto
    have ids1: "(if ?newtok then on (s1 idxs) Combined_ids (\<lambda>b. wr b (e - l) (i32 (at lasts req))) else Some (s1 idxs)) =
        Some (s(Logits_indices := idxs, Combined_ids := ids1))"
      using el by (auto simp: on_def wr_upd ids1_def s1_def fun_upd_twist)
    have l1: "length ids1 = length input_ids" using len by (simp add: ids1_def)
    have v1: "at ids1 j = (if ?newtok \<and> j = e - l then i32 (at lasts req) else at (s Combined_ids) j)"
      if "in_bounds input_ids j" for j using that el by (auto simp: ids1_def at_upd)
    have dl: "yields (for_range 0 (l - m) (\<lambda>i b. do {
           t \<leftarrow> rd (dat draft) (req * stride0 draft + i); wr b (e - (l - m) + i) (i32 t) }) ids1)
        (\<lambda>r. length r = length ids1 \<and> (\<forall>j. in_bounds ids1 j \<longrightarrow> at r j =
           (if e - (l - m) \<le> j \<and> j < e - (l - m) + (l - m) then i32 (el2 draft req (j - (e - (l - m)))) else at ids1 j)))"
      using r qb c m l1 by (intro draft_loop [OF wf]) auto
    have v: "(if e - (l - m) \<le> j \<and> j < e then i32 (el2 draft req (j - (e - (l - m)))) else at ids1 j) =
        (if j \<in> segment q b then combined_token input_ids idx lasts q seq_lens plen draft cu m b j else at (s Combined_ids) j)"
      if "in_bounds input_ids j" for j
      using v1 [OF that] False old [of j] r(8) qb m r(6)
      by (auto simp: segment_def combined_token_def Let_def req_def l_def e_def)
    show ?thesis
      unfolding if_not_P [OF False] ids1 bind.simps
    proof (rule yields_on, unfold fun_upd_same, rule yields_mono [OF dl], elim conjE)
      fix r assume r: "length r = length ids1" "\<forall>j. in_bounds ids1 j \<longrightarrow> at r j =
           (if e - (l - m) \<le> j \<and> j < e - (l - m) + (l - m) then i32 (el2 draft req (j - (e - (l - m)))) else at ids1 j)"
      have "at r j = (if j \<in> segment q b then combined_token input_ids idx lasts q seq_lens plen draft cu m b j
          else at (s Combined_ids) j)" if "in_bounds input_ids j" for j
        using r(2) v [OF that] that l1 by simp
      then show "\<exists>ids. s(Logits_indices := idxs, Combined_ids := ids1, Combined_ids := r) =
          s(Logits_indices := idxs, Combined_ids := ids) \<and> length ids = length input_ids \<and>
          (\<forall>j. in_bounds input_ids j \<longrightarrow> at ids j = (if j \<in> segment q b
             then combined_token input_ids idx lasts q seq_lens plen draft cu m b j else at (s Combined_ids) j))"
        using r(1) l1 by (intro exI [of _ r]) simp
    qed
  qed
  show ?thesis unfolding run
  proof (intro yields_on_bind yields_iota, goal_cases)
    case (5 idxs)
    show ?case
      apply (rule yields_mono [OF rest [of idxs, unfolded s1_def]])
      apply (elim exE conjE, hypsubst, rule writesI)
      subgoal for s' ids k using 5(1) len by (cases k) auto
      subgoal for s' ids k j using 5(2) len by (cases k) (auto simp: segment_def l_def e_def)
      done
  qed (use c qb i64 len in \<open>auto simp: l_def\<close>)
qed

text \<open>C18. Combining sampled and draft tokens returns the index of each logit's input token and puts, for
  every request past its prompt, the last sampled token and the draft tokens at the end of its
  input; every other input token is unchanged.\<close>

theorem combine_sampled_and_draft_tokens:
  assumes ok: "combine_ok input_ids idx lasts q seq_lens plen draft cu num_logits m"
  shows "\<exists>s. combine_sampled_and_draft_tokens_cpu garbage input_ids idx lasts q seq_lens plen draft cu num_logits m = Some s \<and>
    (\<forall>b t. 0 \<le> b \<longrightarrow> b < int (length idx) \<longrightarrow> t \<in> segment cu b \<longrightarrow>
       at (s Logits_indices) t = at q (b + 1) - (at cu (b + 1) - at cu b) + (t - at cu b)) \<and>
    (\<forall>b t. 0 \<le> b \<longrightarrow> b < int (length idx) \<longrightarrow> t \<in> segment q b \<longrightarrow>
       at (s Combined_ids) t = combined_token input_ids idx lasts q seq_lens plen draft cu m b t)"
proof -
  let ?n = "int (length idx)"
  have offc: "offsets_ok cu ?n num_logits" and offq: "offsets_ok q ?n (int (length input_ids))"
    using ok by (auto simp: combine_ok_def)
  have pos: "0 \<le> num_logits" using offsets_bounds [OF offc, of ?n] by simp
  let ?V = "\<lambda>b. case_combine_buf (\<lambda>t. at q (b + 1) - (at cu (b + 1) - at cu b) + (t - at cu b))
        (combined_token input_ids idx lasts q seq_lens plen draft cu m b)"
  let ?s0 = "case_combine_buf (map garbage [0..num_logits - 1]) input_ids"
  have "yields (for_each [0..?n - 1] (combine_request idx lasts q seq_lens plen draft cu m) ?s0)
    (\<lambda>s. (\<forall>b t. 0 \<le> b \<longrightarrow> b < ?n \<longrightarrow> t \<in> segment cu b \<longrightarrow> at (s Logits_indices) t = ?V b Logits_indices t) \<and>
      (\<forall>b t. 0 \<le> b \<longrightarrow> b < ?n \<longrightarrow> t \<in> segment q b \<longrightarrow> at (s Combined_ids) t = ?V b Combined_ids t))"
  proof (rule yields_for_each_store [where R = "\<lambda>b. case_combine_buf (segment cu b) (segment q b)" and V = ?V], goal_cases)
    case (1 b s)
    then show ?case
      using 1(2) [of Logits_indices] 1(2) [of Combined_ids] 1(3) [of _ Combined_ids] in_segment [OF offq]
      by (intro combine_request_correct [OF ok]) auto
  next
    case (2 b b' k)
    then show ?case using segments_disjoint [OF offc, of b b'] segments_disjoint [OF offq, of b b'] by (cases k) auto
  next
    case (4 s)
    have "at (s Logits_indices) t = ?V b Logits_indices t" if "0 \<le> b" "b < ?n" "t \<in> segment cu b" for b t
      using 4(2) [of b t Logits_indices] in_segment [OF offc that] that by simp
    moreover have "at (s Combined_ids) t = ?V b Combined_ids t" if "0 \<le> b" "b < ?n" "t \<in> segment q b" for b t
      using 4(2) [of b t Combined_ids] in_segment [OF offq that] that by simp
    ultimately show ?case by blast
  qed simp
  then show ?thesis
    using pos by (auto simp: combine_sampled_and_draft_tokens_cpu_def torch_empty_def for_range_def dest!: yieldsD)
qed

theorem combine_sampled_and_draft_tokens_witness:
  "\<exists>s. combine_sampled_and_draft_tokens_cpu (\<lambda>_. 0) [1, 2, 3, 4] [1, 0] [70, 71] [0, 3, 4] [9, 2] [3, 6]
     \<lparr>dat = [50, 51, 60, 61], size0 = 2, size1 = 2, stride0 = 2, stride1 = 1\<rparr> [0, 3, 4] 4 1 = Some s \<and>
     at (s Logits_indices) 1 = 1 \<and> at (s Combined_ids) 0 = 71 \<and> at (s Combined_ids) 2 = 61 \<and> at (s Combined_ids) 3 = 4"
proof -
  let ?d = "\<lparr>dat = [50, 51, 60, 61], size0 = 2, size1 = 2, stride0 = 2, stride1 = 1\<rparr> :: int tensor2"
  let ?c = "combined_token [1, 2, 3, 4] [1, 0] [70, 71] [0, 3, 4] [9, 2] [3, 6] ?d [0, 3, 4] 1"
  have "combine_ok [1, 2, 3, 4] [1, 0] [70, 71] [0, 3, 4] [9, 2] [3, 6] ?d [0, 3, 4] 4 1" by code_simp
  from combine_sampled_and_draft_tokens [OF this, of "\<lambda>_. 0"] obtain s where
    run: "combine_sampled_and_draft_tokens_cpu (\<lambda>_. 0) [1, 2, 3, 4] [1, 0] [70, 71] [0, 3, 4] [9, 2] [3, 6] ?d [0, 3, 4] 4 1 = Some s"
    and lg: "\<And>b t. 0 \<le> b \<Longrightarrow> b < 2 \<Longrightarrow> t \<in> segment [0, 3, 4] b \<Longrightarrow>
      at (s Logits_indices) t = at [0, 3, 4] (b + 1) - (at [0, 3, 4] (b + 1) - at [0, 3, 4] b) + (t - at [0, 3, 4] b)"
    and tk: "\<And>b t. 0 \<le> b \<Longrightarrow> b < 2 \<Longrightarrow> t \<in> segment [0, 3, 4] b \<Longrightarrow> at (s Combined_ids) t = ?c b t" by auto
  have "?c 0 0 = 71" "?c 0 2 = 61" "?c 1 3 = 4" by code_simp+
  then have "at (s Logits_indices) 1 = 1" "at (s Combined_ids) 0 = 71" "at (s Combined_ids) 2 = 61" "at (s Combined_ids) 3 = 4"
    using lg [of 0 1] tk [of 0 0] tk [of 0 2] tk [of 1 3] by (simp_all add: segment_def at_def)
  with run show ?thesis by blast
qed

section \<open>Rotary positions\<close>

text \<open>The location of element \<open>(d, t)\<close> of a tensor whose rows do not overlap.\<close>

definition loc :: "'a tensor2 \<Rightarrow> int \<times> int \<Rightarrow> int" where
  "loc p dt = fst dt * stride0 p + snd dt * stride1 p"

definition rows_ok :: "'a tensor2 \<Rightarrow> bool" where
  "rows_ok p \<longleftrightarrow> 0 < stride1 p \<and> size1 p * stride1 p \<le> stride0 p \<and>
     0 \<le> size0 p \<and> 0 \<le> size1 p \<and> size0 p * stride0 p \<le> int (length (dat p))"

definition cells :: "'a tensor2 \<Rightarrow> (int \<times> int) set" where
  "cells p = {0..<size0 p} \<times> {0..<size1 p}"

lemma loc_in_bounds:
  assumes "rows_ok p" "dt \<in> cells p" shows "in_bounds (dat p) (loc p dt)"
proof -
  obtain d t where dt: "dt = (d, t)" "0 \<le> d" "d + 1 \<le> size0 p" "0 \<le> t" "t + 1 \<le> size1 p"
    using assms(2) by (cases dt) (auto simp: cells_def)
  have "(t + 1) * stride1 p \<le> size1 p * stride1 p" using assms(1) dt by (intro mult_right_mono) (auto simp: rows_ok_def)
  then have t: "0 \<le> t * stride1 p" "t * stride1 p + stride1 p \<le> stride0 p" using assms(1) dt by (auto simp: rows_ok_def algebra_simps)
  then have s: "0 < stride0 p" using assms(1) by (simp add: rows_ok_def)
  have "(d + 1) * stride0 p \<le> size0 p * stride0 p" using s dt by (intro mult_right_mono) auto
  then have "d * stride0 p + stride0 p \<le> int (length (dat p))" using assms(1) by (auto simp: rows_ok_def algebra_simps)
  moreover have "0 \<le> d * stride0 p" using dt s by simp
  moreover have "0 < stride1 p" using assms(1) by (simp add: rows_ok_def)
  ultimately show ?thesis unfolding loc_def dt fst_conv snd_conv using t by linarith
qed

lemma loc_inj:
  assumes "rows_ok p" "a \<in> cells p" "b \<in> cells p" "loc p a = loc p b" shows "a = b"
proof -
  have in_row: "0 \<le> snd c * stride1 p \<and> snd c * stride1 p < stride0 p" if "c \<in> cells p" for c
  proof -
    have "(snd c + 1) * stride1 p \<le> size1 p * stride1 p"
      using assms(1) that by (intro mult_right_mono) (auto simp: rows_ok_def cells_def)
    then show ?thesis using assms(1) that by (auto simp: rows_ok_def cells_def algebra_simps)
  qed
  have "fst a = fst b \<and> snd a * stride1 p = snd b * stride1 p"
    using row_unique [of "fst a" "stride0 p" "snd a * stride1 p" "fst b" "snd b * stride1 p"]
      in_row [OF assms(2)] in_row [OF assms(3)] assms(4) by (auto simp: loc_def)
  then show ?thesis using assms(1) by (auto simp: rows_ok_def prod_eq_iff)
qed

text \<open>Writing one cell.\<close>

lemma yields_wr_cell:
  assumes "rows_ok p" "length s = length (dat p)" "dt \<in> cells p"
    and "\<And>s'. length s' = length (dat p) \<Longrightarrow>
      (\<And>l. l \<in> cells p \<Longrightarrow> at s' (loc p l) = (if l = dt then v else at s (loc p l))) \<Longrightarrow> Q s'"
  shows "yields (wr s (loc p dt) v) Q"
proof (intro yields_wr assms(4))
  fix l assume "l \<in> cells p"
  then show "at (s[nat (loc p dt) := v]) (loc p l) = (if l = dt then v else at s (loc p l))"
    using loc_in_bounds [OF assms(1)] assms(2,3) loc_inj [OF assms(1), of l dt] by (auto simp: at_upd)
qed (use loc_in_bounds [OF assms(1,3)] assms(2) in auto)

text \<open>A loop whose iterations write disjoint sets of cells.\<close>

lemma yields_for_range_cells:
  assumes body: "\<And>i s. lo \<le> i \<Longrightarrow> i < hi \<Longrightarrow> length s = length s0 \<Longrightarrow> yields (body i s) (\<lambda>s'. length s' = length s0 \<and>
        (\<forall>l \<in> cells p. at s' (loc p l) = (if l \<in> R i then V i l else at s (loc p l))))"
    and disj: "\<And>i j. lo \<le> i \<Longrightarrow> i < hi \<Longrightarrow> lo \<le> j \<Longrightarrow> j < hi \<Longrightarrow> i \<noteq> j \<Longrightarrow> R i \<inter> R j = {}"
    and Q: "\<And>s. length s = length s0 \<Longrightarrow>
      (\<And>i l. lo \<le> i \<Longrightarrow> i < hi \<Longrightarrow> l \<in> cells p \<Longrightarrow> l \<in> R i \<Longrightarrow> at s (loc p l) = V i l) \<Longrightarrow>
      (\<And>l. l \<in> cells p \<Longrightarrow> (\<And>i. lo \<le> i \<Longrightarrow> i < hi \<Longrightarrow> l \<notin> R i) \<Longrightarrow> at s (loc p l) = at s0 (loc p l)) \<Longrightarrow> Q s"
  shows "yields (for_range lo hi body s0) Q"
proof -
  have "yields (for_each [lo..hi - 1] body s0) (\<lambda>s. length s = length s0 \<and>
      (\<forall>i\<in>set [lo..hi - 1]. \<forall>l\<in>cells p \<inter> R i. at s (loc p l) = V i l) \<and>
      (\<forall>l\<in>cells p. (\<forall>i\<in>set [lo..hi - 1]. l \<notin> R i) \<longrightarrow> at s (loc p l) = at s0 (loc p l)))"
    using body disj by (intro yields_for_each_regions [where get = "\<lambda>s l. at s (loc p l)"]) auto
  then show ?thesis unfolding for_range_def by (rule yields_mono) (rule Q; auto)
qed

definition prompt_len_of :: "int list \<Rightarrow> int list \<Rightarrow> int list \<Rightarrow> int list \<Rightarrow> int \<Rightarrow> int" where
  "prompt_len_of idx q plens ncomp b =
     min (at q (b + 1) - at q b) (max (at plens (at idx b) - at ncomp (at idx b)) 0)"

definition mrope_position :: "int tensor2 \<Rightarrow> int tensor2 \<Rightarrow> int list \<Rightarrow> int list \<Rightarrow> int list \<Rightarrow> int list \<Rightarrow> int list \<Rightarrow> int \<Rightarrow> int \<times> int \<Rightarrow> int" where
  "mrope_position pos pre delta idx q plens ncomp b dt =
     (let req = at idx b; i = snd dt - at q b in
      if i < prompt_len_of idx q plens ncomp b
      then at (dat pre) ((req * size0 pos + fst dt) * stride0 pre + (at ncomp req + i) * stride1 pre)
      else at ncomp req + i + at delta req)"

definition mrope_ok :: "int tensor2 \<Rightarrow> int tensor2 \<Rightarrow> int list \<Rightarrow> int list \<Rightarrow> int list \<Rightarrow> int list \<Rightarrow> int list \<Rightarrow> bool" where
  "mrope_ok pos pre delta idx q plens ncomp \<longleftrightarrow> rows_ok pos \<and> offsets_ok q (int (length idx)) (size1 pos) \<and>
     (\<forall>b \<in> {0..<int (length idx)}. let req = at idx b; c = at ncomp req; ql = at q (b + 1) - at q b in
        in_bounds ncomp req \<and> in_bounds plens req \<and> in_bounds delta req \<and> 0 \<le> c \<and>
        in_i32 (c + ql) \<and> in_i32 (at plens req - c) \<and> in_i32 (c + at delta req) \<and> in_i32 (c + ql + at delta req) \<and>
        (\<forall>d \<in> {0..<size0 pos}. \<forall>i \<in> {0..<prompt_len_of idx q plens ncomp b}.
           in_bounds (dat pre) ((req * size0 pos + d) * stride0 pre + (c + i) * stride1 pre)))"

lemma in_i32_convex: "in_i32 x \<Longrightarrow> in_i32 z \<Longrightarrow> x \<le> y \<Longrightarrow> y \<le> z \<Longrightarrow> in_i32 y"
  by (simp add: in_i32_def)

lemma mrope_dim_correct:
  assumes rows: "rows_ok pos" and len: "length s = length (dat pos)" and d: "0 \<le> d" "d < size0 pos"
    and q: "0 \<le> st" "0 \<le> ql" "st + ql \<le> size1 pos" and pl: "0 \<le> pl" "pl \<le> ql"
    and c: "0 \<le> c" "in_i32 (c + ql)" "in_i32 (c + delta)" "in_i32 (c + ql + delta)"
    and rd: "\<And>i. 0 \<le> i \<Longrightarrow> i < pl \<Longrightarrow> in_bounds pre (prompt + (c + i) * ps)"
  shows "yields (mrope_dim pre prompt ps c pl ql delta (d * stride0 pos + st * stride1 pos) (stride1 pos) s)
    (\<lambda>r. length r = length s \<and> (\<forall>l \<in> cells pos. at r (loc pos l) =
       (if fst l = d \<and> st \<le> snd l \<and> snd l < st + ql
        then (if snd l - st < pl then at pre (prompt + (c + (snd l - st)) * ps) else c + (snd l - st) + delta)
        else at s (loc pos l))))"
proof -
  have cell: "(d, st + i) \<in> cells pos" and locv: "d * stride0 pos + st * stride1 pos + i * stride1 pos = loc pos (d, st + i)"
    if "0 \<le> i" "i < ql" for i
    using that d q by (auto simp: cells_def loc_def algebra_simps)
  have c32: "in_i32 (c + i)" "in_i32 (c + i + delta)" if "0 \<le> i" "i < ql" for i
    using in_i32_between [OF _ _ c(2), of "c + i"] in_i32_convex [OF c(3,4), of "c + i + delta"] c(1) that by auto
  show ?thesis unfolding mrope_dim_def
  proof (rule yields_bind, rule yields_for_range_cells [where p = pos and R = "\<lambda>i. {(d, st + i)}"
        and V = "\<lambda>i _. at pre (prompt + (c + i) * ps)"], goal_cases)
    case (1 i s1)
    then have i: "0 \<le> i" "i < ql" using pl by auto
    show ?case unfolding locv [OF i]
      by (intro yields_ck32_bind yields_rd_bind yields_wr_cell [OF rows])
        (use 1 i cell [OF i] rd [of i] c32 [OF i] len in auto)
  next
    case (3 s1)
    note s1 = 3
    show ?case
    proof (rule yields_for_range_cells [where p = pos and R = "\<lambda>i. {(d, st + i)}"
          and V = "\<lambda>i _. c + i + delta"], goal_cases)
      case (1 i s2)
      then have i: "0 \<le> i" "i < ql" using pl by auto
      show ?case unfolding locv [OF i]
        by (intro yields_ck32_bind yields_wr_cell [OF rows])
          (use 1 3(1) i cell [OF i] c32 [OF i] len in auto)
    next
      case (3 s2)
      have "at s2 (loc pos l) = (if fst l = d \<and> st \<le> snd l \<and> snd l < st + ql
        then (if snd l - st < pl then at pre (prompt + (c + (snd l - st)) * ps) else c + (snd l - st) + delta)
        else at s (loc pos l))" if l: "l \<in> cells pos" for l
      proof (cases "fst l = d \<and> st \<le> snd l \<and> snd l < st + ql")
        case True
        define i where "i = snd l - st"
        have i: "l = (d, st + i)" "0 \<le> i" "i < ql" using True by (auto simp: i_def)
        show ?thesis
          using 3(2) [of i l] 3(3) [of l] s1(2) [of i l] l i by (cases "i < pl") auto
      next
        case False
        have "l \<notin> {(d, st + i)}" if "0 \<le> i" "i < ql" for i using False that by auto
        then show ?thesis using 3(3) [OF l] s1(3) [OF l] pl False by auto
      qed
      then show ?case using 3(1) s1(1) by simp
    qed auto
  qed auto
qed

lemma mrope_positions_correct:
  assumes ok: "mrope_ok pos pre delta idx q plens ncomp"
  shows "yields (prepare_mrope_positions_cpu pos pre delta idx q plens ncomp) (\<lambda>r. length r = length (dat pos) \<and>
    (\<forall>b. 0 \<le> b \<longrightarrow> b < int (length idx) \<longrightarrow> (\<forall>l \<in> cells pos. snd l \<in> segment q b \<longrightarrow>
       at r (loc pos l) = mrope_position pos pre delta idx q plens ncomp b l)) \<and>
    (\<forall>l \<in> cells pos. (\<forall>b \<in> {0..<int (length idx)}. snd l \<notin> segment q b) \<longrightarrow> at r (loc pos l) = at (dat pos) (loc pos l)))"
proof -
  have rows: "rows_ok pos" and off: "offsets_ok q (int (length idx)) (size1 pos)" using ok by (auto simp: mrope_ok_def)
  show ?thesis unfolding prepare_mrope_positions_cpu_def
  proof (rule yields_for_range_cells [where p = pos and R = "\<lambda>b. {l. snd l \<in> segment q b}"
        and V = "mrope_position pos pre delta idx q plens ncomp"], goal_cases)
    case (1 b s)
    define req c ql pl where "req = at idx b" and "c = at ncomp req" and "ql = at q (b + 1) - at q b"
      and "pl = prompt_len_of idx q plens ncomp b"
    have r: "in_bounds ncomp req" "in_bounds plens req" "in_bounds delta req" "0 \<le> c" "in_i32 (c + ql)" "in_i32 (at plens req - c)"
      "in_i32 (c + at delta req)" "in_i32 (c + ql + at delta req)"
      and rd: "\<And>d i. 0 \<le> d \<Longrightarrow> d < size0 pos \<Longrightarrow> 0 \<le> i \<Longrightarrow> i < pl \<Longrightarrow>
        in_bounds (dat pre) ((req * size0 pos + d) * stride0 pre + (c + i) * stride1 pre)"
      using ok 1 by (auto simp: mrope_ok_def Let_def req_def c_def ql_def pl_def)
    have qb: "0 \<le> at q b" "0 \<le> ql" "at q b + ql \<le> size1 pos" "in_bounds q b" "in_bounds q (b + 1)"
      using offsets_bounds [OF off, of b] offsets_bounds [OF off, of "b + 1"] offsets_mono [OF off, of b "b + 1"] 1
      by (auto simp: ql_def)
    have pl: "0 \<le> pl" "pl \<le> ql" "pl = min ql (max (at plens req - c) 0)"
      using qb by (auto simp: pl_def prompt_len_of_def ql_def req_def c_def)
    have ql: "in_i32 ql" using in_i32_between [OF _ _ r(5), of ql] qb r(4) by auto
    let ?dims = "for_range 0 (size0 pos) (\<lambda>dim s. mrope_dim (dat pre) ((req * size0 pos + dim) * stride0 pre)
        (stride1 pre) c pl ql (at delta req) (dim * stride0 pos + at q b * stride1 pos) (stride1 pos) s) s"
    have dims: "yields ?dims (\<lambda>s'. length s' = length (dat pos) \<and> (\<forall>l \<in> cells pos. at s' (loc pos l) =
        (if snd l \<in> segment q b then mrope_position pos pre delta idx q plens ncomp b l else at s (loc pos l))))"
    proof (rule yields_for_range_cells [where p = pos and R = "\<lambda>d. {l. fst l = d \<and> snd l \<in> segment q b}"
          and V = "\<lambda>_. mrope_position pos pre delta idx q plens ncomp b"], goal_cases)
      case (1 d s1)
      have "length s1 = length (dat pos)" using 1 \<open>length s = length (dat pos)\<close> by simp
      then show ?case
        using 1 by (intro yields_mono [OF mrope_dim_correct [OF rows _ 1(1,2) qb(1,2,3) pl(1,2) r(4,5,7,8) rd]])
          (auto simp: mrope_position_def Let_def segment_def req_def c_def ql_def pl_def)
    qed (use 1(3) in \<open>auto simp: cells_def\<close>)
    have "rd idx b = Some req" "rd ncomp req = Some c" "rd plens req = Some (at plens req)" "rd delta req = Some (at delta req)"
      "rd q b = Some (at q b)" "rd q (b + 1) = Some (at q (b + 1))"
      using 1 r qb by (simp_all add: rd_at req_def c_def)
    then show ?case using dims pl(3) ql r by (simp add: ck32_def Let_def flip: ql_def)
  qed (use segments_disjoint [OF off] in auto)
qed

end
