(* ===== verification/Float32.thy ===== *)
theory Float32
  imports Prelude
begin

text \<open>
  The type \<open>float\<close> of the C++ sources: IEEE 754 binary32 with rounding to nearest, ties to even.

  A \<open>float\<close> is its bit pattern.  Magnitudes are natural numbers in units of \<open>2 ^ -150\<close> (half the
  smallest subnormal), so that comparisons, differences, products and quotients are computed exactly
  and rounded once by \<open>round_bits\<close>.  \<open>round_bits_exact\<close> shows that rounding is exact on representable
  magnitudes, \<open>round_bits_nearest\<close> that the error is at most half a unit in the last place.
\<close>

section \<open>Bit patterns\<close>

type_synonym float32 = u32

definition f_sign :: "float32 \<Rightarrow> bool" where
  "f_sign w \<longleftrightarrow> unat w div 2 ^ 31 = 1"

definition f_exp :: "float32 \<Rightarrow> nat" where
  "f_exp w = unat w div 2 ^ 23 mod 2 ^ 8"

definition f_man :: "float32 \<Rightarrow> nat" where
  "f_man w = unat w mod 2 ^ 23"

definition is_nan :: "float32 \<Rightarrow> bool" where
  "is_nan w \<longleftrightarrow> f_exp w = 255 \<and> f_man w \<noteq> 0"

definition is_inf :: "float32 \<Rightarrow> bool" where
  "is_inf w \<longleftrightarrow> f_exp w = 255 \<and> f_man w = 0"

text \<open>The magnitude of the pattern with exponent \<open>e\<close> and mantissa \<open>m\<close>; infinity gets \<open>2 ^ 278\<close>, above all
  finite magnitudes.\<close>

definition mag_of :: "nat \<Rightarrow> nat \<Rightarrow> nat" where
  "mag_of e m = (if e = 0 then 2 * m else (2 ^ 23 + m) * 2 ^ e)"

definition f_mag :: "float32 \<Rightarrow> nat" where
  "f_mag w = mag_of (f_exp w) (f_man w)"

definition f_key :: "float32 \<Rightarrow> int" where
  "f_key w = (if f_sign w then - int (f_mag w) else int (f_mag w))"

definition flt :: "float32 \<Rightarrow> float32 \<Rightarrow> bool" where
  "flt a b \<longleftrightarrow> \<not> is_nan a \<and> \<not> is_nan b \<and> f_key a < f_key b"

definition fle :: "float32 \<Rightarrow> float32 \<Rightarrow> bool" where
  "fle a b \<longleftrightarrow> \<not> is_nan a \<and> \<not> is_nan b \<and> f_key a \<le> f_key b"

definition feq :: "float32 \<Rightarrow> float32 \<Rightarrow> bool" where
  "feq a b \<longleftrightarrow> \<not> is_nan a \<and> \<not> is_nan b \<and> f_key a = f_key b"

section \<open>Rounding and arithmetic\<close>

text \<open>\<open>nbits\<close> is the number of binary digits.  The pattern (without sign) nearest to \<open>p / q\<close> units: \<open>e\<close> is its exponent, \<open>m\<close> the multiple of
  \<open>2 ^ e\<close> below, moved up when the remainder is above half, or half and \<open>m\<close> odd.\<close>

fun nbits :: "nat \<Rightarrow> nat" where
  "nbits n = (if n = 0 then 0 else nbits (n div 2) + 1)"

definition round_exp :: "nat \<Rightarrow> nat \<Rightarrow> nat" where
  "round_exp p q = max 1 (nbits (p div q) - 24)"

definition round_bits :: "nat \<Rightarrow> nat \<Rightarrow> nat" where
  "round_bits p q =
     (let e = round_exp p q; u = q * 2 ^ e; m = p div u; r = p mod u;
          m' = (if u < 2 * r \<or> (2 * r = u \<and> odd m) then m + 1 else m)
      in min 0x7f800000 ((e - 1) * 2 ^ 23 + m'))"

definition with_sign :: "bool \<Rightarrow> nat \<Rightarrow> float32" where
  "with_sign s b = word_of_nat ((if s then 2 ^ 31 else 0) + b)"

definition f_nan :: float32 where
  "f_nan = 0x7fc00000"

definition fmul :: "float32 \<Rightarrow> float32 \<Rightarrow> float32" where
  "fmul a b =
     (let s = (f_sign a \<noteq> f_sign b) in
      if is_nan a \<or> is_nan b then f_nan
      else if is_inf a \<or> is_inf b then
        (if f_mag a = 0 \<or> f_mag b = 0 then f_nan else with_sign s 0x7f800000)
      else with_sign s (round_bits (f_mag a * f_mag b) (2 ^ 150)))"

definition fdiv :: "float32 \<Rightarrow> float32 \<Rightarrow> float32" where
  "fdiv a b =
     (let s = (f_sign a \<noteq> f_sign b) in
      if is_nan a \<or> is_nan b then f_nan
      else if is_inf a then (if is_inf b then f_nan else with_sign s 0x7f800000)
      else if is_inf b then with_sign s 0
      else if f_mag b = 0 then (if f_mag a = 0 then f_nan else with_sign s 0x7f800000)
      else with_sign s (round_bits (f_mag a * 2 ^ 150) (f_mag b)))"

definition fsub :: "float32 \<Rightarrow> float32 \<Rightarrow> float32" where
  "fsub a b =
     (if is_nan a \<or> is_nan b then f_nan
      else if is_inf a \<and> is_inf b then (if f_sign a = f_sign b then f_nan else a)
      else if is_inf a then a
      else if is_inf b then with_sign (\<not> f_sign b) 0x7f800000
      else let d = f_key a - f_key b in
        if d = 0 then with_sign (f_sign a \<and> \<not> f_sign b) 0
        else with_sign (d < 0) (round_bits (nat \<bar>d\<bar>) 1))"

section \<open>Patterns and magnitudes\<close>

lemma f_fields: "unat w = (if f_sign w then 2 ^ 31 else 0) + f_exp w * 2 ^ 23 + f_man w"
proof -
  have lt: "unat w < 2 ^ 32" using unsigned_less [of w] by simp
  have "unat w div 2 ^ 31 < 2" using lt by (simp add: less_mult_imp_div_less)
  then have s: "unat w div 2 ^ 31 = (if f_sign w then 1 else 0)" by (auto simp: f_sign_def)
  have "unat w = unat w div 2 ^ 31 * 2 ^ 31 + unat w mod 2 ^ 31" by simp
  also have "unat w mod 2 ^ 31 = f_exp w * 2 ^ 23 + f_man w"
  proof -
    have "unat w mod (2 ^ 23 * 2 ^ 8) = 2 ^ 23 * (unat w div 2 ^ 23 mod 2 ^ 8) + unat w mod 2 ^ 23"
      by (rule mod_mult2_eq)
    then show ?thesis by (simp add: f_exp_def f_man_def)
  qed
  finally show ?thesis using s by simp
qed

lemma f_exp_less: "f_exp w < 256" and f_man_less: "f_man w < 2 ^ 23"
  by (simp_all add: f_exp_def f_man_def)

lemma unat_u32_of_nat: "n < 2 ^ 32 \<Longrightarrow> unat (word_of_nat n :: u32) = n"
  by (simp add: unsigned_of_nat take_bit_nat_eq_self)

lemma with_sign_fields:
  assumes "b < 2 ^ 31"
  shows "f_sign (with_sign s b) = s" "f_exp (with_sign s b) = b div 2 ^ 23" "f_man (with_sign s b) = b mod 2 ^ 23"
proof -
  have "(if s then 2 ^ 31 else 0) + b < (2 ^ 32 :: nat)" using assms by simp
  then have u: "unat (with_sign s b) = (if s then 2 ^ 31 else 0) + b"
    unfolding with_sign_def by (rule unat_u32_of_nat)
  have b: "b div 2 ^ 23 < 2 ^ 8" using assms by (simp add: less_mult_imp_div_less)
  show "f_sign (with_sign s b) = s" using assms u by (auto simp: f_sign_def)
  show "f_exp (with_sign s b) = b div 2 ^ 23"
  proof -
    have "(2 ^ 31 + b) div 2 ^ 23 = 2 ^ 8 + b div 2 ^ 23"
      using div_mult_self4 [of "2 ^ 23" "2 ^ 8" b] by simp
    then show ?thesis using u b by (auto simp: f_exp_def)
  qed
  show "f_man (with_sign s b) = b mod 2 ^ 23"
  proof -
    have "(2 ^ 31 + b) mod 2 ^ 23 = b mod 2 ^ 23"
      using mod_mult_self4 [of "2 ^ 23" "2 ^ 8" b] by simp
    then show ?thesis using u by (auto simp: f_man_def)
  qed
qed

lemma round_bits_le: "round_bits p q \<le> 0x7f800000"
  by (simp add: round_bits_def Let_def)

lemma not_nan_with_sign: "b \<le> 0x7f800000 \<Longrightarrow> \<not> is_nan (with_sign s b)"
proof -
  assume b: "b \<le> 0x7f800000"
  have "b = 0x7f800000" if "b div 2 ^ 23 = 255"
    using b that div_mult_mod_eq [of b "2 ^ 23"] by simp
  then show ?thesis using b with_sign_fields [of b s] by (auto simp: is_nan_def)
qed

text \<open>A product of finite nonnegative floats is a number and nonnegative.\<close>

definition f_nonneg :: "float32 \<Rightarrow> bool" where
  "f_nonneg w \<longleftrightarrow> \<not> f_sign w \<and> f_exp w < 255"

lemma fmul_nonneg:
  assumes "f_nonneg a" "f_nonneg b" shows "\<not> is_nan (fmul a b)" "0 \<le> f_key (fmul a b)"
proof -
  have "fmul a b = with_sign False (round_bits (f_mag a * f_mag b) (2 ^ 150))"
    using assms by (auto simp: fmul_def f_nonneg_def is_nan_def is_inf_def)
  then show "\<not> is_nan (fmul a b)" "0 \<le> f_key (fmul a b)"
    using round_bits_le not_nan_with_sign with_sign_fields(1) [of "round_bits (f_mag a * f_mag b) (2 ^ 150)" False]
      le_less_trans [OF round_bits_le, of "2 ^ 31"] by (auto simp: f_key_def)
qed

section \<open>Rounding is correct\<close>

declare nbits.simps [simp del]

lemma nbits_upper: "n < 2 ^ nbits n"
proof (induction n rule: nbits.induct)
  case (1 n)
  show ?case
  proof (cases "n = 0")
    case False
    then have "n div 2 < 2 ^ nbits (n div 2)" using 1 by simp
    then show ?thesis using False by (simp add: nbits.simps [of n])
  qed simp
qed

lemma nbits_lower: "0 < n \<Longrightarrow> 2 ^ (nbits n - 1) \<le> n"
proof (induction n rule: nbits.induct)
  case (1 n)
  show ?case
  proof (cases "n div 2 = 0")
    case False
    then have "2 ^ (nbits (n div 2) - 1) \<le> n div 2" "0 < nbits (n div 2)"
      using 1 by (auto simp: nbits.simps [of "n div 2"])
    then show ?thesis using 1(2) by (cases "nbits (n div 2)") (auto simp: nbits.simps [of n])
  qed (use 1 in \<open>simp add: nbits.simps [of n] nbits.simps [of 0]\<close>)
qed

lemma nbits_leD: "nbits n \<le> w \<Longrightarrow> n < 2 ^ w"
  by (rule less_le_trans [OF nbits_upper]) (rule power_increasing, simp_all)

lemma nbits_geD:
  assumes "w \<le> nbits n" "0 < w" shows "2 ^ (w - 1) \<le> n"
proof -
  have "0 < n" using assms by (cases "n = 0") (auto simp: nbits.simps [of 0])
  have "(2 :: nat) ^ (w - 1) \<le> 2 ^ (nbits n - 1)" using assms by (intro power_increasing) auto
  also have "\<dots> \<le> n" by (rule nbits_lower) fact
  finally show ?thesis .
qed

lemma nbits_leI: "n < 2 ^ w \<Longrightarrow> nbits n \<le> w"
proof (rule ccontr)
  assume lt: "n < 2 ^ w" and "\<not> nbits n \<le> w"
  then have "2 ^ (Suc w - 1) \<le> n" by (intro nbits_geD) auto
  with lt show False by simp
qed

lemma nbits_geI: "2 ^ (w - 1) \<le> n \<Longrightarrow> w \<le> nbits n"
proof (rule ccontr)
  assume le: "2 ^ (w - 1) \<le> n" and "\<not> w \<le> nbits n"
  then have "n < 2 ^ (w - 1)" by (intro nbits_leD) simp
  with le show False by simp
qed

lemma nbits_power:
  assumes "0 < a" shows "nbits (a * 2 ^ c) = nbits a + c"
proof (rule antisym)
  show "nbits (a * 2 ^ c) \<le> nbits a + c" using nbits_upper [of a] by (intro nbits_leI) (simp add: power_add)
  have "0 < nbits a" using assms by (simp add: nbits.simps [of a])
  then have "2 ^ (nbits a + c - 1) = 2 ^ (nbits a - 1) * (2 :: nat) ^ c" by (simp add: power_add [symmetric])
  then show "nbits a + c \<le> nbits (a * 2 ^ c)"
    using nbits_lower [OF assms] by (intro nbits_geI) simp
qed

lemma significand_range:
  assumes "0 < q"
  shows "p div (q * 2 ^ round_exp p q) < 2 ^ 24"
    and "round_exp p q = 1 \<or> 2 ^ 23 \<le> p div (q * 2 ^ round_exp p q)"
proof -
  define t f e where "t = p div q" and "f = nbits t" and "e = round_exp p q"
  have m: "p div (q * 2 ^ e) = t div 2 ^ e" by (simp add: t_def div_mult2_eq)
  have e: "e = max 1 (f - 24)" by (simp add: e_def round_exp_def f_def t_def)
  have "t < 2 ^ (e + 24)" by (rule nbits_leD) (use e in \<open>auto simp: f_def\<close>)
  then show "p div (q * 2 ^ round_exp p q) < 2 ^ 24"
    using m by (simp add: e_def [symmetric] power_add less_mult_imp_div_less mult.commute)
  show "round_exp p q = 1 \<or> 2 ^ 23 \<le> p div (q * 2 ^ round_exp p q)"
  proof (cases "f - 24 \<le> 1")
    case False
    then have "2 ^ (e + 24 - 1) \<le> t" using e by (intro nbits_geD) (auto simp: f_def)
    then have "2 ^ 23 * 2 ^ e \<le> t" by (simp add: power_add)
    then show ?thesis using m by (simp add: e_def [symmetric] less_eq_div_iff_mult_less_eq)
  qed (use e in \<open>auto simp: e_def\<close>)
qed

text \<open>The pattern that \<open>round_bits\<close> builds from exponent and significand has magnitude
  \<open>m * 2 ^ e\<close>, also when the significand was moved up to \<open>2 ^ 24\<close>.\<close>

lemma mag_of_pattern:
  assumes "1 \<le> e" "e = 1 \<or> 2 ^ 23 \<le> m" "m \<le> 2 ^ 24"
  shows "mag_of (((e - 1) * 2 ^ 23 + m) div 2 ^ 23) (((e - 1) * 2 ^ 23 + m) mod 2 ^ 23) = m * 2 ^ e"
proof -
  consider "m < 2 ^ 23" | "2 ^ 23 \<le> m" "m < 2 ^ 24" | "m = 2 ^ 24" using assms(3) by linarith
  then show ?thesis
  proof cases
    case 1 then show ?thesis using assms(2) by (auto simp: mag_of_def)
  next
    case 2
    define k where "k = m - 2 ^ 23"
    have k: "m = 2 ^ 23 + k" "k < 2 ^ 23" using 2 by (auto simp: k_def)
    have eq: "(e - 1) * 2 ^ 23 + m = e * 2 ^ 23 + k" using assms(1) k(1) by (cases e) auto
    have "(e * 2 ^ 23 + k) div 2 ^ 23 = e" "(e * 2 ^ 23 + k) mod 2 ^ 23 = k" using k(2) by auto
    then show ?thesis unfolding eq using assms(1) k by (simp add: mag_of_def)
  next
    case 3
    have "(e - 1) * 2 ^ 23 + m = (e + 1) * 2 ^ 23" using assms(1) 3 by (cases e) auto
    then show ?thesis using 3 by (simp add: mag_of_def)
  qed
qed

lemma round_half:
  assumes "0 < u" "m = p div u" "r = p mod u"
    and "m' = (if u < 2 * r \<or> (2 * r = u \<and> odd m) then m + 1 else m)"
  shows "2 * \<bar>int m' * int u - int p\<bar> \<le> int u"
proof -
  have p: "int p = int m * int u + int r" using assms by (simp flip: of_nat_mult of_nat_add)
  have "int r < int u" using assms by simp
  then show ?thesis using p assms(4) by (auto simp: algebra_simps abs_le_iff)
qed

lemma round_bits_nearest:
  assumes "0 < q" "round_bits p q < 0x7f800000"
  shows "2 * \<bar>int (mag_of (round_bits p q div 2 ^ 23) (round_bits p q mod 2 ^ 23)) * int q - int p\<bar>
    \<le> int q * 2 ^ round_exp p q"
proof -
  define e u m r m' where "e = round_exp p q" and "u = q * 2 ^ e" and "m = p div u" and "r = p mod u"
    and "m' = (if u < 2 * r \<or> (2 * r = u \<and> odd m) then m + 1 else m)"
  have b: "round_bits p q = (e - 1) * 2 ^ 23 + m'"
    using assms(2) unfolding round_bits_def Let_def e_def u_def m_def r_def m'_def by linarith
  have "m < 2 ^ 24" "e = 1 \<or> 2 ^ 23 \<le> m" using significand_range [OF assms(1)] by (auto simp: e_def u_def m_def)
  then have "mag_of (round_bits p q div 2 ^ 23) (round_bits p q mod 2 ^ 23) = m' * 2 ^ e"
    unfolding b by (intro mag_of_pattern) (auto simp: m'_def e_def round_exp_def)
  then show ?thesis
    using round_half [of u m p r m'] assms(1) by (simp add: u_def m_def r_def m'_def e_def algebra_simps)
qed

lemma round_bits_exact:
  assumes "e < 255" "m < 2 ^ 23"
  shows "round_bits (mag_of e m) 1 = e * 2 ^ 23 + m"
proof (cases "e = 0")
  case True
  have "nbits (2 * m) \<le> 24" using assms by (intro nbits_leI) auto
  then have "round_exp (2 * m) 1 = 1" by (simp add: round_exp_def)
  then show ?thesis using True assms by (simp add: round_bits_def mag_of_def Let_def)
next
  case False
  have "nbits (2 ^ 23 + m) = 24"
    using nbits_leI [of "2 ^ 23 + m" 24] nbits_geI [of 24 "2 ^ 23 + m"] assms by simp
  then have "nbits (mag_of e m) = 24 + e" using False by (simp add: mag_of_def nbits_power)
  then have r: "round_exp (mag_of e m) 1 = e" using False by (simp add: round_exp_def)
  have "(e - 1) * 2 ^ 23 + (2 ^ 23 + m) = e * 2 ^ 23 + m" using False by (cases e) auto
  moreover have "e * 2 ^ 23 + m \<le> 0x7f800000"
  proof -
    have "e * 2 ^ 23 \<le> 254 * 2 ^ 23" using assms by (intro mult_right_mono) auto
    then show ?thesis using assms by simp
  qed
  ultimately show ?thesis using False r by (simp add: round_bits_def mag_of_def Let_def)
qed

text \<open>Rounding an integer number of units below the largest finite magnitude does not overflow.\<close>

lemma round_bits_finite:
  assumes "p \<le> (2 ^ 24 - 1) * 2 ^ 254" shows "round_bits p 1 < 0x7f800000"
proof -
  define e u m r m' where "e = round_exp p 1" and "u = (2 :: nat) ^ e" and "m = p div u" and "r = p mod u"
    and "m' = (if u < 2 * r \<or> (2 * r = u \<and> odd m) then m + 1 else m)"
  have "nbits p \<le> 278" using assms by (intro nbits_leI) (simp add: power_add)
  then have e: "e \<le> 254" by (simp add: e_def round_exp_def)
  have m: "m < 2 ^ 24" using significand_range(1) [of 1 p] by (simp add: m_def u_def e_def)
  have "(e - 1) * 2 ^ 23 + m' < 0x7f800000"
  proof (cases "e = 254")
    case True
    have split: "p = m * u + r" by (simp add: m_def r_def)
    have "m' \<le> 2 ^ 24 - 1"
    proof (cases "m = 2 ^ 24 - 1")
      case True
      then have "r = 0" using split assms \<open>e = 254\<close> by (simp add: u_def)
      then show ?thesis using True by (simp add: m'_def u_def)
    qed (use m in \<open>auto simp: m'_def\<close>)
    then show ?thesis using True by simp
  next
    case False
    then have "(e - 1) * 2 ^ 23 \<le> 252 * 2 ^ 23" using e by (intro mult_right_mono) auto
    moreover have "m' \<le> 2 ^ 24" using m by (simp add: m'_def)
    ultimately show ?thesis by simp
  qed
  moreover have "round_bits p 1 = min 0x7f800000 ((e - 1) * 2 ^ 23 + m')"
    by (simp only: round_bits_def Let_def e_def u_def m_def r_def m'_def mult_1)
  ultimately show ?thesis by (simp only: min_less_iff_disj) simp
qed

lemma f_mag_finite: "f_exp w < 255 \<Longrightarrow> f_mag w \<le> (2 ^ 24 - 1) * 2 ^ 254"
proof -
  assume e: "f_exp w < 255"
  have "(2 ^ 23 + f_man w) * 2 ^ f_exp w \<le> (2 ^ 24 - 1) * 2 ^ 254"
    using e f_man_less [of w] by (intro mult_mono power_increasing) auto
  moreover have "2 * f_man w \<le> (2 ^ 24 - 1) * 2 ^ 254" using f_man_less [of w] by simp
  ultimately show ?thesis by (simp add: f_mag_def mag_of_def)
qed

lemma fsub_nonneg:
  assumes a: "f_nonneg a" and b: "f_nonneg b" and pos: "flt 0 (fsub a b)"
  shows "f_nonneg (fsub a b)"
proof -
  let ?d = "f_key a - f_key b" and ?r = "round_bits (nat \<bar>f_key a - f_key b\<bar>) 1"
  have "\<bar>?d\<bar> \<le> (2 ^ 24 - 1) * 2 ^ 254"
    using a b f_mag_finite [of a] f_mag_finite [of b] by (auto simp: f_key_def f_nonneg_def abs_le_iff)
  then have "nat \<bar>?d\<bar> \<le> (2 ^ 24 - 1) * 2 ^ 254" by (simp add: nat_le_iff)
  then have r: "?r < 0x7f800000" by (rule round_bits_finite)
  have z: "f_key 0 = 0" by (simp add: f_key_def f_mag_def mag_of_def f_exp_def f_man_def)
  have sub: "fsub a b = (if ?d = 0 then with_sign False 0 else with_sign (?d < 0) ?r)"
    using a b by (auto simp: fsub_def f_nonneg_def is_nan_def is_inf_def Let_def)
  have "?d \<noteq> 0" using pos sub z by (auto simp: flt_def with_sign_def)
  with sub have s: "fsub a b = with_sign (?d < 0) ?r" by simp
  have "f_exp (fsub a b) < 255" using with_sign_fields(2) [of ?r "?d < 0"] r s by (simp add: less_mult_imp_div_less)
  moreover have "\<not> f_sign (fsub a b)" using pos z by (auto simp: flt_def f_key_def [of "fsub a b"])
  ultimately show ?thesis by (simp add: f_nonneg_def)
qed

text \<open>The definitions that evaluate float arithmetic on literals.\<close>

lemmas float_eval = fdiv_def fmul_def fsub_def flt_def fle_def feq_def f_key_def f_mag_def mag_of_def f_exp_def f_man_def
  f_sign_def is_nan_def is_inf_def round_bits_def round_exp_def nbits.simps with_sign_def Let_def

end
