(* ===== verification/Spec_Decode.thy ===== *)
theory Spec_Decode
  imports Kernels Float32
begin

text \<open>
  The speculative decoding kernels of \<open>src/csrc/cpu/spec_decode_utils.cpp\<close>.

  Each kernel is a \<open>#pragma omp parallel for\<close> over the requests: \<open>omp_for order n\<close> runs the iterations in
  the order the scheduler picks, and the theorems hold for every schedule.  The body for one request
  is a definition of its own.  Probabilities are binary32 floats (\<open>Float32\<close>).  A mask of type
  \<open>bool*\<close> is a buffer of 0 and 1.

  Rejection sampling is described once, by the locale \<open>rejection_sampler\<close>: a kernel that visits the draft
  positions of a request in order, writes one token per visited position and stops behind the first
  rejected one.  The greedy and the random kernel are its two interpretations.
\<close>

section \<open>Start of the draft tokens of a request\<close>

definition draft_start :: "int list \<Rightarrow> int \<Rightarrow> int option" where
  "draft_start cu req_idx = (if req_idx = 0 then Some 0 else rd cu (req_idx - 1))"

section \<open>Inputs of the draft model\<close>

datatype eagle_buf = Token_indices_to_sample | Num_rejected_tokens

definition eagle_inputs_request ::
  "int list \<Rightarrow> int list \<Rightarrow> int list \<Rightarrow> int \<Rightarrow> eagle_buf store \<Rightarrow> eagle_buf store option" where
  "eagle_inputs_request cu_draft valid_count query_loc req_idx s = do {
     start_idx \<leftarrow> draft_start cu_draft req_idx;
     end_idx \<leftarrow> rd cu_draft req_idx;
     num_draft_tokens \<leftarrow> ck64 (end_idx - start_idx);
     num_valid_tokens \<leftarrow> rd valid_count req_idx;
     num_rejected \<leftarrow> (if num_draft_tokens > 0
       then do { n \<leftarrow> ck64 (num_draft_tokens + 1); ck64 (n - num_valid_tokens) } else Some 0);
     q \<leftarrow> rd query_loc (req_idx + 1);
     q_last_tok_idx \<leftarrow> ck32 (q - 1);
     index_to_sample \<leftarrow> ck64 (q_last_tok_idx - num_rejected);
     s1 \<leftarrow> on s Token_indices_to_sample (\<lambda>b. wr b req_idx (i32 index_to_sample));
     on s1 Num_rejected_tokens (\<lambda>b. wr b req_idx num_rejected) }"

definition eagle_prepare_inputs_padded_kernel_impl ::
  "(int \<Rightarrow> int list) \<Rightarrow> int list \<Rightarrow> int list \<Rightarrow> int list \<Rightarrow> int list \<Rightarrow> int list \<Rightarrow> int \<Rightarrow> eagle_buf store option" where
  "eagle_prepare_inputs_padded_kernel_impl order cu_num_draft_tokens valid_sampled_tokens_count
     query_start_loc token_indices_to_sample num_rejected_tokens num_reqs =
     omp_for order num_reqs
       (eagle_inputs_request cu_num_draft_tokens valid_sampled_tokens_count query_start_loc)
       (case_eagle_buf token_indices_to_sample num_rejected_tokens)"

datatype next_buf = Next_token_ids | Valid_sampled_tokens_count

definition count_valid :: "int list \<Rightarrow> int \<Rightarrow> int \<Rightarrow> int \<Rightarrow> (int \<times> int) option" where
  "count_valid ids row_ptr vocab_size num_sampled =
     for_range 0 num_sampled (\<lambda>pos (valid_count, last_valid_token). do {
       token \<leftarrow> rd ids (row_ptr + pos);
       if token \<noteq> -1 \<and> token < vocab_size then Some (valid_count + 1, token)
       else Some (valid_count, last_valid_token) }) (0, -1)"

definition next_token_request ::
  "int tensor2 \<Rightarrow> bool list \<Rightarrow> int list \<Rightarrow> int \<Rightarrow> int \<Rightarrow> int \<Rightarrow> next_buf store \<Rightarrow> next_buf store option" where
  "next_token_request sampled_token_ids discard_mask backup_ids vocab_size num_sampled req_idx s = do {
     r \<leftarrow> count_valid (dat sampled_token_ids) (req_idx * stride0 sampled_token_ids) vocab_size num_sampled;
     discard \<leftarrow> rd discard_mask req_idx;
     if discard then do {
       backup \<leftarrow> rd backup_ids req_idx;
       s1 \<leftarrow> on s Next_token_ids (\<lambda>b. wr b req_idx backup);
       on s1 Valid_sampled_tokens_count (\<lambda>b. wr b req_idx 0) }
     else do {
       next \<leftarrow> (if fst r > 0 then Some (snd r) else rd backup_ids req_idx);
       s1 \<leftarrow> on s Next_token_ids (\<lambda>b. wr b req_idx next);
       on s1 Valid_sampled_tokens_count (\<lambda>b. wr b req_idx (fst r)) } }"

definition eagle_prepare_next_token_padded_kernel_impl ::
  "(int \<Rightarrow> int list) \<Rightarrow> int tensor2 \<Rightarrow> bool list \<Rightarrow> int list \<Rightarrow> int list \<Rightarrow> int list \<Rightarrow> int \<Rightarrow> int \<Rightarrow> int \<Rightarrow>
    next_buf store option" where
  "eagle_prepare_next_token_padded_kernel_impl order sampled_token_ids discard_request_mask
     backup_next_token_ids next_token_ids valid_sampled_tokens_count vocab_size num_sampled_tokens_per_req
     num_reqs =
     omp_for order num_reqs
       (next_token_request sampled_token_ids discard_request_mask backup_next_token_ids vocab_size
          num_sampled_tokens_per_req)
       (case_next_buf next_token_ids valid_sampled_tokens_count)"

datatype step_buf = Step_seq_lens | Out_clamped_positions | Out_slot_mapping

text \<open>\<open>block_id * block_size + position % block_size\<close>, with the block number clamped to the table.\<close>

definition clamped_slot :: "int list \<Rightarrow> int \<Rightarrow> int \<Rightarrow> int \<Rightarrow> int \<Rightarrow> int option" where
  "clamped_slot bt row limit block_size position = do {
     block_number \<leftarrow> sdiv position block_size;
     block_id \<leftarrow> rd bt (row + min block_number (limit - 1));
     base \<leftarrow> ck64 (block_id * block_size);
     offset \<leftarrow> smod position block_size;
     ck64 (base + offset) }"

definition eagle_step_request ::
  "int list \<Rightarrow> int tensor2 \<Rightarrow> int \<Rightarrow> int \<Rightarrow> int \<Rightarrow> int \<Rightarrow> step_buf store \<Rightarrow> step_buf store option" where
  "eagle_step_request positions block_table block_size max_model_len PAD_ID req_idx s =
     (if req_idx \<ge> int (length positions) then on s Out_slot_mapping (\<lambda>b. wr b req_idx PAD_ID)
      else do {
        position \<leftarrow> rd positions req_idx;
        new_position \<leftarrow> ck64 (position + 1);
        let exceeds_max = new_position \<ge> max_model_len;
        let clamped_position = (if exceeds_max then 0 else new_position);
        s1 \<leftarrow> on s Out_clamped_positions (\<lambda>b. wr b req_idx clamped_position);
        slot_id \<leftarrow> clamped_slot (dat block_table) (req_idx * stride0 block_table) (size1 block_table)
          block_size clamped_position;
        s2 \<leftarrow> on s1 Out_slot_mapping (\<lambda>b. wr b req_idx (if exceeds_max then PAD_ID else slot_id));
        seq_len \<leftarrow> rd (s2 Step_seq_lens) req_idx;
        grown \<leftarrow> (if exceeds_max then Some 1 else ck32 (seq_len + 1));
        on s2 Step_seq_lens (\<lambda>b. wr b req_idx (min grown (i32 max_model_len))) })"

definition eagle_step_slot_mapping_metadata_kernel_impl ::
  "(int \<Rightarrow> int list) \<Rightarrow> int list \<Rightarrow> int tensor2 \<Rightarrow> int list \<Rightarrow> int list \<Rightarrow> int list \<Rightarrow> int \<Rightarrow> int \<Rightarrow> int \<Rightarrow>
    step_buf store option" where
  "eagle_step_slot_mapping_metadata_kernel_impl order positions block_table seq_lens
     out_clamped_positions out_slot_mapping block_size max_model_len PAD_ID =
     omp_for order (int (length out_slot_mapping))
       (eagle_step_request positions block_table block_size max_model_len PAD_ID)
       (case_step_buf seq_lens out_clamped_positions out_slot_mapping)"

datatype expand_buf =
    Out_input_ids | Out_positions | Out_is_rejected_token_mask | Out_is_masked_token_mask
  | Out_new_token_indices | Out_hidden_state_mapping

record expand_args =
  target_token_ids :: "int list"
  target_positions :: "int list"
  x_next_token_ids :: "int list"
  x_query_start_loc :: "int list"
  x_query_end_loc :: "int list"
  padding_token_id :: int
  x_parallel_drafting_token_id :: int
  total_input_tokens :: int
  num_padding_slots_per_request :: int
  shift_input_ids :: bool

definition expand_token ::
  "expand_args \<Rightarrow> int \<Rightarrow> int \<Rightarrow> int \<Rightarrow> int \<Rightarrow> int \<Rightarrow> int \<Rightarrow> int \<Rightarrow> expand_buf store \<Rightarrow> expand_buf store option" where
  "expand_token a req_idx q_start num_valid_tokens out_start start_pos bonus_token j s =
     (let pads = num_padding_slots_per_request a;
          out_idx = out_start + j;
          is_valid = j < num_valid_tokens;
          is_bonus = (j = num_valid_tokens);
          is_parallel = (j > num_valid_tokens \<and> j < num_valid_tokens + pads);
          is_rejected = j \<ge> num_valid_tokens + pads;
          input_offset = (if shift_input_ids a then 1 else 0);
          in_idx = min (q_start + input_offset + j) (total_input_tokens a - 1)
      in do {
        token_id \<leftarrow> (if is_valid then rd (target_token_ids a) in_idx
                     else if is_bonus then Some bonus_token
                     else if is_parallel then Some (x_parallel_drafting_token_id a)
                     else Some (padding_token_id a));
        s1 \<leftarrow> on s Out_input_ids (\<lambda>b. wr b out_idx token_id);
        pos \<leftarrow> (if is_rejected then Some 0 else ck64 (start_pos + j));
        s2 \<leftarrow> on s1 Out_positions (\<lambda>b. wr b out_idx pos);
        s3 \<leftarrow> on s2 Out_is_rejected_token_mask (\<lambda>b. wr b out_idx (of_bool is_rejected));
        s4 \<leftarrow> on s3 Out_is_masked_token_mask (\<lambda>b. wr b out_idx (of_bool is_parallel));
        if is_bonus \<or> is_parallel then
          on s4 Out_new_token_indices (\<lambda>b. wr b (req_idx * pads + (j - num_valid_tokens)) (i32 out_idx))
        else Some s4 })"

definition expand_request :: "expand_args \<Rightarrow> int \<Rightarrow> expand_buf store \<Rightarrow> expand_buf store option" where
  "expand_request a req_idx s = do {
     q_start \<leftarrow> rd (x_query_start_loc a) req_idx;
     next_q_start \<leftarrow> rd (x_query_start_loc a) (req_idx + 1);
     q_end \<leftarrow> rd (x_query_end_loc a) req_idx;
     len \<leftarrow> ck32 (q_end - q_start);
     num_valid_tokens \<leftarrow> (if shift_input_ids a then Some len else ck32 (len + 1));
     let out_start = q_start + req_idx * (num_padding_slots_per_request a - (if shift_input_ids a then 1 else 0));
     gap \<leftarrow> ck32 (next_q_start - q_end);
     num_rejected \<leftarrow> ck32 (gap - 1);
     total_output_tokens \<leftarrow> ck64 (num_valid_tokens + num_padding_slots_per_request a + num_rejected);
     start_pos \<leftarrow> rd (target_positions a) q_start;
     bonus_token \<leftarrow> rd (x_next_token_ids a) req_idx;
     s1 \<leftarrow> for_range 0 total_output_tokens
       (expand_token a req_idx q_start num_valid_tokens out_start start_pos bonus_token) s;
     if shift_input_ids a then do {
       n_input \<leftarrow> ck32 (next_q_start - q_start);
       on s1 Out_hidden_state_mapping (for_range 0 n_input (\<lambda>j b. wr b (q_start + j) (i32 (out_start + j)))) }
     else Some s1 }"

definition copy_and_expand_eagle_inputs_kernel_impl ::
  "(int \<Rightarrow> int list) \<Rightarrow> expand_args \<Rightarrow> expand_buf store \<Rightarrow> expand_buf store option" where
  "copy_and_expand_eagle_inputs_kernel_impl order a s =
     omp_for order (int (length (x_query_end_loc a))) (expand_request a) s"

datatype dflash_buf =
    Flash_input_ids | Out_context_positions | Out_query_positions | Out_context_slot_mapping
  | Out_query_slot_mapping | Out_token_indices

record dflash_args =
  d_next_token_ids :: "int list"
  d_target_positions :: "int list"
  d_block_table :: "int tensor2"
  d_query_start_loc :: "int list"
  d_num_rejected_tokens :: "int list option"
  d_parallel_drafting_token_id :: int
  d_block_size :: int
  num_query_per_req :: int
  num_speculative_tokens :: int
  d_total_input_tokens :: int
  has_num_rejected :: bool

definition dflash_slot :: "dflash_args \<Rightarrow> int \<Rightarrow> int \<Rightarrow> int option" where
  "dflash_slot a req_idx position =
     clamped_slot (dat (d_block_table a)) (req_idx * stride0 (d_block_table a)) (stride0 (d_block_table a))
       (d_block_size a) position"

definition dflash_context :: "dflash_args \<Rightarrow> int \<Rightarrow> int \<Rightarrow> int \<Rightarrow> dflash_buf store \<Rightarrow> dflash_buf store option" where
  "dflash_context a req_idx ctx_start j s = do {
     let ctx_idx = ctx_start + j;
     position \<leftarrow> rd (d_target_positions a) (min ctx_idx (d_total_input_tokens a - 1));
     slot \<leftarrow> dflash_slot a req_idx position;
     s1 \<leftarrow> on s Out_context_positions (\<lambda>b. wr b ctx_idx position);
     on s1 Out_context_slot_mapping (\<lambda>b. wr b ctx_idx slot) }"

definition dflash_query :: "dflash_args \<Rightarrow> int \<Rightarrow> int \<Rightarrow> int \<Rightarrow> dflash_buf store \<Rightarrow> dflash_buf store option" where
  "dflash_query a req_idx last_pos query_off s = do {
     let query_out = req_idx * num_query_per_req a + query_off;
     position \<leftarrow> ck64 (last_pos + 1 + query_off);
     slot \<leftarrow> dflash_slot a req_idx position;
     s1 \<leftarrow> on s Out_query_positions (\<lambda>b. wr b query_out position);
     s2 \<leftarrow> on s1 Out_query_slot_mapping (\<lambda>b. wr b query_out slot);
     token \<leftarrow> (if query_off = 0 then rd (d_next_token_ids a) req_idx else Some (d_parallel_drafting_token_id a));
     s3 \<leftarrow> on s2 Flash_input_ids (\<lambda>b. wr b query_out token);
     if query_off > 0 then
       on s3 Out_token_indices
         (\<lambda>b. wr b (req_idx * num_speculative_tokens a + (query_off - 1)) (i32 query_out))
     else Some s3 }"

definition dflash_request :: "dflash_args \<Rightarrow> int \<Rightarrow> dflash_buf store \<Rightarrow> dflash_buf store option" where
  "dflash_request a req_idx s = do {
     ctx_start \<leftarrow> rd (d_query_start_loc a) req_idx;
     ctx_end \<leftarrow> rd (d_query_start_loc a) (req_idx + 1);
     num_ctx \<leftarrow> ck32 (ctx_end - ctx_start);
     end1 \<leftarrow> (case (if has_num_rejected a then d_num_rejected_tokens a else None) of
       None \<Rightarrow> Some ctx_end
     | Some rejected \<Rightarrow> do { r \<leftarrow> rd rejected req_idx; ck64 (ctx_end - r) });
     next_start \<leftarrow> ck32 (ctx_start + 1);
     let valid_ctx_end = max end1 next_start;
     last_pos \<leftarrow> rd (d_target_positions a) (valid_ctx_end - 1);
     s1 \<leftarrow> for_range 0 num_ctx (dflash_context a req_idx ctx_start) s;
     for_range 0 (num_query_per_req a) (dflash_query a req_idx last_pos) s1 }"

definition copy_and_expand_dflash_inputs_kernel_impl ::
  "(int \<Rightarrow> int list) \<Rightarrow> dflash_args \<Rightarrow> dflash_buf store \<Rightarrow> dflash_buf store option" where
  "copy_and_expand_dflash_inputs_kernel_impl order a s =
     omp_for order (int (length (d_query_start_loc a)) - 1) (dflash_request a) s"

section \<open>Rejection sampling\<close>

record greedy_args =
  g_cu :: "int list"
  g_draft_token_ids :: "int list"
  g_target_argmax :: "int list"
  g_bonus :: "int tensor2"
  g_is_greedy :: "bool list option"
  g_out_stride :: int

definition greedy_pos :: "greedy_args \<Rightarrow> int \<Rightarrow> int \<Rightarrow> int \<Rightarrow> int list \<Rightarrow> (int list \<times> bool) option" where
  "greedy_pos a req_idx start_idx pos out = do {
     target_id \<leftarrow> rd (g_target_argmax a) (start_idx + pos);
     out1 \<leftarrow> wr out (req_idx * g_out_stride a + pos) target_id;
     draft_id \<leftarrow> rd (g_draft_token_ids a) (start_idx + pos);
     Some (out1, draft_id \<noteq> target_id) }"

definition greedy_request :: "greedy_args \<Rightarrow> int \<Rightarrow> int list \<Rightarrow> int list option" where
  "greedy_request a req_idx out = do {
     greedy \<leftarrow> (case g_is_greedy a of None \<Rightarrow> Some True | Some g \<Rightarrow> rd g req_idx);
     if \<not> greedy then Some out
     else do {
       start_idx \<leftarrow> draft_start (g_cu a) req_idx;
       end_idx \<leftarrow> rd (g_cu a) req_idx;
       num_draft_tokens \<leftarrow> ck64 (end_idx - start_idx);
       r \<leftarrow> for_break 0 num_draft_tokens (greedy_pos a req_idx start_idx) out;
       if \<not> snd r then do {
         bonus \<leftarrow> rd (dat (g_bonus a)) (req_idx * stride0 (g_bonus a));
         wr (fst r) (req_idx * g_out_stride a + num_draft_tokens) bonus }
       else Some (fst r) } }"

definition rejection_greedy_sample_kernel_impl ::
  "(int \<Rightarrow> int list) \<Rightarrow> greedy_args \<Rightarrow> int list \<Rightarrow> int list option" where
  "rejection_greedy_sample_kernel_impl order a out = omp_for order (int (length (g_cu a))) (greedy_request a) out"

record random_args =
  r_cu :: "int list"
  r_draft_token_ids :: "int list"
  r_draft_probs :: "float32 tensor2 option"
  r_target_probs :: "float32 tensor2"
  r_bonus :: "int tensor2"
  r_recovered_token_ids :: "int list"
  r_uniform_probs :: "float32 list"
  r_is_greedy :: "bool list option"
  r_out_stride :: int

text \<open>The pointer to the draft probabilities: null under \<open>no_draft_probs\<close>; otherwise the optional is
  dereferenced, which throws when it is empty.\<close>

definition probs_ptr :: "bool \<Rightarrow> float32 tensor2 option \<Rightarrow> float32 tensor2 option option" where
  "probs_ptr no_draft_probs draft_probs = (if no_draft_probs then Some None else map_option Some draft_probs)"

definition accepted :: "random_args \<Rightarrow> int \<Rightarrow> int \<Rightarrow> bool option" where
  "accepted a token_idx draft_id = do {
     p \<leftarrow> rd (dat (r_target_probs a)) (token_idx * stride0 (r_target_probs a) + draft_id);
     q \<leftarrow> (case r_draft_probs a of
            None \<Rightarrow> Some 0x3f800000
          | Some d \<Rightarrow> rd (dat d) (token_idx * stride0 d + draft_id));
     uniform_p \<leftarrow> rd (r_uniform_probs a) token_idx;
     Some (fle uniform_p (if flt 0 q then fdiv p q else 0)) }"

definition random_pos :: "random_args \<Rightarrow> int \<Rightarrow> int \<Rightarrow> int \<Rightarrow> int list \<Rightarrow> (int list \<times> bool) option" where
  "random_pos a req_idx start_idx pos out = do {
     let token_idx = start_idx + pos;
     draft_id \<leftarrow> rd (r_draft_token_ids a) token_idx;
     acc \<leftarrow> accepted a token_idx draft_id;
     if acc then do {
       out1 \<leftarrow> wr out (req_idx * r_out_stride a + pos) draft_id;
       Some (out1, False) }
     else do {
       recovered \<leftarrow> rd (r_recovered_token_ids a) token_idx;
       out1 \<leftarrow> wr out (req_idx * r_out_stride a + pos) recovered;
       Some (out1, True) } }"

definition random_request :: "random_args \<Rightarrow> int \<Rightarrow> int list \<Rightarrow> int list option" where
  "random_request a req_idx out = do {
     greedy \<leftarrow> (case r_is_greedy a of None \<Rightarrow> Some False | Some g \<Rightarrow> rd g req_idx);
     if greedy then Some out
     else do {
       start_idx \<leftarrow> draft_start (r_cu a) req_idx;
       end_idx \<leftarrow> rd (r_cu a) req_idx;
       num_draft_tokens \<leftarrow> ck64 (end_idx - start_idx);
       r \<leftarrow> for_break 0 num_draft_tokens (random_pos a req_idx start_idx) out;
       if \<not> snd r then do {
         bonus \<leftarrow> rd (dat (r_bonus a)) (req_idx * stride0 (r_bonus a));
         wr (fst r) (req_idx * r_out_stride a + num_draft_tokens) bonus }
       else Some (fst r) } }"

definition rejection_random_sample_kernel_impl ::
  "(int \<Rightarrow> int list) \<Rightarrow> bool \<Rightarrow> float32 tensor2 option \<Rightarrow> random_args \<Rightarrow> int list \<Rightarrow> int list option" where
  "rejection_random_sample_kernel_impl order no_draft_probs draft_probs a out = do {
     p \<leftarrow> probs_ptr no_draft_probs draft_probs;
     omp_for order (int (length (r_cu a))) (random_request (a\<lparr>r_draft_probs := p\<rparr>)) out }"

definition expand_kernel_impl ::
  "(int \<Rightarrow> int list) \<Rightarrow> int list \<Rightarrow> int list \<Rightarrow> int list \<Rightarrow> int \<Rightarrow> int \<Rightarrow> int list option" where
  "expand_kernel_impl order out input cu_num_tokens replace_from replace_to =
     omp_for order (int (length cu_num_tokens)) (\<lambda>req_idx out. do {
       start_idx \<leftarrow> draft_start cu_num_tokens req_idx;
       end_idx \<leftarrow> rd cu_num_tokens req_idx;
       val \<leftarrow> rd input req_idx;
       let val = (if val = replace_from then replace_to else val);
       for_range start_idx end_idx (\<lambda>i out. wr out i val) out }) out"

section \<open>Recovered tokens\<close>

record recover_args =
  v_cu :: "int list"
  v_draft_token_ids :: "int list"
  v_draft_probs :: "float32 tensor2 option"
  v_target_probs :: "float32 tensor2"
  v_inv_q :: "float32 tensor2"
  vocab_size :: int

definition recovered_val :: "recover_args \<Rightarrow> int \<Rightarrow> int \<Rightarrow> int \<Rightarrow> int \<Rightarrow> float32 option" where
  "recovered_val a req_idx token_idx draft_id v = do {
     p \<leftarrow> rd (dat (v_target_probs a)) (token_idx * stride0 (v_target_probs a) + v);
     prob \<leftarrow> (case v_draft_probs a of
        None \<Rightarrow> Some (if v = draft_id then 0 else p)
      | Some d \<Rightarrow> do {
          q \<leftarrow> rd (dat d) (token_idx * stride0 d + v);
          let diff = fsub p q;
          Some (if flt 0 diff then diff else 0) });
     iq \<leftarrow> rd (dat (v_inv_q a)) (req_idx * stride0 (v_inv_q a) + v);
     Some (fmul prob iq) }"

definition best_token :: "recover_args \<Rightarrow> int \<Rightarrow> int \<Rightarrow> int \<Rightarrow> (float32 \<times> int) option" where
  "best_token a req_idx token_idx draft_id =
     for_range 0 (vocab_size a) (\<lambda>v (best_val, best_id). do {
       val \<leftarrow> recovered_val a req_idx token_idx draft_id v;
       if flt best_val val then Some (val, v) else Some (best_val, best_id) }) (0xbf800000, 0)"

definition recover_request :: "recover_args \<Rightarrow> int \<Rightarrow> int list \<Rightarrow> int list option" where
  "recover_request a req_idx out = do {
     start_idx \<leftarrow> draft_start (v_cu a) req_idx;
     end_idx \<leftarrow> rd (v_cu a) req_idx;
     num_draft_tokens \<leftarrow> ck64 (end_idx - start_idx);
     for_range 0 num_draft_tokens (\<lambda>pos out. do {
       let token_idx = start_idx + pos;
       draft_id \<leftarrow> rd (v_draft_token_ids a) token_idx;
       best \<leftarrow> best_token a req_idx token_idx draft_id;
       wr out token_idx (snd best) }) out }"

definition sample_recovered_tokens_kernel_impl ::
  "(int \<Rightarrow> int list) \<Rightarrow> bool \<Rightarrow> float32 tensor2 option \<Rightarrow> recover_args \<Rightarrow> int list \<Rightarrow> int list option" where
  "sample_recovered_tokens_kernel_impl order no_draft_probs draft_probs a out = do {
     p \<leftarrow> probs_ptr no_draft_probs draft_probs;
     omp_for order (int (length (v_cu a))) (recover_request (a\<lparr>v_draft_probs := p\<rparr>)) out }"

section \<open>The contract of rejection sampling\<close>

text \<open>Draft tokens of request \<open>r\<close>: their start and number; how many are accepted in a row.\<close>

definition dstart :: "int list \<Rightarrow> int \<Rightarrow> int" where
  "dstart cu r = (if r = 0 then 0 else at cu (r - 1))"

definition drafts :: "int list \<Rightarrow> int \<Rightarrow> int" where
  "drafts cu r = at cu r - dstart cu r"

lemma draft_start_dstart: "in_bounds cu r \<Longrightarrow> draft_start cu r = Some (dstart cu r)"
  by (auto simp: draft_start_def dstart_def rd_at)

text \<open>A kernel that writes \<open>tok i\<close> for draft \<open>i\<close>, stops behind the first draft that \<open>acc\<close> refuses, and writes
  the bonus token when none is refused.\<close>

locale rejection_sampler =
  fixes request :: "'a \<Rightarrow> int \<Rightarrow> int list \<Rightarrow> int list option"
    and step :: "'a \<Rightarrow> int \<Rightarrow> int \<Rightarrow> int \<Rightarrow> int list \<Rightarrow> (int list \<times> bool) option"
    and ok :: "'a \<Rightarrow> int \<Rightarrow> bool"
    and skip :: "'a \<Rightarrow> int \<Rightarrow> bool"
    and cu :: "'a \<Rightarrow> int list"
    and stride :: "'a \<Rightarrow> int"
    and tok :: "'a \<Rightarrow> int \<Rightarrow> int"
    and acc :: "'a \<Rightarrow> int \<Rightarrow> bool"
    and bonus :: "'a \<Rightarrow> int \<Rightarrow> int"
  assumes request: "ok a r \<Longrightarrow> request a r out =
      (if skip a r then Some out
       else do {
         x \<leftarrow> for_break 0 (drafts (cu a) r) (step a r (dstart (cu a) r)) out;
         if \<not> snd x then wr (fst x) (r * stride a + drafts (cu a) r) (bonus a r) else Some (fst x) })"
    and step: "ok a r \<Longrightarrow> \<not> skip a r \<Longrightarrow> 0 \<le> pos \<Longrightarrow> pos < drafts (cu a) r \<Longrightarrow> in_bounds out (r * stride a + pos) \<Longrightarrow>
      step a r (dstart (cu a) r) pos out =
        Some (out[nat (r * stride a + pos) := tok a (dstart (cu a) r + pos)], \<not> acc a (dstart (cu a) r + pos))"
begin

text \<open>The number of accepted drafts, and the token at position \<open>p\<close> of the row.\<close>

abbreviation taken :: "'a \<Rightarrow> int \<Rightarrow> int" where
  "taken a r \<equiv> prefix_len (\<lambda>p. acc a (dstart (cu a) r + p)) (drafts (cu a) r)"

abbreviation emitted :: "'a \<Rightarrow> int \<Rightarrow> int \<Rightarrow> int" where
  "emitted a r p \<equiv> (if p < drafts (cu a) r then tok a (dstart (cu a) r + p) else bonus a r)"

abbreviation fits :: "'a \<Rightarrow> int list \<Rightarrow> int \<Rightarrow> bool" where
  "fits a out r \<equiv> ok a r \<and> 0 \<le> drafts (cu a) r \<and> drafts (cu a) r < stride a \<and>
     0 \<le> r \<and> r * stride a + drafts (cu a) r < int (length out)"

text \<open>The row after the positions below \<open>i\<close> were written.\<close>

abbreviation row_upto :: "'a \<Rightarrow> int \<Rightarrow> int list \<Rightarrow> int \<Rightarrow> int list \<Rightarrow> bool" where
  "row_upto a r out i x \<equiv> length x = length out \<and> (\<forall>j. in_bounds out j \<longrightarrow> at x j =
     (if r * stride a \<le> j \<and> j < r * stride a + i then emitted a r (j - r * stride a) else at out j))"

lemma row_loop:
  assumes f: "fits a out r" and s: "\<not> skip a r"
  shows "yields (for_break 0 (drafts (cu a) r) (step a r (dstart (cu a) r)) out)
    (\<lambda>x. if snd x then taken a r < drafts (cu a) r \<and> row_upto a r out (taken a r + 1) (fst x)
         else taken a r = drafts (cu a) r \<and> row_upto a r out (drafts (cu a) r) (fst x))"
proof -
  let ?n = "drafts (cu a) r" and ?A = "\<lambda>p. acc a (dstart (cu a) r + p)"
  have pos: "0 \<le> r * stride a" using f by simp
  have "yields (for_break 0 ?n (step a r (dstart (cu a) r)) out)
    (\<lambda>x. if snd x then \<exists>i. 0 \<le> i \<and> i < ?n \<and> (\<not> ?A i \<and> (\<forall>k. 0 \<le> k \<longrightarrow> k < i \<longrightarrow> ?A k) \<and> row_upto a r out (i + 1) (fst x))
      else (\<forall>k. 0 \<le> k \<longrightarrow> k < ?n \<longrightarrow> ?A k) \<and> row_upto a r out ?n (fst x))"
  proof (rule yields_for_break [where
        P = "\<lambda>i x. (\<forall>k. 0 \<le> k \<longrightarrow> k < i \<longrightarrow> ?A k) \<and> row_upto a r out i x" and
        B = "\<lambda>i x. \<not> ?A i \<and> (\<forall>k. 0 \<le> k \<longrightarrow> k < i \<longrightarrow> ?A k) \<and> row_upto a r out (i + 1) x"], goal_cases)
    case (3 i x)
    then have b: "in_bounds x (r * stride a + i)" using f pos by auto
    have st: "step a r (dstart (cu a) r) i x =
        Some (x[nat (r * stride a + i) := tok a (dstart (cu a) r + i)], \<not> ?A i)"
      using 3 f s b by (intro step) auto
    have up: "row_upto a r out (i + 1) (x[nat (r * stride a + i) := tok a (dstart (cu a) r + i)])"
      using 3 b by (auto simp: at_upd)
    show ?case
    proof (cases "?A i")
      case True
      then have nn: "\<not> \<not> ?A i" and c: "\<forall>k. 0 \<le> k \<longrightarrow> k < i + 1 \<longrightarrow> ?A k" using 3 by (auto simp: less_le)
      show ?thesis unfolding st yields_Some fst_conv snd_conv if_not_P [OF nn] by (rule conjI [OF c up])
    next
      case False
      have c: "\<forall>k. 0 \<le> k \<longrightarrow> k < i \<longrightarrow> ?A k" using 3 by blast
      show ?thesis unfolding st yields_Some fst_conv snd_conv if_P [OF False]
        by (rule conjI [OF False conjI [OF c up]])
    qed
  qed (use f in auto)
  then show ?thesis
  proof (rule yields_mono)
    fix x assume x: "if snd x then \<exists>i. 0 \<le> i \<and> i < ?n \<and> (\<not> ?A i \<and> (\<forall>k. 0 \<le> k \<longrightarrow> k < i \<longrightarrow> ?A k) \<and> row_upto a r out (i + 1) (fst x))
      else (\<forall>k. 0 \<le> k \<longrightarrow> k < ?n \<longrightarrow> ?A k) \<and> row_upto a r out ?n (fst x)"
    show "if snd x then taken a r < ?n \<and> row_upto a r out (taken a r + 1) (fst x)
      else taken a r = ?n \<and> row_upto a r out ?n (fst x)"
    proof (cases "snd x")
      case True
      from x [unfolded if_P [OF True]] obtain i where
        i0: "0 \<le> i \<and> i < ?n \<and> (\<not> ?A i \<and> (\<forall>k. 0 \<le> k \<longrightarrow> k < i \<longrightarrow> ?A k) \<and> row_upto a r out (i + 1) (fst x))" ..
      note i = conjunct1 [OF i0] conjunct1 [OF conjunct2 [OF i0]] conjunct1 [OF conjunct2 [OF conjunct2 [OF i0]]]
        conjunct1 [OF conjunct2 [OF conjunct2 [OF conjunct2 [OF i0]]]] conjunct2 [OF conjunct2 [OF conjunct2 [OF conjunct2 [OF i0]]]]
      have "taken a r = i" using i(1-4) by (intro prefix_len_stop) auto
      with i(2,5) show ?thesis unfolding if_P [OF True] by metis
    next
      case False
      note x' = x [unfolded if_not_P [OF False]]
      have "taken a r = ?n" using f conjunct1 [OF x'] by (intro prefix_len_all) auto
      then show ?thesis unfolding if_not_P [OF False] using conjunct2 [OF x'] by (rule conjI)
    qed
  qed
qed

lemma row:
  assumes f: "fits a out r" and s: "\<not> skip a r"
  shows "yields (request a r out) (row_upto a r out (taken a r + 1))"
proof -
  let ?n = "drafts (cu a) r"
  have pos: "0 \<le> r * stride a" using f by simp
  have req: "request a r out = do { x \<leftarrow> for_break 0 ?n (step a r (dstart (cu a) r)) out;
      if \<not> snd x then wr (fst x) (r * stride a + ?n) (bonus a r) else Some (fst x) }"
    using request [of a r out] f s by simp
  show ?thesis unfolding req
  proof (rule yields_bindI [OF row_loop [OF f s]])
    fix x assume x: "if snd x then taken a r < ?n \<and> row_upto a r out (taken a r + 1) (fst x)
         else taken a r = ?n \<and> row_upto a r out ?n (fst x)"
    show "yields (if \<not> snd x then wr (fst x) (r * stride a + ?n) (bonus a r) else Some (fst x))
        (row_upto a r out (taken a r + 1))"
      using x f pos by (auto intro!: yields_wr simp: at_upd)
  qed
qed

lemma batch:
  assumes sched: "is_schedule order" and f: "\<And>r. 0 \<le> r \<Longrightarrow> r < int (length (cu a)) \<Longrightarrow> fits a out r"
  shows "yields (omp_for order (int (length (cu a))) (request a) out) (\<lambda>out'. length out' = length out \<and>
    (\<forall>r p. 0 \<le> r \<longrightarrow> r < int (length (cu a)) \<longrightarrow> 0 \<le> p \<longrightarrow> p \<le> drafts (cu a) r \<longrightarrow>
       at out' (r * stride a + p) =
         (if skip a r \<or> taken a r < p then at out (r * stride a + p) else emitted a r p)))"
proof (rule yields_omp_flat [OF sched, where
      R = "\<lambda>r. if skip a r then {} else {r * stride a..<r * stride a + (taken a r + 1)}"
      and V = "\<lambda>r j. emitted a r (j - r * stride a)"], goal_cases)
  case (1 r x)
  then have fx: "fits a x r" using f [of r] by simp
  show ?case
  proof (cases "skip a r")
    case True
    then have "request a r x = Some x" using request [of a r x] fx by simp
    then show ?thesis using True 1(3) by simp
  next
    case False
    show ?thesis unfolding if_not_P [OF False]
      by (rule yields_mono [OF row [OF fx False]]) (use 1(3) in auto)
  qed
next
  case (2 r r')
  have "taken a r \<le> drafts (cu a) r" "taken a r' \<le> drafts (cu a) r'"
    using f [of r] f [of r'] 2 by (auto intro!: prefix_len_le)
  then have le: "taken a r + 1 \<le> stride a" "taken a r' + 1 \<le> stride a" using f [OF 2(1,2)] f [OF 2(3,4)] by linarith+
  show ?case using rows_disjoint [OF 2(5) le] by auto
next
  case (3 out')
  have cell: "at out' (r * stride a + p) = (if skip a r \<or> taken a r < p then at out (r * stride a + p) else emitted a r p)"
    if rp: "0 \<le> r" "r < int (length (cu a))" "0 \<le> p" "p \<le> drafts (cu a) r" for r p
  proof -
    have fr: "fits a out r" using f rp by simp
    then have b: "in_bounds out (r * stride a + p)" using rp by auto
    have other: "r * stride a + p \<notin> (if skip a r' then {} else {r' * stride a..<r' * stride a + (taken a r' + 1)})"
      if "0 \<le> r'" "r' < int (length (cu a))" "r' \<noteq> r" for r'
    proof -
      have "taken a r' \<le> drafts (cu a) r'"
        using f [OF that(1,2)] by (auto intro!: prefix_len_le)
      then have le: "taken a r' + 1 \<le> stride a" "p + 1 \<le> stride a" using f [OF that(1,2)] fr rp(4) by linarith+
      have "r * stride a + p \<in> {r * stride a..<r * stride a + (p + 1)}" using rp(3) by simp
      then show ?thesis using rows_disjoint [OF that(3) le] by auto
    qed
    show ?thesis
    proof (cases "skip a r \<or> taken a r < p")
      case True
      have "at out' (r * stride a + p) = at out (r * stride a + p)"
      proof (rule 3(3) [OF b])
        fix i assume "0 \<le> i" "i < int (length (cu a))"
        then show "r * stride a + p \<notin> (if skip a i then {} else {i * stride a..<i * stride a + (taken a i + 1)})"
          using True by (cases "i = r") (simp_all add: other, linarith)
      qed
      then show ?thesis using True by simp
    next
      case False
      then have ns: "\<not> skip a r" and mem: "r * stride a + p \<in> (if skip a r then {} else {r * stride a..<r * stride a + (taken a r + 1)})"
        using rp(3) by simp_all
      from 3(2) [OF rp(1,2) b mem] show ?thesis unfolding if_not_P [OF False] by simp
    qed
  qed
  show ?case by (intro conjI allI impI 3(1) cell)
qed

end

section \<open>The two samplers\<close>

definition greedy_skip :: "greedy_args \<Rightarrow> int \<Rightarrow> bool" where
  "greedy_skip a r = (case g_is_greedy a of None \<Rightarrow> False | Some g \<Rightarrow> \<not> at g r)"

definition greedy_ok :: "greedy_args \<Rightarrow> int \<Rightarrow> bool" where
  "greedy_ok a r \<longleftrightarrow> in_bounds (g_cu a) r \<and> in_i64 (drafts (g_cu a) r) \<and>
     (case g_is_greedy a of None \<Rightarrow> True | Some g \<Rightarrow> in_bounds g r) \<and>
     (\<forall>i \<in> {dstart (g_cu a) r..<at (g_cu a) r}. in_bounds (g_target_argmax a) i \<and> in_bounds (g_draft_token_ids a) i) \<and>
     in_bounds (dat (g_bonus a)) (r * stride0 (g_bonus a))"

definition greedy_bonus :: "greedy_args \<Rightarrow> int \<Rightarrow> int" where
  "greedy_bonus a r = at (dat (g_bonus a)) (r * stride0 (g_bonus a))"

interpretation greedy: rejection_sampler greedy_request greedy_pos greedy_ok greedy_skip g_cu g_out_stride
  "\<lambda>a. at (g_target_argmax a)" "\<lambda>a i. at (g_draft_token_ids a) i = at (g_target_argmax a) i" greedy_bonus
proof (unfold_locales, goal_cases)
  case (1 a r out)
  have "(case g_is_greedy a of None \<Rightarrow> Some True | Some g \<Rightarrow> rd g r) = Some (\<not> greedy_skip a r)"
    using 1 by (auto simp: greedy_ok_def greedy_skip_def rd_at split: option.splits)
  with 1 show ?case
    by (simp add: greedy_request_def greedy_ok_def draft_start_dstart rd_at ck64_def drafts_def greedy_bonus_def cong: if_cong)
next
  case (2 a r pos out)
  then have "in_bounds (g_target_argmax a) (dstart (g_cu a) r + pos)" "in_bounds (g_draft_token_ids a) (dstart (g_cu a) r + pos)"
    by (simp_all add: greedy_ok_def drafts_def)
  with 2 show ?case by (simp add: greedy_pos_def rd_at wr_upd)
qed

definition random_skip :: "random_args \<Rightarrow> int \<Rightarrow> bool" where
  "random_skip a r = (case r_is_greedy a of None \<Rightarrow> False | Some g \<Rightarrow> at g r)"

text \<open>The accept decision for draft \<open>i\<close>: the ratio of target to draft probability reaches the uniform
  sample, in binary32 arithmetic.\<close>

definition random_acc :: "random_args \<Rightarrow> int \<Rightarrow> bool" where
  "random_acc a i =
     (let d = at (r_draft_token_ids a) i;
          p = at (dat (r_target_probs a)) (i * stride0 (r_target_probs a) + d);
          q = (case r_draft_probs a of None \<Rightarrow> 0x3f800000 | Some t \<Rightarrow> at (dat t) (i * stride0 t + d))
      in fle (at (r_uniform_probs a) i) (if flt 0 q then fdiv p q else 0))"

definition random_tok :: "random_args \<Rightarrow> int \<Rightarrow> int" where
  "random_tok a i = (if random_acc a i then at (r_draft_token_ids a) i else at (r_recovered_token_ids a) i)"

definition random_bonus :: "random_args \<Rightarrow> int \<Rightarrow> int" where
  "random_bonus a r = at (dat (r_bonus a)) (r * stride0 (r_bonus a))"

definition random_token_ok :: "random_args \<Rightarrow> int \<Rightarrow> bool" where
  "random_token_ok a i \<longleftrightarrow>
     (let d = at (r_draft_token_ids a) i in
      in_bounds (r_draft_token_ids a) i \<and> in_bounds (r_recovered_token_ids a) i \<and> in_bounds (r_uniform_probs a) i \<and>
      in_bounds (dat (r_target_probs a)) (i * stride0 (r_target_probs a) + d) \<and>
      (case r_draft_probs a of None \<Rightarrow> True | Some t \<Rightarrow> in_bounds (dat t) (i * stride0 t + d)))"

definition random_ok :: "random_args \<Rightarrow> int \<Rightarrow> bool" where
  "random_ok a r \<longleftrightarrow> in_bounds (r_cu a) r \<and> in_i64 (drafts (r_cu a) r) \<and>
     (case r_is_greedy a of None \<Rightarrow> True | Some g \<Rightarrow> in_bounds g r) \<and>
     (\<forall>i \<in> {dstart (r_cu a) r..<at (r_cu a) r}. random_token_ok a i) \<and>
     in_bounds (dat (r_bonus a)) (r * stride0 (r_bonus a))"

lemma accepted_random_acc:
  "random_token_ok a i \<Longrightarrow> accepted a i (at (r_draft_token_ids a) i) = Some (random_acc a i)"
  by (auto simp: random_token_ok_def accepted_def random_acc_def Let_def rd_at split: option.splits)

interpretation random: rejection_sampler random_request random_pos random_ok random_skip r_cu r_out_stride
  random_tok random_acc random_bonus
proof (unfold_locales, goal_cases)
  case (1 a r out)
  have "(case r_is_greedy a of None \<Rightarrow> Some False | Some g \<Rightarrow> rd g r) = Some (random_skip a r)"
    using 1 by (auto simp: random_ok_def random_skip_def rd_at split: option.splits)
  with 1 show ?case
    by (simp add: random_request_def random_ok_def draft_start_dstart rd_at ck64_def drafts_def random_bonus_def cong: if_cong)
next
  case (2 a r pos out)
  then have t: "random_token_ok a (dstart (r_cu a) r + pos)" by (simp add: random_ok_def drafts_def)
  then have "in_bounds (r_draft_token_ids a) (dstart (r_cu a) r + pos)" "in_bounds (r_recovered_token_ids a) (dstart (r_cu a) r + pos)"
    by (auto simp: random_token_ok_def Let_def)
  with 2 t show ?case by (simp add: random_pos_def rd_at wr_upd accepted_random_acc random_tok_def)
qed

text \<open>C13. Under every schedule, greedy rejection sampling returns without leaving a buffer, and the row of
  each request holds the target tokens up to and including the first one that differs from its
  draft, or all of them and the bonus token when none differs; the rest of the row and the rows of
  other requests are unchanged.\<close>

theorem rejection_greedy_sample:
  assumes "is_schedule order"
    and "\<And>r. 0 \<le> r \<Longrightarrow> r < int (length (g_cu a)) \<Longrightarrow> greedy_ok a r \<and> 0 \<le> drafts (g_cu a) r \<and>
      drafts (g_cu a) r < g_out_stride a \<and> r * g_out_stride a + drafts (g_cu a) r < int (length out)"
  shows "\<exists>out'. rejection_greedy_sample_kernel_impl order a out = Some out' \<and> length out' = length out \<and>
    (\<forall>r p. 0 \<le> r \<longrightarrow> r < int (length (g_cu a)) \<longrightarrow> 0 \<le> p \<longrightarrow> p \<le> drafts (g_cu a) r \<longrightarrow>
       at out' (r * g_out_stride a + p) =
         (if greedy_skip a r \<or>
             prefix_len (\<lambda>k. at (g_draft_token_ids a) (dstart (g_cu a) r + k) =
               at (g_target_argmax a) (dstart (g_cu a) r + k)) (drafts (g_cu a) r) < p
          then at out (r * g_out_stride a + p)
          else if p < drafts (g_cu a) r then at (g_target_argmax a) (dstart (g_cu a) r + p)
          else greedy_bonus a r))"
  unfolding rejection_greedy_sample_kernel_impl_def
  using greedy.batch [OF assms(1), of a out, THEN yieldsD] assms(2) by blast

definition demo_greedy :: greedy_args where
  "demo_greedy = \<lparr>g_cu = [2, 3], g_draft_token_ids = [5, 6, 9], g_target_argmax = [5, 7, 9],
     g_bonus = \<lparr>dat = [100, 101], size0 = 2, size1 = 1, stride0 = 1, stride1 = 1\<rparr>, g_is_greedy = None, g_out_stride = 3\<rparr>"

theorem rejection_greedy_sample_witness:
  "\<exists>out'. rejection_greedy_sample_kernel_impl (\<lambda>n. rev [0..n - 1]) demo_greedy (replicate 6 (-1)) = Some out' \<and>
    at out' 0 = 5 \<and> at out' 1 = 7 \<and> at out' 2 = -1 \<and> at out' 3 = 9 \<and> at out' 4 = 101"
proof -
  let ?out = "replicate 6 (-1) :: int list"
  have cu: "g_cu demo_greedy = [2, 3]" "g_out_stride demo_greedy = 3" by (simp_all add: demo_greedy_def)
  have "\<forall>r \<in> {0..<int (length (g_cu demo_greedy))}. greedy_ok demo_greedy r \<and> 0 \<le> drafts (g_cu demo_greedy) r \<and>
      drafts (g_cu demo_greedy) r < g_out_stride demo_greedy \<and>
      r * g_out_stride demo_greedy + drafts (g_cu demo_greedy) r < int (length ?out)" by code_simp
  then have ok: "\<And>r. 0 \<le> r \<Longrightarrow> r < int (length (g_cu demo_greedy)) \<Longrightarrow> greedy_ok demo_greedy r \<and> 0 \<le> drafts (g_cu demo_greedy) r \<and>
      drafts (g_cu demo_greedy) r < g_out_stride demo_greedy \<and>
      r * g_out_stride demo_greedy + drafts (g_cu demo_greedy) r < int (length ?out)" by simp
  obtain out' where run: "rejection_greedy_sample_kernel_impl (\<lambda>n. rev [0..n - 1]) demo_greedy ?out = Some out'"
    and at': "\<And>r p. 0 \<le> r \<Longrightarrow> r < int (length (g_cu demo_greedy)) \<Longrightarrow> 0 \<le> p \<Longrightarrow> p \<le> drafts (g_cu demo_greedy) r \<Longrightarrow>
       at out' (r * g_out_stride demo_greedy + p) =
         (if greedy_skip demo_greedy r \<or>
             prefix_len (\<lambda>k. at (g_draft_token_ids demo_greedy) (dstart (g_cu demo_greedy) r + k) =
               at (g_target_argmax demo_greedy) (dstart (g_cu demo_greedy) r + k)) (drafts (g_cu demo_greedy) r) < p
          then at ?out (r * g_out_stride demo_greedy + p)
          else if p < drafts (g_cu demo_greedy) r then at (g_target_argmax demo_greedy) (dstart (g_cu demo_greedy) r + p)
          else greedy_bonus demo_greedy r)"
    using rejection_greedy_sample [OF is_schedule_rev ok] by blast
  have d: "drafts [2, 3] 0 = 2" "drafts [2, 3] 1 = 1" "dstart [2, 3] 0 = 0" "dstart [2, 3] 1 = 2"
    "prefix_len (\<lambda>k. at [5, 6, 9 :: int] k = at [5, 7, 9] k) 2 = 1"
    "prefix_len (\<lambda>k. at [5, 6, 9 :: int] (2 + k) = at [5, 7, 9] (2 + k)) 1 = 1" by code_simp+
  have "at out' 0 = 5" "at out' 1 = 7" "at out' 2 = -1" "at out' 3 = 9" "at out' 4 = 101"
    using at' [of 0 0] at' [of 0 1] at' [of 0 2] at' [of 1 0] at' [of 1 1] d
    by (simp_all add: demo_greedy_def greedy_skip_def greedy_bonus_def at_def [of _ "_ :: int"])
  with run show ?thesis by blast
qed

text \<open>C4. Under every schedule, random rejection sampling returns without leaving a buffer, and the row of
  each request holds its draft tokens as long as the probability ratio reaches the uniform sample,
  then the recovered token of the first rejected draft, or the bonus token when none is rejected;
  the rest of the row and the rows of greedy requests are unchanged.\<close>

theorem rejection_random_sample:
  assumes "is_schedule order" "probs_ptr no_draft_probs draft_probs = Some ptr" "b = a\<lparr>r_draft_probs := ptr\<rparr>"
    and "\<And>r. 0 \<le> r \<Longrightarrow> r < int (length (r_cu b)) \<Longrightarrow> random_ok b r \<and> 0 \<le> drafts (r_cu b) r \<and>
      drafts (r_cu b) r < r_out_stride b \<and> r * r_out_stride b + drafts (r_cu b) r < int (length out)"
  shows "\<exists>out'. rejection_random_sample_kernel_impl order no_draft_probs draft_probs a out = Some out' \<and>
    length out' = length out \<and>
    (\<forall>r p. 0 \<le> r \<longrightarrow> r < int (length (r_cu b)) \<longrightarrow> 0 \<le> p \<longrightarrow> p \<le> drafts (r_cu b) r \<longrightarrow>
       at out' (r * r_out_stride b + p) =
         (if random_skip b r \<or> prefix_len (\<lambda>k. random_acc b (dstart (r_cu b) r + k)) (drafts (r_cu b) r) < p
          then at out (r * r_out_stride b + p)
          else if p < drafts (r_cu b) r then random_tok b (dstart (r_cu b) r + p)
          else random_bonus b r))"
proof -
  have "r_cu a = r_cu b" using assms(3) by simp
  then show ?thesis
    unfolding rejection_random_sample_kernel_impl_def assms(2) bind.simps assms(3) [symmetric]
    using random.batch [OF assms(1), of b out, THEN yieldsD] assms(4) by simp
qed

definition demo_random :: random_args where
  "demo_random = \<lparr>r_cu = [2], r_draft_token_ids = [1, 0], r_draft_probs = None,
     r_target_probs = \<lparr>dat = [0x3f000000, 0x3f000000, 0x3e000000, 0x3f600000], size0 = 2, size1 = 2, stride0 = 2, stride1 = 1\<rparr>,
     r_bonus = \<lparr>dat = [100], size0 = 1, size1 = 1, stride0 = 1, stride1 = 1\<rparr>, r_recovered_token_ids = [50, 51],
     r_uniform_probs = [0x3f400000, 0x3f400000], r_is_greedy = None, r_out_stride = 3\<rparr>"

definition demo_draft_probs :: "float32 tensor2" where
  "demo_draft_probs = \<lparr>dat = [0x3f400000, 0x3e800000, 0x3f000000, 0x3f000000], size0 = 2, size1 = 2, stride0 = 2, stride1 = 1\<rparr>"

theorem rejection_random_sample_witness:
  "\<exists>out'. rejection_random_sample_kernel_impl (\<lambda>n. rev [0..n - 1]) False (Some demo_draft_probs) demo_random [-1, -1, -1] = Some out' \<and>
    at out' 0 = 1 \<and> at out' 1 = 51 \<and> at out' 2 = -1"
proof -
  let ?b = "demo_random\<lparr>r_draft_probs := Some demo_draft_probs\<rparr>" and ?out = "[-1, -1, -1] :: int list"
  have f: "r_cu ?b = [2]" "r_out_stride ?b = 3" by (simp_all add: demo_random_def)
  have d: "drafts [2] 0 = 2" "dstart [2] 0 = 0" by code_simp+
  have div: "fdiv 0x3f000000 0x3e800000 = 0x40000000" "fdiv 0x3e000000 0x3f000000 = 0x3e800000"
    by (simp_all add: float_eval)
  have cmp: "flt 0 0x3e800000" "flt 0 0x3f000000" "fle 0x3f400000 0x40000000" "\<not> fle 0x3f400000 0x3e800000"
    by (simp_all add: float_eval)
  have acc: "random_acc ?b 0" "\<not> random_acc ?b 1"
    by (simp_all add: random_acc_def demo_random_def demo_draft_probs_def at_def div cmp)
  have "prefix_len (\<lambda>k. random_acc ?b k) 2 = 1" using acc by (simp add: prefix_len_def upto.simps)
  moreover have "random_ok ?b 0" "\<not> random_skip ?b 0" "at (r_draft_token_ids ?b) 0 = 1" "at (r_recovered_token_ids ?b) 1 = 51"
    by code_simp+
  ultimately have v: "random_ok ?b 0" "\<not> random_skip ?b 0" "prefix_len (\<lambda>k. random_acc ?b k) 2 = 1"
    "random_tok ?b 0 = 1" "random_tok ?b 1 = 51" using acc by (simp_all add: random_tok_def)
  have ok: "random_ok ?b r \<and> 0 \<le> drafts (r_cu ?b) r \<and> drafts (r_cu ?b) r < r_out_stride ?b \<and>
      r * r_out_stride ?b + drafts (r_cu ?b) r < int (length ?out)" if "0 \<le> r" "r < int (length (r_cu ?b))" for r
  proof -
    have "r = 0" using that f by simp
    then show ?thesis using f d v by simp
  qed
  obtain out' where run: "rejection_random_sample_kernel_impl (\<lambda>n. rev [0..n - 1]) False (Some demo_draft_probs) demo_random ?out = Some out'"
    and at': "\<And>r p. 0 \<le> r \<Longrightarrow> r < int (length (r_cu ?b)) \<Longrightarrow> 0 \<le> p \<Longrightarrow> p \<le> drafts (r_cu ?b) r \<Longrightarrow>
       at out' (r * r_out_stride ?b + p) =
         (if random_skip ?b r \<or> prefix_len (\<lambda>k. random_acc ?b (dstart (r_cu ?b) r + k)) (drafts (r_cu ?b) r) < p
          then at ?out (r * r_out_stride ?b + p)
          else if p < drafts (r_cu ?b) r then random_tok ?b (dstart (r_cu ?b) r + p) else random_bonus ?b r)"
    using rejection_random_sample [OF is_schedule_rev _ refl ok, of False "Some demo_draft_probs"] by (auto simp: probs_ptr_def)
  have "at out' 0 = 1" "at out' 1 = 51" "at out' 2 = at ?out 2"
    using at' [of 0 0] at' [of 0 1] at' [of 0 2] by (simp_all add: f d v)
  with run show ?thesis by (auto simp: at_def)
qed

end
