(* ===== verification/Spec_Inputs.thy ===== *)
theory Spec_Inputs
  imports Spec_Decode
begin

text \<open>
  What the remaining kernels of \<open>src/csrc/cpu/spec_decode_utils.cpp\<close> compute, for every schedule: recovered
  tokens, the expansion of per-request values, the inputs of the draft model.  The kernels are
  defined in \<open>Spec_Decode\<close>.
\<close>

section \<open>Segments given by their ends\<close>

lemma ends_segment: "0 \<le> r \<Longrightarrow> segment (0 # cu) r = {dstart cu r..<at cu r}"
  by (auto simp: segment_def at_Cons dstart_def)

text \<open>\<open>ends_ok cu bound\<close>: the entries of \<open>cu\<close> ascend from 0 to at most \<open>bound\<close>.\<close>

definition ends_ok :: "int list \<Rightarrow> int \<Rightarrow> bool" where
  "ends_ok cu bound \<longleftrightarrow> offsets_ok (0 # cu) (int (length cu)) bound"

lemma ends_bounds:
  assumes "ends_ok cu bound" "0 \<le> r" "r < int (length cu)"
  shows "0 \<le> dstart cu r" "dstart cu r \<le> at cu r" "at cu r \<le> bound"
proof -
  have off: "offsets_ok (0 # cu) (int (length cu)) bound" using assms(1) by (simp add: ends_ok_def)
  have "at (0 # cu) r = dstart cu r" "at (0 # cu) (r + 1) = at cu r" using assms(2) by (auto simp: at_Cons dstart_def)
  then show "0 \<le> dstart cu r" "dstart cu r \<le> at cu r" "at cu r \<le> bound"
    using offsets_bounds [OF off, of r] offsets_bounds [OF off, of "r + 1"] offsets_mono [OF off, of r "r + 1"] assms(2,3) by auto
qed

lemma ends_disjoint:
  assumes "ends_ok cu bound" "0 \<le> r" "r < int (length cu)" "0 \<le> r'" "r' < int (length cu)" "r \<noteq> r'"
  shows "{dstart cu r..<at cu r} \<inter> {dstart cu r'..<at cu r'} = {}"
  using segments_disjoint [of "0 # cu" "int (length cu)" bound r r'] assms by (simp add: ends_ok_def ends_segment)

section \<open>Recovered tokens\<close>

definition rec_prob :: "recover_args \<Rightarrow> int \<Rightarrow> int \<Rightarrow> float32" where
  "rec_prob a i v =
     (let p = at (dat (v_target_probs a)) (i * stride0 (v_target_probs a) + v) in
      case v_draft_probs a of
        None \<Rightarrow> if v = at (v_draft_token_ids a) i then 0 else p
      | Some t \<Rightarrow> let diff = fsub p (at (dat t) (i * stride0 t + v)) in if flt 0 diff then diff else 0)"

definition rec_val :: "recover_args \<Rightarrow> int \<Rightarrow> int \<Rightarrow> int \<Rightarrow> float32" where
  "rec_val a r i v = fmul (rec_prob a i v) (at (dat (v_inv_q a)) (r * stride0 (v_inv_q a) + v))"

text \<open>Probabilities and inverse noise are finite and not negative, and all accesses stay inside.\<close>

definition recover_entry_ok :: "recover_args \<Rightarrow> int \<Rightarrow> int \<Rightarrow> int \<Rightarrow> bool" where
  "recover_entry_ok a r i v \<longleftrightarrow>
     (let tp = i * stride0 (v_target_probs a) + v; iq = r * stride0 (v_inv_q a) + v in
      in_bounds (dat (v_target_probs a)) tp \<and> f_nonneg (at (dat (v_target_probs a)) tp) \<and>
      in_bounds (dat (v_inv_q a)) iq \<and> f_nonneg (at (dat (v_inv_q a)) iq) \<and>
      (case v_draft_probs a of None \<Rightarrow> True
       | Some t \<Rightarrow> in_bounds (dat t) (i * stride0 t + v) \<and> f_nonneg (at (dat t) (i * stride0 t + v))))"

definition recover_ok :: "recover_args \<Rightarrow> int list \<Rightarrow> bool" where
  "recover_ok a out \<longleftrightarrow> 0 < vocab_size a \<and> ends_ok (v_cu a) (int (length out)) \<and>
     (\<forall>r \<in> {0..<int (length (v_cu a))}. in_i64 (drafts (v_cu a) r) \<and>
        (\<forall>i \<in> {dstart (v_cu a) r..<at (v_cu a) r}. in_bounds (v_draft_token_ids a) i \<and>
           (\<forall>v \<in> {0..<vocab_size a}. recover_entry_ok a r i v)))"

definition is_best :: "(int \<Rightarrow> float32) \<Rightarrow> int \<Rightarrow> int \<Rightarrow> bool" where
  "is_best val n m \<longleftrightarrow> 0 \<le> m \<and> m < n \<and> (\<forall>v \<in> {0..<n}. \<not> flt (val m) (val v)) \<and> (\<forall>v \<in> {0..<m}. flt (val v) (val m))"

lemma recovered_val_rec:
  "recover_entry_ok a r i v \<Longrightarrow> recovered_val a r i (at (v_draft_token_ids a) i) v = Some (rec_val a r i v)"
  by (auto simp: recover_entry_ok_def recovered_val_def rec_val_def rec_prob_def Let_def rd_at split: option.splits)

lemma rec_val_nonneg:
  assumes "recover_entry_ok a r i v" shows "\<not> is_nan (rec_val a r i v)" "0 \<le> f_key (rec_val a r i v)"
proof -
  have z: "f_nonneg 0" by (simp add: f_nonneg_def f_sign_def f_exp_def)
  have "f_nonneg (rec_prob a i v)"
    using assms z fsub_nonneg by (auto simp: recover_entry_ok_def rec_prob_def Let_def split: option.splits)
  moreover have "f_nonneg (at (dat (v_inv_q a)) (r * stride0 (v_inv_q a) + v))"
    using assms by (simp add: recover_entry_ok_def Let_def)
  ultimately show "\<not> is_nan (rec_val a r i v)" "0 \<le> f_key (rec_val a r i v)"
    unfolding rec_val_def by (rule fmul_nonneg)+
qed

lemma best_token_correct:
  assumes pos: "0 < vocab_size a" and ok: "\<And>v. 0 \<le> v \<Longrightarrow> v < vocab_size a \<Longrightarrow> recover_entry_ok a r i v"
  shows "yields (best_token a r i (at (v_draft_token_ids a) i)) (\<lambda>b. is_best (rec_val a r i) (vocab_size a) (snd b))"
proof -
  let ?f = "rec_val a r i" and ?k = "\<lambda>v. f_key (rec_val a r i v)"
  define P where "P n b \<longleftrightarrow> (if n = 0 then b = (0xbf800000, 0)
      else fst b = ?f (snd b) \<and> 0 \<le> snd b \<and> snd b < n \<and> (\<forall>v. 0 \<le> v \<longrightarrow> v < n \<longrightarrow> ?k v \<le> ?k (snd b)) \<and>
        (\<forall>v. 0 \<le> v \<longrightarrow> v < snd b \<longrightarrow> ?k v < ?k (snd b)))" for n :: int and b :: "float32 \<times> int"
  have one: "\<not> is_nan 0xbf800000" "f_key 0xbf800000 < 0" by (simp_all add: float_eval)
  have num: "\<not> is_nan (?f v)" "0 \<le> ?k v" if "0 \<le> v" "v < vocab_size a" for v
    using rec_val_nonneg [OF ok [OF that]] by auto
  have "yields (best_token a r i (at (v_draft_token_ids a) i)) (P (vocab_size a))"
    unfolding best_token_def
  proof (rule yields_for_range, goal_cases)
    case (3 v b)
    obtain bv bi where b: "b = (bv, bi)" by (cases b)
    have run: "recovered_val a r i (at (v_draft_token_ids a) i) v = Some (?f v)"
      using ok 3 by (intro recovered_val_rec) auto
    have "P (v + 1) (if flt bv (?f v) then (?f v, v) else (bv, bi))"
    proof (cases "v = 0")
      case True
      then have "flt bv (?f v)" using 3(3) b one num [of 0] pos by (auto simp: P_def flt_def)
      moreover have "?k u \<le> ?k 0" if "0 \<le> u" "u < 1" for u
      proof -
        have "u = 0" using that by simp
        then show ?thesis by simp
      qed
      ultimately show ?thesis using True by (auto simp: P_def)
    next
      case False
      then have bi: "bv = ?f bi" "0 \<le> bi" "bi < v" "\<forall>u. 0 \<le> u \<longrightarrow> u < v \<longrightarrow> ?k u \<le> ?k bi"
        "\<forall>u. 0 \<le> u \<longrightarrow> u < bi \<longrightarrow> ?k u < ?k bi"
        using 3 b by (auto simp: P_def)
      have "flt bv (?f v) \<longleftrightarrow> ?k bi < ?k v" using bi 3 num [of bi] num [of v] by (auto simp: flt_def)
      then show ?thesis using bi 3(1) by (auto simp: P_def zless_add1_eq le_less_trans not_less)
    qed
    then show ?case using run by (auto simp: b split: if_splits)
  qed (use pos in \<open>auto simp: P_def\<close>)
  then show ?thesis
    by (rule yields_mono) (use pos num in \<open>auto simp: P_def is_best_def flt_def not_less\<close>)
qed

lemma recover_request_correct:
  assumes ok: "recover_ok a out0" and r: "0 \<le> r" "r < int (length (v_cu a))" and len: "length out = length out0"
  shows "yields (recover_request a r out) (\<lambda>out'. length out' = length out0 \<and> (\<forall>j. in_bounds out0 j \<longrightarrow> at out' j =
    (if j \<in> {dstart (v_cu a) r..<at (v_cu a) r}
     then snd (the (best_token a r j (at (v_draft_token_ids a) j))) else at out j)))"
proof -
  let ?s = "dstart (v_cu a) r" and ?n = "drafts (v_cu a) r"
  have e: "ends_ok (v_cu a) (int (length out0))" and pos: "0 < vocab_size a" and i64: "in_i64 ?n"
    and ent: "\<And>i v. ?s \<le> i \<Longrightarrow> i < at (v_cu a) r \<Longrightarrow> in_bounds (v_draft_token_ids a) i \<and>
      (0 \<le> v \<longrightarrow> v < vocab_size a \<longrightarrow> recover_entry_ok a r i v)"
    using ok r by (auto simp: recover_ok_def)
  note b = ends_bounds [OF e r]
  have run: "recover_request a r out = for_range 0 ?n (\<lambda>p out. do {
       let token_idx = ?s + p;
       draft_id \<leftarrow> rd (v_draft_token_ids a) token_idx;
       best \<leftarrow> best_token a r token_idx draft_id;
       wr out token_idx (snd best) }) out"
    using r i64 by (simp add: recover_request_def draft_start_dstart rd_at ck64_def drafts_def)
  show ?thesis unfolding run Let_def
  proof (rule yields_for_range_flat [where R = "\<lambda>p. {?s + p}" and
        V = "\<lambda>p _. snd (the (best_token a r (?s + p) (at (v_draft_token_ids a) (?s + p))))"], goal_cases)
    case (1 p x)
    then have i: "?s \<le> ?s + p" "?s + p < at (v_cu a) r" by (auto simp: drafts_def)
    from best_token_correct [OF pos, of r "?s + p"] ent [OF i] obtain best where
      "best_token a r (?s + p) (at (v_draft_token_ids a) (?s + p)) = Some best" by (auto dest!: yieldsD)
    then show ?case using 1 ent [OF i] b i len by (auto simp: rd_at intro!: yields_wr)
  next
    case (3 x)
    have "at x j = snd (the (best_token a r j (at (v_draft_token_ids a) j)))" if "in_bounds out0 j" "?s \<le> j" "j < at (v_cu a) r" for j
      using 3(2) [of "j - ?s" j] that len by (simp add: drafts_def)
    moreover have "at x j = at out j" if "in_bounds out0 j" "j \<notin> {?s..<at (v_cu a) r}" for j
      using 3(3) [of j] that len by (auto simp: drafts_def)
    ultimately show ?case using 3(1) len by simp
  qed auto
qed

text \<open>C26. Under every schedule, the recovered token of each draft is the first token of the vocabulary with
  the largest residual probability times inverse noise, in binary32 arithmetic, when probabilities
  and noise are finite and not negative.\<close>

theorem sample_recovered_tokens:
  assumes "is_schedule order" "probs_ptr no_draft_probs draft_probs = Some ptr" "b = a\<lparr>v_draft_probs := ptr\<rparr>"
    and ok: "recover_ok b out"
  shows "\<exists>out'. sample_recovered_tokens_kernel_impl order no_draft_probs draft_probs a out = Some out' \<and>
    length out' = length out \<and>
    (\<forall>r i. 0 \<le> r \<longrightarrow> r < int (length (v_cu b)) \<longrightarrow> dstart (v_cu b) r \<le> i \<longrightarrow> i < at (v_cu b) r \<longrightarrow>
       is_best (rec_val b r i) (vocab_size b) (at out' i))"
proof -
  let ?V = "\<lambda>r j. snd (the (best_token b r j (at (v_draft_token_ids b) j)))"
  have e: "ends_ok (v_cu b) (int (length out))" and pos: "0 < vocab_size b" using ok by (auto simp: recover_ok_def)
  have best: "is_best (rec_val b r i) (vocab_size b) (?V r i)"
    if "0 \<le> r" "r < int (length (v_cu b))" "dstart (v_cu b) r \<le> i" "i < at (v_cu b) r" for r i
  proof -
    have "yields (best_token b r i (at (v_draft_token_ids b) i)) (\<lambda>x. is_best (rec_val b r i) (vocab_size b) (snd x))"
      using ok that by (intro best_token_correct [OF pos]) (auto simp: recover_ok_def)
    then show ?thesis by (auto dest!: yieldsD)
  qed
  have "yields (omp_for order (int (length (v_cu b))) (recover_request b) out) (\<lambda>out'. length out' = length out \<and>
    (\<forall>r i. 0 \<le> r \<longrightarrow> r < int (length (v_cu b)) \<longrightarrow> dstart (v_cu b) r \<le> i \<longrightarrow> i < at (v_cu b) r \<longrightarrow> at out' i = ?V r i))"
  proof (rule yields_omp_flat [OF assms(1), where R = "\<lambda>r. {dstart (v_cu b) r..<at (v_cu b) r}" and V = ?V], goal_cases)
    case (1 r x) then show ?case by (intro recover_request_correct [OF ok])
  next
    case (2 r r') then show ?case by (intro ends_disjoint [OF e])
  next
    case (3 x)
    have "at x i = ?V r i" if "0 \<le> r" "r < int (length (v_cu b))" "dstart (v_cu b) r \<le> i" "i < at (v_cu b) r" for r i
      using 3(2) [of r i] ends_bounds [OF e that(1,2)] that by simp
    then show ?case using 3(1) by blast
  qed
  moreover have "v_cu a = v_cu b" using assms(3) by simp
  ultimately show ?thesis
    unfolding sample_recovered_tokens_kernel_impl_def assms(2) bind.simps assms(3) [symmetric]
    using best by (auto dest!: yieldsD)
qed

definition demo_recover :: recover_args where
  "demo_recover = \<lparr>v_cu = [1], v_draft_token_ids = [1], v_draft_probs = None,
     v_target_probs = \<lparr>dat = [0x3e800000, 0x3f000000, 0x3e800000], size0 = 1, size1 = 3, stride0 = 3, stride1 = 1\<rparr>,
     v_inv_q = \<lparr>dat = [0x3f800000, 0x3f800000, 0x40000000], size0 = 1, size1 = 3, stride0 = 3, stride1 = 1\<rparr>, vocab_size = 3\<rparr>"

theorem sample_recovered_tokens_witness:
  "\<exists>out'. sample_recovered_tokens_kernel_impl (\<lambda>n. rev [0..n - 1]) True None demo_recover [-1] = Some out' \<and>
    is_best (rec_val demo_recover 0 0) 3 (at out' 0)"
proof -
  have nn: "f_nonneg 0x3e800000" "f_nonneg 0x3f000000" "f_nonneg 0x3f800000" "f_nonneg 0x40000000"
    by (simp_all add: f_nonneg_def f_sign_def f_exp_def)
  have v3: "v = 0 \<or> v = 1 \<or> v = 2" if "v \<in> {0..<3}" for v :: int using that by auto
  have ent: "recover_entry_ok demo_recover 0 0 v" if "v \<in> {0..<3}" for v
    using v3 [OF that] nn by (auto simp: recover_entry_ok_def demo_recover_def at_def)
  have "ends_ok [1] 1" "dstart [1] 0 = 0" by code_simp+
  moreover have "in_i64 (drafts [1] 0)" "at [1 :: int] 0 = 1" by code_simp+
  moreover have "{0..<1} = {0 :: int}" by auto
  ultimately have ok: "recover_ok demo_recover [-1]"
    using ent by (simp add: recover_ok_def demo_recover_def)
  have d: "demo_recover = demo_recover\<lparr>v_draft_probs := None\<rparr>" by (simp add: demo_recover_def)
  from sample_recovered_tokens [OF is_schedule_rev _ d ok, of True None] show ?thesis
    using \<open>dstart [1] 0 = 0\<close> \<open>at [1 :: int] 0 = 1\<close> by (auto simp: probs_ptr_def demo_recover_def)
qed

section \<open>Expanded inputs of the draft model\<close>

text \<open>The block of output tokens of request \<open>r\<close>: where it starts, how many valid tokens and how many
  tokens it has.\<close>

definition x_shift :: "expand_args \<Rightarrow> int" where
  "x_shift a = (if shift_input_ids a then 1 else 0)"

definition x_start :: "expand_args \<Rightarrow> int \<Rightarrow> int" where
  "x_start a r = at (x_query_start_loc a) r + r * (num_padding_slots_per_request a - x_shift a)"

definition x_valid :: "expand_args \<Rightarrow> int \<Rightarrow> int" where
  "x_valid a r = at (x_query_end_loc a) r - at (x_query_start_loc a) r + 1 - x_shift a"

definition x_total :: "expand_args \<Rightarrow> int \<Rightarrow> int" where
  "x_total a r = at (x_query_start_loc a) (r + 1) - at (x_query_start_loc a) r + num_padding_slots_per_request a - x_shift a"

text \<open>What the buffers are to hold for token \<open>j\<close> of the block of request \<open>r\<close>.\<close>

definition x_token :: "expand_args \<Rightarrow> int \<Rightarrow> int \<Rightarrow> int" where
  "x_token a r j =
     (if j < x_valid a r
      then at (target_token_ids a) (min (at (x_query_start_loc a) r + x_shift a + j) (total_input_tokens a - 1))
      else if j = x_valid a r then at (x_next_token_ids a) r
      else if j < x_valid a r + num_padding_slots_per_request a then x_parallel_drafting_token_id a
      else padding_token_id a)"

definition x_rejected :: "expand_args \<Rightarrow> int \<Rightarrow> int \<Rightarrow> bool" where
  "x_rejected a r j \<longleftrightarrow> x_valid a r + num_padding_slots_per_request a \<le> j"

definition x_value :: "expand_args \<Rightarrow> int \<Rightarrow> expand_buf \<Rightarrow> int \<Rightarrow> int" where
  "x_value a r k i =
     (let j = i - x_start a r in
      case k of
        Out_input_ids \<Rightarrow> x_token a r j
      | Out_positions \<Rightarrow> (if x_rejected a r j then 0 else at (target_positions a) (at (x_query_start_loc a) r) + j)
      | Out_is_rejected_token_mask \<Rightarrow> of_bool (x_rejected a r j)
      | Out_is_masked_token_mask \<Rightarrow> of_bool (x_valid a r < j \<and> \<not> x_rejected a r j)
      | Out_new_token_indices \<Rightarrow> i32 (x_start a r + x_valid a r + (i - r * num_padding_slots_per_request a))
      | Out_hidden_state_mapping \<Rightarrow> i32 (x_start a r + (i - at (x_query_start_loc a) r)))"

definition x_region :: "expand_args \<Rightarrow> int \<Rightarrow> expand_buf \<Rightarrow> int set" where
  "x_region a r k =
     (case k of
        Out_new_token_indices \<Rightarrow> {r * num_padding_slots_per_request a..<(r + 1) * num_padding_slots_per_request a}
      | Out_hidden_state_mapping \<Rightarrow> (if shift_input_ids a then segment (x_query_start_loc a) r else {})
      | _ \<Rightarrow> {x_start a r..<x_start a r + x_total a r})"

definition x_request_ok :: "expand_args \<Rightarrow> expand_buf store \<Rightarrow> int \<Rightarrow> bool" where
  "x_request_ok a s r \<longleftrightarrow>
     (let q = x_query_start_loc a; e = at (x_query_end_loc a) r; pads = num_padding_slots_per_request a in
      at q r \<le> e \<and> e < at q (r + 1) \<and> in_i32 (at q (r + 1)) \<and> at q r < int (length (target_positions a)) \<and>
      r < int (length (x_next_token_ids a)) \<and>
      (\<forall>k \<in> {Out_input_ids, Out_positions, Out_is_rejected_token_mask, Out_is_masked_token_mask}.
         x_start a r + x_total a r \<le> int (length (s k))) \<and>
      (r + 1) * pads \<le> int (length (s Out_new_token_indices)) \<and>
      in_i64 (at (target_positions a) (at q r)) \<and> in_i64 (at (target_positions a) (at q r) + x_total a r) \<and> in_i64 (x_total a r))"

definition expand_ok :: "expand_args \<Rightarrow> expand_buf store \<Rightarrow> bool" where
  "expand_ok a s \<longleftrightarrow>
     1 \<le> num_padding_slots_per_request a \<and> 0 < total_input_tokens a \<and>
     total_input_tokens a \<le> int (length (target_token_ids a)) \<and>
     offsets_ok (x_query_start_loc a) (int (length (x_query_end_loc a))) (int (length (s Out_hidden_state_mapping))) \<and>
     (\<forall>r \<in> {0..<int (length (x_query_end_loc a))}. x_request_ok a s r)"

subsection \<open>One token\<close>

definition x_token_region :: "expand_args \<Rightarrow> int \<Rightarrow> int \<Rightarrow> expand_buf \<Rightarrow> int set" where
  "x_token_region a r j k =
     (case k of
        Out_new_token_indices \<Rightarrow>
          (if x_valid a r \<le> j \<and> \<not> x_rejected a r j then {r * num_padding_slots_per_request a + (j - x_valid a r)} else {})
      | Out_hidden_state_mapping \<Rightarrow> {}
      | _ \<Rightarrow> {x_start a r + j})"

lemma x_start_nonneg:
  assumes "expand_ok a s" "0 \<le> r" "r < int (length (x_query_end_loc a))"
  shows "0 \<le> at (x_query_start_loc a) r" "0 \<le> x_start a r"
proof -
  have "offsets_ok (x_query_start_loc a) (int (length (x_query_end_loc a))) (int (length (s Out_hidden_state_mapping)))"
    "1 \<le> num_padding_slots_per_request a" using assms by (auto simp: expand_ok_def)
  with assms offsets_bounds show "0 \<le> at (x_query_start_loc a) r" "0 \<le> x_start a r"
    by (auto simp: x_start_def x_shift_def)
qed

lemma expand_token_correct:
  fixes s :: "expand_buf store"
  assumes ok: "expand_ok a s0" and r: "0 \<le> r" "r < int (length (x_query_end_loc a))"
    and len: "\<And>k. length (s k) = length (s0 k)" and j: "0 \<le> j" "j < x_total a r"
  shows "yields (expand_token a r (at (x_query_start_loc a) r) (x_valid a r) (x_start a r)
      (at (target_positions a) (at (x_query_start_loc a) r)) (at (x_next_token_ids a) r) j s)
    (writes s (x_token_region a r j) (x_value a r))"
proof -
  define q pads v st tp where "q = at (x_query_start_loc a) r" and "pads = num_padding_slots_per_request a" and "v = x_valid a r"
    and "st = x_start a r" and "tp = at (target_positions a) q"
  have pads: "1 \<le> pads" and tot: "0 < total_input_tokens a" "total_input_tokens a \<le> int (length (target_token_ids a))"
    and rq: "x_request_ok a s0 r" using ok r by (auto simp: expand_ok_def pads_def)
  note nn = x_start_nonneg [OF ok r, folded q_def st_def]
  have sizes: "st + x_total a r \<le> int (length (s k))"
    if "k \<in> {Out_input_ids, Out_positions, Out_is_rejected_token_mask, Out_is_masked_token_mask}" for k
    using rq that len [of k] by (auto simp: x_request_ok_def Let_def st_def)
  have new: "(r + 1) * pads \<le> int (length (s Out_new_token_indices))"
    using rq len [of Out_new_token_indices] by (auto simp: x_request_ok_def Let_def pads_def)
  have vpos: "0 \<le> v" using rq by (auto simp: x_request_ok_def Let_def v_def x_valid_def x_shift_def q_def)
  have i64: "in_i64 (tp + j)"
    using rq j by (auto simp: x_request_ok_def Let_def tp_def q_def in_i64_def)
  have inb: "in_bounds (s k) (st + j)"
    if "k \<in> {Out_input_ids, Out_positions, Out_is_rejected_token_mask, Out_is_masked_token_mask}" for k
    using sizes [OF that] nn j by auto
  have tok: "(if j < v then rd (target_token_ids a) (min (q + x_shift a + j) (total_input_tokens a - 1))
      else if j = v then Some (at (x_next_token_ids a) r)
      else if v < j \<and> j < v + pads then Some (x_parallel_drafting_token_id a) else Some (padding_token_id a)) = Some (x_token a r j)"
    using tot nn j by (auto simp: x_token_def v_def pads_def q_def x_shift_def rd_at)
  let ?s4 = "s(Out_input_ids := (s Out_input_ids)[nat (st + j) := x_token a r j],
      Out_positions := (s Out_positions)[nat (st + j) := (if v + pads \<le> j then 0 else tp + j)],
      Out_is_rejected_token_mask := (s Out_is_rejected_token_mask)[nat (st + j) := of_bool (v + pads \<le> j)],
      Out_is_masked_token_mask := (s Out_is_masked_token_mask)[nat (st + j) := of_bool (v < j \<and> j < v + pads)])"
  let ?n = "r * pads + (j - v)"
  have nb: "in_bounds (s Out_new_token_indices) ?n" if "v \<le> j" "j < v + pads"
    using row_index [of "j - v" pads r "int (length (s Out_new_token_indices))"] r new that by auto
  have run: "expand_token a r q v st tp (at (x_next_token_ids a) r) j s =
      Some (if v \<le> j \<and> j < v + pads then ?s4(Out_new_token_indices := (s Out_new_token_indices)[nat ?n := i32 (st + j)]) else ?s4)"
  proof -
    have pos: "(if v + pads \<le> j then Some 0 else ck64 (tp + j)) = Some (if v + pads \<le> j then 0 else tp + j)"
      using i64 by (simp add: ck64_def)
    have four: "in_bounds (s Out_input_ids) (st + j)" "in_bounds (s Out_positions) (st + j)"
      "in_bounds (s Out_is_rejected_token_mask) (st + j)" "in_bounds (s Out_is_masked_token_mask) (st + j)"
      by (rule inb, simp)+
    have mid: "(j = v \<or> v < j \<and> j < v + pads) \<longleftrightarrow> v \<le> j \<and> j < v + pads" using pads by auto
    show ?thesis
      unfolding expand_token_def Let_def x_shift_def [symmetric] pads_def [symmetric] tok pos bind.simps mid
      using four nb by (simp add: on_wr)
  qed
  have R: "x_token_region a r j Out_input_ids = {st + j}" "x_token_region a r j Out_positions = {st + j}"
    "x_token_region a r j Out_is_rejected_token_mask = {st + j}" "x_token_region a r j Out_is_masked_token_mask = {st + j}"
    "x_token_region a r j Out_new_token_indices = (if v \<le> j \<and> j < v + pads then {?n} else {})"
    "x_token_region a r j Out_hidden_state_mapping = {}"
    by (auto simp: x_token_region_def x_rejected_def st_def v_def pads_def)
  have V: "x_value a r Out_input_ids (st + j) = x_token a r j"
    "x_value a r Out_positions (st + j) = (if v + pads \<le> j then 0 else tp + j)"
    "x_value a r Out_is_rejected_token_mask (st + j) = of_bool (v + pads \<le> j)"
    "x_value a r Out_is_masked_token_mask (st + j) = of_bool (v < j \<and> j < v + pads)"
    "x_value a r Out_new_token_indices ?n = i32 (st + j)"
    by (simp_all add: x_value_def x_rejected_def st_def v_def pads_def tp_def q_def not_le)
  show ?thesis unfolding run q_def [symmetric] v_def [symmetric] st_def [symmetric] tp_def [symmetric] yields_Some
  proof (rule writesI)
    fix k i assume i: "in_bounds (s k) i"
    show "at ((if v \<le> j \<and> j < v + pads then ?s4(Out_new_token_indices := (s Out_new_token_indices)[nat ?n := i32 (st + j)]) else ?s4) k) i =
        (if i \<in> x_token_region a r j k then x_value a r k i else at (s k) i)"
      using i inb [of k] nb by (cases k) (simp_all add: R V at_upd)
  qed auto
qed

subsection \<open>One request\<close>

lemma expand_tokens:
  fixes s :: "expand_buf store"
  assumes ok: "expand_ok a s0" and r: "0 \<le> r" "r < int (length (x_query_end_loc a))"
    and len: "\<And>k. length (s k) = length (s0 k)"
  shows "yields (for_range 0 (x_total a r) (expand_token a r (at (x_query_start_loc a) r) (x_valid a r) (x_start a r)
      (at (target_positions a) (at (x_query_start_loc a) r)) (at (x_next_token_ids a) r)) s)
    (writes s (\<lambda>k. if k = Out_hidden_state_mapping then {} else x_region a r k) (x_value a r))"
proof -
  let ?pads = "num_padding_slots_per_request a"
  have rq: "x_request_ok a s0 r" using ok r by (auto simp: expand_ok_def)
  have v: "0 \<le> x_valid a r" "x_valid a r + ?pads \<le> x_total a r"
    using rq by (auto simp: x_request_ok_def Let_def x_valid_def x_total_def x_shift_def)
  have reg: "(\<exists>j. 0 \<le> j \<and> j < x_total a r \<and> i \<in> x_token_region a r j k) \<longleftrightarrow>
      k \<noteq> Out_hidden_state_mapping \<and> i \<in> x_region a r k" for i k
  proof (cases k)
    case Out_new_token_indices
    have "(\<exists>j. 0 \<le> j \<and> j < x_total a r \<and> i \<in> x_token_region a r j k) \<longleftrightarrow>
        (\<exists>j. x_valid a r \<le> j \<and> j < x_valid a r + ?pads \<and> i = r * ?pads + (j - x_valid a r))"
      using v Out_new_token_indices by (auto simp: x_token_region_def x_rejected_def not_le)
    also have "\<dots> \<longleftrightarrow> r * ?pads \<le> i \<and> i < r * ?pads + ?pads"
      by (auto intro: exI [of _ "i - r * ?pads + x_valid a r"])
    finally show ?thesis using Out_new_token_indices by (auto simp: x_region_def algebra_simps)
  qed (auto simp: x_token_region_def x_region_def intro: exI [of _ "i - x_start a r"])
  show ?thesis unfolding for_range_def
  proof (rule yields_for_each_store [where R = "x_token_region a r" and V = "\<lambda>_. x_value a r"], goal_cases)
    case (1 j s1) then show ?case using len by (intro expand_token_correct [OF ok r]) auto
  next
    case (2 i j k) then show ?case by (cases k) (auto simp: x_token_region_def)
  next
    case (4 s1)
    show ?case
    proof (rule writesI)
      fix k i assume i: "in_bounds (s k) i"
      show "at (s1 k) i = (if i \<in> (if k = Out_hidden_state_mapping then {} else x_region a r k) then x_value a r k i else at (s k) i)"
        using 4(2) [of _ i k] 4(3) [of i k] i reg [of i k] by (cases "k = Out_hidden_state_mapping") (auto; metis)+
    qed (use 4(1) in auto)
  qed auto
qed

lemma expand_request_correct:
  fixes s :: "expand_buf store"
  assumes ok: "expand_ok a s0" and r: "0 \<le> r" "r < int (length (x_query_end_loc a))"
    and len: "\<And>k. length (s k) = length (s0 k)"
  shows "yields (expand_request a r s) (writes s (x_region a r) (x_value a r))"
proof -
  define q e q' where "q = at (x_query_start_loc a) r" and "e = at (x_query_end_loc a) r" and "q' = at (x_query_start_loc a) (r + 1)"
  let ?pads = "num_padding_slots_per_request a"
  have off: "offsets_ok (x_query_start_loc a) (int (length (x_query_end_loc a))) (int (length (s Out_hidden_state_mapping)))"
    and rq: "x_request_ok a s0 r" using ok r len [of Out_hidden_state_mapping] by (auto simp: expand_ok_def)
  have qb: "in_bounds (x_query_start_loc a) r" "in_bounds (x_query_start_loc a) (r + 1)" "0 \<le> q" "q' \<le> int (length (s Out_hidden_state_mapping))"
    using offsets_bounds [OF off, of r] offsets_bounds [OF off, of "r + 1"] r by (auto simp: q_def q'_def)
  have rq': "q \<le> e" "e < q'" "in_i32 q'" "q < int (length (target_positions a))" "r < int (length (x_next_token_ids a))" "in_i64 (x_total a r)"
    using rq by (auto simp: x_request_ok_def Let_def q_def e_def q'_def)
  have i32: "in_i32 (e - q)" "in_i32 (e - q + 1)" "in_i32 (q' - e)" "in_i32 (q' - e - 1)" "in_i32 (q' - q)"
    using in_i32_between [OF _ _ rq'(3)] rq'(1,2) qb(3) by auto
  have nv: "(if shift_input_ids a then Some (e - q) else ck32 (e - q + 1)) = Some (x_valid a r)"
    using i32 by (auto simp: x_valid_def x_shift_def ck32_def e_def q_def)
  have tot: "x_valid a r + ?pads + (q' - e - 1) = x_total a r"
    by (simp add: x_valid_def x_total_def q_def e_def q'_def)
  have st: "q + r * (?pads - (if shift_input_ids a then 1 else 0)) = x_start a r" by (simp add: x_start_def x_shift_def q_def)
  have run: "expand_request a r s = do {
      s1 \<leftarrow> for_range 0 (x_total a r) (expand_token a r q (x_valid a r) (x_start a r) (at (target_positions a) q) (at (x_next_token_ids a) r)) s;
      if shift_input_ids a then
        on s1 Out_hidden_state_mapping (for_range 0 (q' - q) (\<lambda>j b. wr b (q + j) (i32 (x_start a r + j))))
      else Some s1 }"
    using r qb rq' i32 nv tot st
    by (cases "shift_input_ids a")
      (simp_all add: expand_request_def Let_def rd_at ck32_def ck64_def e_def [symmetric] q_def [symmetric] q'_def [symmetric])
  have hid: "yields (for_range 0 (q' - q) (\<lambda>j b. wr b (q + j) (i32 (x_start a r + j))) h)
      (\<lambda>h'. length h' = length h \<and> (\<forall>i. in_bounds h i \<longrightarrow> at h' i = (if q \<le> i \<and> i < q' then i32 (x_start a r + (i - q)) else at h i)))"
    if "length h = length (s Out_hidden_state_mapping)" for h
  proof (rule yields_for_range_flat [where R = "\<lambda>j. {q + j}" and V = "\<lambda>j _. i32 (x_start a r + j)"], goal_cases)
    case (1 j b) then show ?case using qb rq' that by (auto intro!: yields_wr simp: at_upd)
  next
    case (3 b)
    have "at b i = i32 (x_start a r + (i - q))" if "in_bounds h i" "q \<le> i" "i < q'" for i
      using 3(2) [of "i - q" i] that by simp
    moreover have "at b i = at h i" if "in_bounds h i" "\<not> (q \<le> i \<and> i < q')" for i
      using 3(3) [of i] that by auto
    ultimately show ?case using 3(1) by simp
  qed auto
  show ?thesis unfolding run
  proof (rule yields_bindI [OF expand_tokens [OF ok r len, folded q_def]])
    fix s1 assume w: "writes s (\<lambda>k. if k = Out_hidden_state_mapping then {} else x_region a r k) (x_value a r) s1"
    show "yields (if shift_input_ids a then
        on s1 Out_hidden_state_mapping (for_range 0 (q' - q) (\<lambda>j b. wr b (q + j) (i32 (x_start a r + j)))) else Some s1)
      (writes s (x_region a r) (x_value a r))"
    proof (cases "shift_input_ids a")
      case False
      have "writes s (x_region a r) (x_value a r) s1"
        by (rule writesI) (use False w in \<open>auto simp: writes_at [OF w] x_region_def\<close>)
      then show ?thesis using False by simp
    next
      case True
      have l: "length (s1 Out_hidden_state_mapping) = length (s Out_hidden_state_mapping)" using w by simp
      have old: "at (s1 Out_hidden_state_mapping) i = at (s Out_hidden_state_mapping) i" if "in_bounds (s Out_hidden_state_mapping) i" for i
        using writes_at [OF w that] by simp
      show ?thesis unfolding if_P [OF True]
      proof (rule yields_on, rule yields_mono [OF hid [OF l]], elim conjE, rule writesI)
        fix h k i assume h: "length h = length (s1 Out_hidden_state_mapping)"
          "\<forall>i. in_bounds (s1 Out_hidden_state_mapping) i \<longrightarrow> at h i =
             (if q \<le> i \<and> i < q' then i32 (x_start a r + (i - q)) else at (s1 Out_hidden_state_mapping) i)"
          and i: "in_bounds (s k) i"
        show "at ((s1(Out_hidden_state_mapping := h)) k) i = (if i \<in> x_region a r k then x_value a r k i else at (s k) i)"
        proof (cases "k = Out_hidden_state_mapping")
          case True
          then show ?thesis using h i l old \<open>shift_input_ids a\<close> by (auto simp: x_region_def x_value_def segment_def q_def q'_def)
        next
          case False then show ?thesis using writes_at [OF w i] by simp
        qed
      qed (use w l in auto)
    qed
  qed
qed

subsection \<open>The whole batch\<close>

text \<open>The blocks of the requests tile the output without a gap.\<close>

lemma x_blocks_tile: "x_start a (r + 1) = x_start a r + x_total a r"
  by (simp add: x_start_def x_total_def algebra_simps)

lemma x_start_mono:
  assumes ok: "expand_ok a s" and "0 \<le> i" "i \<le> j" "j \<le> int (length (x_query_end_loc a))"
  shows "x_start a i \<le> x_start a j"
proof -
  have off: "offsets_ok (x_query_start_loc a) (int (length (x_query_end_loc a))) (int (length (s Out_hidden_state_mapping)))"
    and p: "0 \<le> num_padding_slots_per_request a - x_shift a" using ok by (auto simp: expand_ok_def x_shift_def)
  have "at (x_query_start_loc a) i \<le> at (x_query_start_loc a) j" using offsets_mono [OF off] assms by simp
  moreover have "i * (num_padding_slots_per_request a - x_shift a) \<le> j * (num_padding_slots_per_request a - x_shift a)"
    using p assms by (intro mult_right_mono) auto
  ultimately show ?thesis by (simp add: x_start_def)
qed

lemma x_regions_disjoint:
  assumes ok: "expand_ok a s" and i: "0 \<le> i" "i < int (length (x_query_end_loc a))"
    and j: "0 \<le> j" "j < int (length (x_query_end_loc a))" and ne: "i \<noteq> j"
  shows "x_region a i k \<inter> x_region a j k = {}"
proof -
  have off: "offsets_ok (x_query_start_loc a) (int (length (x_query_end_loc a))) (int (length (s Out_hidden_state_mapping)))"
    using ok by (auto simp: expand_ok_def)
  have "x_start a (i + 1) \<le> x_start a j \<or> x_start a (j + 1) \<le> x_start a i"
    using x_start_mono [OF ok, of "i + 1" j] x_start_mono [OF ok, of "j + 1" i] i j ne by (cases "i < j") auto
  then have "{x_start a i..<x_start a i + x_total a i} \<inter> {x_start a j..<x_start a j + x_total a j} = {}"
    unfolding x_blocks_tile by auto
  moreover note rows_disjoint [OF ne order_refl order_refl, of "num_padding_slots_per_request a"]
    segments_disjoint [OF off i j ne]
  ultimately show ?thesis by (cases k) (simp_all add: x_region_def distrib_right)
qed

text \<open>C32. Under every schedule, expanding the inputs of the draft model gives each request a block of the
  output, behind the block of the request before: its valid tokens with ascending positions, the
  bonus token, the parallel drafting tokens (which the mask marks), and the rejected slots (which
  the other mask marks, at position 0); the new token indices of the request name the bonus and the
  parallel tokens, and with shifted inputs the hidden state mapping maps its tokens into the block.\<close>

theorem copy_and_expand_eagle_inputs:
  assumes "is_schedule order" and ok: "expand_ok a s0"
  shows "\<exists>s. copy_and_expand_eagle_inputs_kernel_impl order a s0 = Some s \<and>
    (\<forall>k. length (s k) = length (s0 k)) \<and>
    (\<forall>r k i. 0 \<le> r \<longrightarrow> r < int (length (x_query_end_loc a)) \<longrightarrow> i \<in> x_region a r k \<longrightarrow> at (s k) i = x_value a r k i)"
proof -
  let ?n = "int (length (x_query_end_loc a))"
  have off: "offsets_ok (x_query_start_loc a) ?n (int (length (s0 Out_hidden_state_mapping)))"
    using ok by (auto simp: expand_ok_def)
  have inb: "in_bounds (s0 k) i" if r: "0 \<le> r" "r < ?n" and i: "i \<in> x_region a r k" for r k i
  proof -
    have rq: "x_request_ok a s0 r" and p: "1 \<le> num_padding_slots_per_request a" using ok r by (auto simp: expand_ok_def)
    have "0 \<le> r * num_padding_slots_per_request a" using r p by simp
    then show ?thesis
      using i rq x_start_nonneg [OF ok r] in_segment [OF off r, of i]
      by (cases k) (auto simp: x_region_def x_request_ok_def Let_def split: if_splits)
  qed
  have "yields (omp_for order ?n (expand_request a) s0) (\<lambda>s. (\<forall>k. length (s k) = length (s0 k)) \<and>
    (\<forall>r k i. 0 \<le> r \<longrightarrow> r < ?n \<longrightarrow> i \<in> x_region a r k \<longrightarrow> at (s k) i = x_value a r k i))"
  proof (rule yields_omp_store [OF assms(1), where R = "x_region a" and V = "x_value a"], goal_cases)
    case (1 r s) then show ?case by (intro expand_request_correct [OF ok])
  next
    case (2 i j k) then show ?case by (intro x_regions_disjoint [OF ok])
  next
    case (3 s)
    have "at (s k) i = x_value a r k i" if "0 \<le> r" "r < ?n" "i \<in> x_region a r k" for r k i
      using 3(2) [OF that(1,2)] inb [OF that] that(3) by blast
    then show ?case using 3(1) by blast
  qed
  then show ?thesis
    unfolding copy_and_expand_eagle_inputs_kernel_impl_def by (rule yieldsD)
qed

definition demo_expand :: expand_args where
  "demo_expand = \<lparr>target_token_ids = [10, 11, 12, 13], target_positions = [5, 6, 7, 8], x_next_token_ids = [70, 71],
     x_query_start_loc = [0, 3, 4], x_query_end_loc = [1, 3], padding_token_id = 0, x_parallel_drafting_token_id = 99,
     total_input_tokens = 4, num_padding_slots_per_request = 2, shift_input_ids = True\<rparr>"

theorem copy_and_expand_eagle_inputs_witness:
  "\<exists>s. copy_and_expand_eagle_inputs_kernel_impl (\<lambda>n. rev [0..n - 1]) demo_expand (\<lambda>_. [-1, -1, -1, -1, -1, -1]) = Some s \<and>
    at (s Out_input_ids) 0 = 11 \<and> at (s Out_input_ids) 1 = 70 \<and> at (s Out_input_ids) 2 = 99 \<and> at (s Out_input_ids) 4 = 71 \<and>
    at (s Out_is_rejected_token_mask) 3 = 1 \<and> at (s Out_new_token_indices) 2 = 4"
proof -
  let ?s0 = "\<lambda>_ :: expand_buf. [-1, -1, -1, -1, -1, -1] :: int list"
  have ok: "expand_ok demo_expand ?s0" by code_simp
  have n: "int (length (x_query_end_loc demo_expand)) = 2" by (simp add: demo_expand_def)
  obtain s where run: "copy_and_expand_eagle_inputs_kernel_impl (\<lambda>n. rev [0..n - 1]) demo_expand ?s0 = Some s"
    and v: "\<And>r k i. 0 \<le> r \<Longrightarrow> r < 2 \<Longrightarrow> i \<in> x_region demo_expand r k \<Longrightarrow> at (s k) i = x_value demo_expand r k i"
    using copy_and_expand_eagle_inputs [OF is_schedule_rev ok] unfolding n by blast
  have "0 \<in> x_region demo_expand 0 Out_input_ids" "1 \<in> x_region demo_expand 0 Out_input_ids"
    "2 \<in> x_region demo_expand 0 Out_input_ids" "4 \<in> x_region demo_expand 1 Out_input_ids"
    "3 \<in> x_region demo_expand 0 Out_is_rejected_token_mask" "2 \<in> x_region demo_expand 1 Out_new_token_indices" by code_simp+
  moreover have "x_value demo_expand 0 Out_input_ids 0 = 11" "x_value demo_expand 0 Out_input_ids 1 = 70"
    "x_value demo_expand 0 Out_input_ids 2 = 99" "x_value demo_expand 1 Out_input_ids 4 = 71"
    "x_value demo_expand 0 Out_is_rejected_token_mask 3 = 1" "x_value demo_expand 1 Out_new_token_indices 2 = 4" by code_simp+
  ultimately show ?thesis
    using run v [of 0 0 Out_input_ids] v [of 0 1 Out_input_ids] v [of 0 2 Out_input_ids] v [of 1 4 Out_input_ids]
      v [of 0 3 Out_is_rejected_token_mask] v [of 1 2 Out_new_token_indices] by simp
qed

end
