(* ===== verification/Spec_Steps.thy ===== *)
theory Spec_Steps
  imports Spec_Inputs
begin

text \<open>
  What the bookkeeping kernels of \<open>src/csrc/cpu/spec_decode_utils.cpp\<close> compute, for every schedule: rejected
  token counts and sampling indices, the next tokens, the metadata of a draft step, and the
  expansion of one value per request to its tokens.  The kernels are defined in \<open>Spec_Decode\<close>.
\<close>

section \<open>Rejected tokens and the index to sample\<close>

definition rejected_of :: "int list \<Rightarrow> int list \<Rightarrow> int \<Rightarrow> int" where
  "rejected_of cu valid r = (if 0 < drafts cu r then drafts cu r + 1 - at valid r else 0)"

definition eagle_entry_ok :: "int list \<Rightarrow> int list \<Rightarrow> int list \<Rightarrow> int \<Rightarrow> bool" where
  "eagle_entry_ok cu valid q r \<longleftrightarrow>
     in_bounds cu r \<and> in_bounds valid r \<and> in_bounds q (r + 1) \<and> in_i64 (drafts cu r) \<and> in_i64 (drafts cu r + 1) \<and>
     in_i64 (drafts cu r + 1 - at valid r) \<and> in_i32 (at q (r + 1) - 1) \<and> in_i64 (at q (r + 1) - 1 - rejected_of cu valid r)"

lemma eagle_prepare_inputs_correct:
  assumes "is_schedule order"
    and ok: "\<And>r. 0 \<le> r \<Longrightarrow> r < n \<Longrightarrow> eagle_entry_ok cu valid q r \<and> r < int (length idx) \<and> r < int (length rej)"
  shows "yields (eagle_prepare_inputs_padded_kernel_impl order cu valid q idx rej n) (\<lambda>s.
    \<forall>r. 0 \<le> r \<longrightarrow> r < n \<longrightarrow> at (s Num_rejected_tokens) r = rejected_of cu valid r \<and>
      at (s Token_indices_to_sample) r = i32 (at q (r + 1) - 1 - rejected_of cu valid r))"
  unfolding eagle_prepare_inputs_padded_kernel_impl_def
proof (rule yields_omp_store [OF assms(1), where R = "\<lambda>r _. {r}" and
      V = "\<lambda>r k _. case_eagle_buf (i32 (at q (r + 1) - 1 - rejected_of cu valid r)) (rejected_of cu valid r) k"], goal_cases)
  case (1 r s)
  have e: "eagle_entry_ok cu valid q r" "r < int (length idx)" "r < int (length rej)" using ok [OF 1(1,2)] by auto
  have rejv: "(if 0 < drafts cu r then do { m \<leftarrow> ck64 (drafts cu r + 1); ck64 (m - at valid r) } else Some 0) = Some (rejected_of cu valid r)"
    using e(1) by (auto simp: eagle_entry_ok_def rejected_of_def ck64_def)
  have "eagle_inputs_request cu valid q r s = Some (s(
      Token_indices_to_sample := (s Token_indices_to_sample)[nat r := i32 (at q (r + 1) - 1 - rejected_of cu valid r)],
      Num_rejected_tokens := (s Num_rejected_tokens)[nat r := rejected_of cu valid r]))"
    using e rejv 1(1) 1(3) [of Token_indices_to_sample] 1(3) [of Num_rejected_tokens]
    by (simp add: eagle_inputs_request_def eagle_entry_ok_def draft_start_dstart rd_at ck64_def ck32_def drafts_def [symmetric] on_wr)
  then show ?case
    using 1(1,2) by (auto intro!: writesI simp: at_upd split: eagle_buf.splits if_splits)
next
  case (3 s)
  have "at (s k) r = case_eagle_buf (i32 (at q (r + 1) - 1 - rejected_of cu valid r)) (rejected_of cu valid r) k"
    if "0 \<le> r" "r < n" for r k
    using 3(2) [of r r k] ok [OF that] that by (cases k) auto
  then show ?case by simp
qed auto

section \<open>Next tokens\<close>

definition sampled_row :: "int tensor2 \<Rightarrow> int \<Rightarrow> int \<Rightarrow> int list" where
  "sampled_row ids n r = map (\<lambda>p. at (dat ids) (r * stride0 ids + p)) [0..n - 1]"

definition valid_tokens :: "int tensor2 \<Rightarrow> int \<Rightarrow> int \<Rightarrow> int \<Rightarrow> int list" where
  "valid_tokens ids vocab n r = filter (\<lambda>t. t \<noteq> -1 \<and> t < vocab) (sampled_row ids n r)"

lemma count_valid_correct:
  assumes "\<And>p. 0 \<le> p \<Longrightarrow> p < n \<Longrightarrow> in_bounds (dat ids) (r * stride0 ids + p)" "0 \<le> n"
  shows "count_valid (dat ids) (r * stride0 ids) vocab n =
    Some (int (length (valid_tokens ids vocab n r)), if valid_tokens ids vocab n r = [] then -1 else last (valid_tokens ids vocab n r))"
proof -
  have "yields (count_valid (dat ids) (r * stride0 ids) vocab n) (\<lambda>x. x =
      (int (length (valid_tokens ids vocab n r)), if valid_tokens ids vocab n r = [] then -1 else last (valid_tokens ids vocab n r)))"
    unfolding count_valid_def
  proof (rule yields_for_range [where P = "\<lambda>n x. x =
      (int (length (valid_tokens ids vocab n r)), if valid_tokens ids vocab n r = [] then -1 else last (valid_tokens ids vocab n r))"], goal_cases)
    case (3 p x)
    have "[0..p] = [0..p - 1] @ [p]" using 3(1) by (simp add: upto_rec2)
    then show ?case using 3 assms(1) [of p] by (auto simp: rd_at valid_tokens_def sampled_row_def)
  qed (use assms(2) in \<open>auto simp: valid_tokens_def sampled_row_def\<close>)
  then show ?thesis by (auto dest: yieldsD)
qed

lemma eagle_prepare_next_token_correct:
  assumes "is_schedule order" "0 \<le> m"
    and ok: "\<And>r. 0 \<le> r \<Longrightarrow> r < n \<Longrightarrow> in_bounds discard r \<and> in_bounds backup r \<and> r < int (length nxt) \<and> r < int (length cnt) \<and>
      (\<forall>p \<in> {0..<m}. in_bounds (dat ids) (r * stride0 ids + p))"
  shows "yields (eagle_prepare_next_token_padded_kernel_impl order ids discard backup nxt cnt vocab m n) (\<lambda>s.
    \<forall>r. 0 \<le> r \<longrightarrow> r < n \<longrightarrow>
      at (s Next_token_ids) r = (if at discard r \<or> valid_tokens ids vocab m r = [] then at backup r else last (valid_tokens ids vocab m r)) \<and>
      at (s Valid_sampled_tokens_count) r = (if at discard r then 0 else int (length (valid_tokens ids vocab m r))))"
  unfolding eagle_prepare_next_token_padded_kernel_impl_def
proof (rule yields_omp_store [OF assms(1), where R = "\<lambda>r _. {r}" and V = "\<lambda>r k _. case_next_buf
      (if at discard r \<or> valid_tokens ids vocab m r = [] then at backup r else last (valid_tokens ids vocab m r))
      (if at discard r then 0 else int (length (valid_tokens ids vocab m r))) k"], goal_cases)
  case (1 r s)
  have e: "in_bounds discard r" "in_bounds backup r" "r < int (length nxt)" "r < int (length cnt)" using ok [OF 1(1,2)] by auto
  have c: "count_valid (dat ids) (r * stride0 ids) vocab m = Some (int (length (valid_tokens ids vocab m r)),
      if valid_tokens ids vocab m r = [] then -1 else last (valid_tokens ids vocab m r))"
    using ok [OF 1(1,2)] assms(2) by (intro count_valid_correct) auto
  have "next_token_request ids discard backup vocab m r s = Some (s(
      Next_token_ids := (s Next_token_ids)[nat r := (if at discard r \<or> valid_tokens ids vocab m r = [] then at backup r else last (valid_tokens ids vocab m r))],
      Valid_sampled_tokens_count := (s Valid_sampled_tokens_count)[nat r := (if at discard r then 0 else int (length (valid_tokens ids vocab m r)))]))"
    using e 1(1) 1(3) [of Next_token_ids] 1(3) [of Valid_sampled_tokens_count]
    by (simp add: next_token_request_def c rd_at on_wr)
  then show ?case
    using 1(1,2) by (auto intro!: writesI simp: at_upd split: next_buf.splits if_splits)
next
  case (3 s)
  have "at (s k) r = case_next_buf
      (if at discard r \<or> valid_tokens ids vocab m r = [] then at backup r else last (valid_tokens ids vocab m r))
      (if at discard r then 0 else int (length (valid_tokens ids vocab m r))) k" if "0 \<le> r" "r < n" for r k
    using 3(2) [of r r k] ok [OF that] that by (cases k) auto
  then show ?case by simp
qed auto

section \<open>One value per request\<close>

lemma expand_kernel_correct:
  assumes "is_schedule order" and e: "ends_ok cu (int (length out))" and "length cu \<le> length input"
  shows "yields (expand_kernel_impl order out input cu from to) (\<lambda>out'. length out' = length out \<and>
    (\<forall>r i. 0 \<le> r \<longrightarrow> r < int (length cu) \<longrightarrow> dstart cu r \<le> i \<longrightarrow> i < at cu r \<longrightarrow>
       at out' i = (if at input r = from then to else at input r)))"
  unfolding expand_kernel_impl_def
proof (rule yields_omp_flat [OF assms(1), where R = "\<lambda>r. {dstart cu r..<at cu r}" and
      V = "\<lambda>r _. if at input r = from then to else at input r"], goal_cases)
  case (1 r x)
  note b = ends_bounds [OF e 1(1,2)]
  have fill: "yields (for_range (dstart cu r) (at cu r) (\<lambda>i out. wr out i v) x) (\<lambda>y. length y = length x \<and>
      (\<forall>j. in_bounds x j \<longrightarrow> at y j = (if j \<in> {dstart cu r..<at cu r} then v else at x j)))" for v
    by (rule yields_for_range_flat [where R = "\<lambda>i. {i}" and V = "\<lambda>_ _. v"])
      (use b 1(3) in \<open>auto intro!: yields_wr simp: at_upd\<close>)
  show ?case
    using 1 assms(3) fill by (simp add: draft_start_dstart rd_at)
next
  case (3 x)
  have "at x i = (if at input r = from then to else at input r)"
    if "0 \<le> r" "r < int (length cu)" "dstart cu r \<le> i" "i < at cu r" for r i
    using 3(2) [of r i] ends_bounds [OF e that(1,2)] that by simp
  then show ?case using 3(1) by blast
qed (use ends_disjoint [OF e] in auto)

section \<open>Metadata of a draft step\<close>

definition clamped_slot_value :: "int list \<Rightarrow> int \<Rightarrow> int \<Rightarrow> int \<Rightarrow> int \<Rightarrow> int" where
  "clamped_slot_value bt row limit bs p = at bt (row + min (p div bs) (limit - 1)) * bs + p mod bs"

definition clamped_ok :: "int list \<Rightarrow> int \<Rightarrow> int \<Rightarrow> int \<Rightarrow> int \<Rightarrow> bool" where
  "clamped_ok bt row limit bs p \<longleftrightarrow>
     (let i = row + min (p div bs) (limit - 1) in
      0 < bs \<and> 0 \<le> p \<and> in_i64 p \<and> in_bounds bt i \<and> 0 \<le> at bt i \<and> in_i64 ((at bt i + 1) * bs))"

lemma clamped_slot_correct:
  assumes "clamped_ok bt row limit bs p"
  shows "clamped_slot bt row limit bs p = Some (clamped_slot_value bt row limit bs p)"
proof -
  define b where "b = at bt (row + min (p div bs) (limit - 1))"
  have c: "0 < bs" "0 \<le> p" "in_i64 p" "in_bounds bt (row + min (p div bs) (limit - 1))" "0 \<le> b" "in_i64 ((b + 1) * bs)"
    using assms by (auto simp: clamped_ok_def Let_def b_def)
  have top: "b * bs + bs = (b + 1) * bs" and nn: "0 \<le> b * bs" and m: "0 \<le> p mod bs" "p mod bs < bs"
    using c by (auto simp: algebra_simps)
  have "in_i64 (b * bs)" "in_i64 (b * bs + p mod bs)"
    using in_i64_between [OF _ _ c(6), of "b * bs"] in_i64_between [OF _ _ c(6), of "b * bs + p mod bs"] nn m top by linarith+
  then show ?thesis
    using c by (simp add: clamped_slot_def sdiv_nonneg smod_nonneg rd_at ck64_def b_def [symmetric] clamped_slot_value_def)
qed

definition step_position :: "int list \<Rightarrow> int \<Rightarrow> int \<Rightarrow> int" where
  "step_position positions limit r = (if limit \<le> at positions r + 1 then 0 else at positions r + 1)"

text \<open>What a draft step is to leave: the next position (0 at the model limit), its slot (the padding slot at
  the limit and behind the batch) and the sequence length, one more or 1, capped at the limit.\<close>

definition step_value :: "int list \<Rightarrow> int tensor2 \<Rightarrow> int list \<Rightarrow> int \<Rightarrow> int \<Rightarrow> int \<Rightarrow> int \<Rightarrow> step_buf \<Rightarrow> int" where
  "step_value positions bt seq_lens bs limit pad r k =
     (let over = limit \<le> at positions r + 1 in
      case k of
        Step_seq_lens \<Rightarrow> min (if over then 1 else at seq_lens r + 1) (i32 limit)
      | Out_clamped_positions \<Rightarrow> step_position positions limit r
      | Out_slot_mapping \<Rightarrow>
          (if int (length positions) \<le> r \<or> over then pad
           else clamped_slot_value (dat bt) (r * stride0 bt) (size1 bt) bs (step_position positions limit r)))"

definition step_ok :: "int list \<Rightarrow> int tensor2 \<Rightarrow> int list \<Rightarrow> int list \<Rightarrow> int \<Rightarrow> int \<Rightarrow> int \<Rightarrow> bool" where
  "step_ok positions bt seq_lens clamped bs limit r \<longleftrightarrow>
     in_i64 (at positions r + 1) \<and> r < int (length clamped) \<and> r < int (length seq_lens) \<and> in_i32 (at seq_lens r + 1) \<and>
     clamped_ok (dat bt) (r * stride0 bt) (size1 bt) bs (step_position positions limit r)"

lemma eagle_step_request_correct:
  assumes r: "0 \<le> r" "r < int (length slots)"
    and ok: "r < int (length positions) \<Longrightarrow> step_ok positions bt seq_lens clamped bs limit r"
    and len: "\<And>k. length (s k) = length (case_step_buf seq_lens clamped slots k)"
    and old: "at (s Step_seq_lens) r = at seq_lens r \<or> int (length positions) \<le> r"
  shows "yields (eagle_step_request positions bt bs limit pad r s)
    (writes s (\<lambda>k. if r < int (length positions) \<or> k = Out_slot_mapping then {r} else {})
      (\<lambda>k _. step_value positions bt seq_lens bs limit pad r k))"
proof (cases "r < int (length positions)")
  case False
  then show ?thesis
    using yields_on_wr [where s = s and k = Out_slot_mapping and i = r and v = pad and
        V = "\<lambda>k _. step_value positions bt seq_lens bs limit pad r k"] r len [of Out_slot_mapping]
    by (simp add: eagle_step_request_def step_value_def [of _ _ _ _ _ _ _ Out_slot_mapping])
next
  case True
  let ?over = "limit \<le> at positions r + 1" and ?V = "\<lambda>k _. step_value positions bt seq_lens bs limit pad r k"
  have o: "in_i64 (at positions r + 1)" "r < int (length clamped)" "r < int (length seq_lens)" "in_i32 (at seq_lens r + 1)"
    and sl: "clamped_slot (dat bt) (r * stride0 bt) (size1 bt) bs (step_position positions limit r) =
      Some (clamped_slot_value (dat bt) (r * stride0 bt) (size1 bt) bs (step_position positions limit r))"
    using ok [OF True] clamped_slot_correct by (auto simp: step_ok_def)
  define s2 where "s2 = s(Out_clamped_positions := (s Out_clamped_positions)[nat r := step_position positions limit r],
      Out_slot_mapping := (s Out_slot_mapping)[nat r := ?V Out_slot_mapping ()])"
  have "eagle_step_request positions bt bs limit pad r s =
      Some (s2(Step_seq_lens := (s Step_seq_lens)[nat r := ?V Step_seq_lens ()]))"
    using True r o sl old len [of Step_seq_lens] len [of Out_clamped_positions] len [of Out_slot_mapping]
    by (simp add: eagle_step_request_def rd_at ck64_def ck32_def on_wr step_position_def [symmetric] s2_def step_value_def Let_def)
  then show ?thesis
    using True r o len [of Step_seq_lens] len [of Out_clamped_positions] len [of Out_slot_mapping]
    by (auto intro!: writesI simp: s2_def at_upd step_value_def Let_def split: step_buf.splits)
qed

lemma eagle_step_correct:
  assumes "is_schedule order"
    and ok: "\<And>r. 0 \<le> r \<Longrightarrow> r < int (length positions) \<Longrightarrow> step_ok positions bt seq_lens clamped bs limit r"
    and "length positions \<le> length slots"
  shows "yields (eagle_step_slot_mapping_metadata_kernel_impl order positions bt seq_lens clamped slots bs limit pad) (\<lambda>s.
    (\<forall>r k. 0 \<le> r \<longrightarrow> r < int (length positions) \<longrightarrow> at (s k) r = step_value positions bt seq_lens bs limit pad r k) \<and>
    (\<forall>r. int (length positions) \<le> r \<longrightarrow> r < int (length slots) \<longrightarrow> at (s Out_slot_mapping) r = pad))"
  unfolding eagle_step_slot_mapping_metadata_kernel_impl_def
proof (rule yields_omp_store [OF assms(1), where
      R = "\<lambda>r k. if r < int (length positions) \<or> k = Out_slot_mapping then {r} else {}" and
      V = "\<lambda>r k _. step_value positions bt seq_lens bs limit pad r k"], goal_cases)
  case (1 r s)
  have "at (s Step_seq_lens) r = at seq_lens r \<or> int (length positions) \<le> r"
    using 1(4) [of r Step_seq_lens] ok [of r] 1(1) by (auto simp: step_ok_def)
  then show ?case using 1 ok by (intro eagle_step_request_correct) auto
next
  case (3 s)
  have "at (s k) r = step_value positions bt seq_lens bs limit pad r k" if "0 \<le> r" "r < int (length positions)" for r k
    using 3(2) [of r r k] ok [OF that] that assms(3) by (cases k) (auto simp: step_ok_def)
  moreover have "at (s Out_slot_mapping) r = pad" if "int (length positions) \<le> r" "r < int (length slots)" for r
    using 3(2) [of r r Out_slot_mapping] that by (auto simp: step_value_def)
  ultimately show ?case by blast
qed auto

section \<open>Inputs of parallel drafting\<close>

definition df_start :: "dflash_args \<Rightarrow> int \<Rightarrow> int" where
  "df_start a r = at (d_query_start_loc a) r"

definition df_rejected :: "dflash_args \<Rightarrow> int list option" where
  "df_rejected a = (if has_num_rejected a then d_num_rejected_tokens a else None)"

text \<open>The index of the last context token that was not rejected, never before the request.\<close>

definition df_last :: "dflash_args \<Rightarrow> int \<Rightarrow> int" where
  "df_last a r = max (at (d_query_start_loc a) (r + 1) - (case df_rejected a of None \<Rightarrow> 0 | Some j \<Rightarrow> at j r)) (df_start a r + 1) - 1"

definition df_slot :: "dflash_args \<Rightarrow> int \<Rightarrow> int \<Rightarrow> int" where
  "df_slot a r p = clamped_slot_value (dat (d_block_table a)) (r * stride0 (d_block_table a)) (stride0 (d_block_table a)) (d_block_size a) p"

definition df_context :: "dflash_args \<Rightarrow> int \<Rightarrow> int" where
  "df_context a i = at (d_target_positions a) (min i (d_total_input_tokens a - 1))"

definition df_query :: "dflash_args \<Rightarrow> int \<Rightarrow> int \<Rightarrow> int" where
  "df_query a r i = at (d_target_positions a) (df_last a r) + 1 + (i - r * num_query_per_req a)"

definition df_value :: "dflash_args \<Rightarrow> int \<Rightarrow> dflash_buf \<Rightarrow> int \<Rightarrow> int" where
  "df_value a r k i =
     (case k of
        Out_context_positions \<Rightarrow> df_context a i
      | Out_context_slot_mapping \<Rightarrow> df_slot a r (df_context a i)
      | Out_query_positions \<Rightarrow> df_query a r i
      | Out_query_slot_mapping \<Rightarrow> df_slot a r (df_query a r i)
      | Flash_input_ids \<Rightarrow> (if i = r * num_query_per_req a then at (d_next_token_ids a) r else d_parallel_drafting_token_id a)
      | Out_token_indices \<Rightarrow> i32 (r * num_query_per_req a + (i - r * num_speculative_tokens a) + 1))"

definition df_region :: "dflash_args \<Rightarrow> int \<Rightarrow> dflash_buf \<Rightarrow> int set" where
  "df_region a r k =
     (case k of
        Out_context_positions \<Rightarrow> segment (d_query_start_loc a) r
      | Out_context_slot_mapping \<Rightarrow> segment (d_query_start_loc a) r
      | Out_token_indices \<Rightarrow> {r * num_speculative_tokens a..<r * num_speculative_tokens a + (num_query_per_req a - 1)}
      | _ \<Rightarrow> {r * num_query_per_req a..<r * num_query_per_req a + num_query_per_req a})"

definition df_slot_ok :: "dflash_args \<Rightarrow> int \<Rightarrow> int \<Rightarrow> bool" where
  "df_slot_ok a r p \<longleftrightarrow>
     clamped_ok (dat (d_block_table a)) (r * stride0 (d_block_table a)) (stride0 (d_block_table a)) (d_block_size a) p"

definition df_request_ok :: "dflash_args \<Rightarrow> dflash_buf store \<Rightarrow> int \<Rightarrow> bool" where
  "df_request_ok a s r \<longleftrightarrow>
     in_i32 (at (d_query_start_loc a) (r + 1)) \<and> in_i32 (df_start a r + 1) \<and> r < int (length (d_next_token_ids a)) \<and>
     (case df_rejected a of None \<Rightarrow> True
      | Some j \<Rightarrow> in_bounds j r \<and> in_i64 (at (d_query_start_loc a) (r + 1) - at j r)) \<and>
     in_bounds (d_target_positions a) (df_last a r) \<and>
     (\<forall>i \<in> segment (d_query_start_loc a) r. in_bounds (d_target_positions a) (min i (d_total_input_tokens a - 1)) \<and>
        df_slot_ok a r (df_context a i)) \<and>
     (\<forall>i \<in> {r * num_query_per_req a..<r * num_query_per_req a + num_query_per_req a}. in_i64 (df_query a r i) \<and> df_slot_ok a r (df_query a r i)) \<and>
     (\<forall>k \<in> {Flash_input_ids, Out_context_positions, Out_query_positions, Out_context_slot_mapping, Out_query_slot_mapping, Out_token_indices}.
        \<forall>i \<in> df_region a r k. in_bounds (s k) i)"

lemma dflash_context_correct:
  fixes s :: "dflash_buf store"
  assumes ok: "df_request_ok a s0 r" and len: "\<And>k. length (s k) = length (s0 k)"
    and j: "0 \<le> j" "df_start a r + j < at (d_query_start_loc a) (r + 1)"
  shows "yields (dflash_context a r (df_start a r) j s)
    (writes s (\<lambda>k. if k \<in> {Out_context_positions, Out_context_slot_mapping} then {df_start a r + j} else {}) (df_value a r))"
proof -
  let ?i = "df_start a r + j"
  have m: "?i \<in> segment (d_query_start_loc a) r" using j by (simp add: segment_def df_start_def)
  have o: "in_bounds (d_target_positions a) (min ?i (d_total_input_tokens a - 1))" "df_slot_ok a r (df_context a ?i)"
    "in_bounds (s0 Out_context_positions) ?i" "in_bounds (s0 Out_context_slot_mapping) ?i"
    using ok m by (auto simp: df_request_ok_def df_region_def)
  have sl: "dflash_slot a r (df_context a ?i) = Some (df_slot a r (df_context a ?i))"
    using o(2) by (simp add: dflash_slot_def df_slot_def df_slot_ok_def clamped_slot_correct)
  have rd: "rd (d_target_positions a) (min ?i (d_total_input_tokens a - 1)) = Some (df_context a ?i)"
    using o(1) by (simp add: rd_at df_context_def)
  show ?thesis unfolding dflash_context_def Let_def rd sl bind.simps
    by (rule yields_writes_bind [OF yields_on_wr yields_on_wr])
      (use o(3,4) len in \<open>auto simp: df_value_def\<close>)
qed

lemma dflash_query_correct:
  fixes s :: "dflash_buf store"
  assumes ok: "df_request_ok a s0 r" and len: "\<And>k. length (s k) = length (s0 k)" and r: "0 \<le> r"
    and j: "0 \<le> j" "j < num_query_per_req a"
  shows "yields (dflash_query a r (at (d_target_positions a) (df_last a r)) j s)
    (writes s (\<lambda>k. if k \<in> {Out_query_positions, Out_query_slot_mapping, Flash_input_ids} then {r * num_query_per_req a + j}
       else if k = Out_token_indices \<and> 0 < j then {r * num_speculative_tokens a + (j - 1)} else {}) (df_value a r))"
proof -
  let ?i = "r * num_query_per_req a + j" and ?t = "r * num_speculative_tokens a + (j - 1)" and ?V = "df_value a r"
  have m: "?i \<in> {r * num_query_per_req a..<r * num_query_per_req a + num_query_per_req a}" using j by simp
  have o: "in_i64 (df_query a r ?i)" "df_slot_ok a r (df_query a r ?i)" "in_bounds (s0 Out_query_positions) ?i"
    "in_bounds (s0 Out_query_slot_mapping) ?i" "in_bounds (s0 Flash_input_ids) ?i" "r < int (length (d_next_token_ids a))"
    "0 < j \<Longrightarrow> in_bounds (s0 Out_token_indices) ?t"
    using ok m j by (auto simp: df_request_ok_def df_region_def)
  have p: "at (d_target_positions a) (df_last a r) + 1 + j = df_query a r ?i" by (simp add: df_query_def)
  have sl: "dflash_slot a r (df_query a r ?i) = Some (df_slot a r (df_query a r ?i))"
    using o(2) by (simp add: dflash_slot_def df_slot_def df_slot_ok_def clamped_slot_correct)
  have tok: "(if j = 0 then rd (d_next_token_ids a) r else Some (d_parallel_drafting_token_id a)) = Some (?V Flash_input_ids ?i)"
    using o(6) r by (simp add: rd_at df_value_def)
  have ck: "ck64 (df_query a r ?i) = Some (df_query a r ?i)" using o(1) by (simp add: ck64_def)
  have last: "yields (if 0 < j then on s3 Out_token_indices (\<lambda>b. wr b ?t (i32 ?i)) else Some s3)
      (writes s3 (\<lambda>k. if k = Out_token_indices \<and> 0 < j then {?t} else {}) ?V)"
    if "\<And>k. length (s3 k) = length (s0 k)" for s3
    using yields_on_wr [where s = s3 and k = Out_token_indices and i = ?t and V = ?V and v = "i32 ?i"] o(7) that
    by (cases "0 < j") (auto simp: df_value_def writes_refl)
  show ?thesis
    unfolding dflash_query_def Let_def p ck sl tok bind.simps
    apply (rule yields_writes_bind [OF yields_on_wr])
    prefer 3 apply (rule yields_writes_bind [OF yields_on_wr])
    prefer 3 apply (rule yields_writes_bind [OF yields_on_wr last])
    using o(3-5) len by (auto simp: df_value_def)
qed

lemma union_shift: "(\<Union>j\<in>{0..<n}. {c + j}) = {c..<c + (n :: int)}"
  by (auto intro!: bexI [where x = "x - c" for x])

lemma union_shift_pred: "(\<Union>j\<in>{0..<n}. if 0 < j then {c + (j - 1)} else {}) = {c..<c + (n - 1 :: int)}"
  by (auto split: if_splits intro!: bexI [where x = "x - c + 1" for x])

lemma dflash_request_correct:
  fixes s :: "dflash_buf store"
  assumes ok: "df_request_ok a s0 r" and len: "\<And>k. length (s k) = length (s0 k)"
    and off: "offsets_ok (d_query_start_loc a) (int (length (d_query_start_loc a)) - 1) b"
    and r: "0 \<le> r" "r < int (length (d_query_start_loc a)) - 1" and nq: "0 \<le> num_query_per_req a"
  shows "yields (dflash_request a r s) (writes s (df_region a r) (df_value a r))"
proof -
  let ?q = "d_query_start_loc a" and ?n = "num_query_per_req a"
  define e where "e = at ?q (r + 1)"
  have q: "rd ?q r = Some (df_start a r)" "rd ?q (r + 1) = Some e"
    using r by (auto simp: rd_at df_start_def e_def)
  have b: "0 \<le> df_start a r" "df_start a r \<le> e"
    using offsets_bounds [OF off r(1)] offsets_mono [OF off r(1), of "r + 1"] r by (auto simp: df_start_def e_def)
  have o: "in_i32 e" "in_i32 (df_start a r + 1)" "in_bounds (d_target_positions a) (df_last a r)"
    using ok by (auto simp: df_request_ok_def e_def)
  have rej: "(case (if has_num_rejected a then d_num_rejected_tokens a else None) of None \<Rightarrow> Some e
      | Some j \<Rightarrow> do { x \<leftarrow> rd j r; ck64 (e - x) }) = Some (e - (case df_rejected a of None \<Rightarrow> 0 | Some j \<Rightarrow> at j r))"
    using ok by (auto simp: df_rejected_def df_request_ok_def rd_at ck64_def e_def split: option.splits if_splits)
  have ck: "ck32 (e - df_start a r) = Some (e - df_start a r)" "ck32 (df_start a r + 1) = Some (df_start a r + 1)"
    using o b by (auto simp: ck32_def in_i32_def)
  have l: "rd (d_target_positions a) (max (e - (case df_rejected a of None \<Rightarrow> 0 | Some j \<Rightarrow> at j r)) (df_start a r + 1) - 1) =
      Some (at (d_target_positions a) (df_last a r))"
    using o(3) by (simp add: rd_at df_last_def e_def)
  have ctx: "yields (for_range 0 (e - df_start a r) (dflash_context a r (df_start a r)) s)
      (writes s (\<lambda>k. \<Union>j\<in>{0..<e - df_start a r}. if k \<in> {Out_context_positions, Out_context_slot_mapping} then {df_start a r + j} else {})
        (df_value a r))"
    by (rule yields_for_range_writes, rule dflash_context_correct [OF ok]) (use len in \<open>auto simp: e_def\<close>)
  have seg: "(\<Union>j\<in>{0..<e - df_start a r}. {df_start a r + j}) = segment ?q r"
    "(\<Union>j\<in>{0..<?n}. {r * ?n + j}) = {r * ?n..<r * ?n + ?n}"
    "(\<Union>j\<in>{0..<?n}. if 0 < j then {r * num_speculative_tokens a + (j - 1)} else {}) =
      {r * num_speculative_tokens a..<r * num_speculative_tokens a + (?n - 1)}"
    unfolding union_shift union_shift_pred by (simp_all add: segment_def df_start_def e_def)
  show ?thesis
    unfolding dflash_request_def q bind.simps ck rej l Let_def
  proof (rule yields_writes_bind [OF ctx, where R' = "\<lambda>k. \<Union>j\<in>{0..<?n}.
        if k \<in> {Out_query_positions, Out_query_slot_mapping, Flash_input_ids} then {r * ?n + j}
        else if k = Out_token_indices \<and> 0 < j then {r * num_speculative_tokens a + (j - 1)} else {}"], goal_cases)
    case (1 s1)
    then have "length (s1 k) = length (s0 k)" for k using len by (simp add: writes_length)
    then show ?case
      by (intro yields_for_range_writes dflash_query_correct [OF ok]) (use r in auto)
  next
    case (2 k) show ?case by (cases k) (use seg in \<open>auto simp: df_region_def\<close>)
  qed
qed

definition dflash_ok :: "dflash_args \<Rightarrow> dflash_buf store \<Rightarrow> bool" where
  "dflash_ok a s \<longleftrightarrow>
     (let n = int (length (d_query_start_loc a)) - 1 in
      offsets_ok (d_query_start_loc a) n (int (length (s Out_context_positions))) \<and>
      0 \<le> num_query_per_req a \<and> num_query_per_req a - 1 \<le> num_speculative_tokens a \<and>
      (\<forall>r \<in> {0..n - 1}. df_request_ok a s r))"

lemma df_regions_disjoint:
  assumes ok: "dflash_ok a s" and r: "0 \<le> r" "r < int (length (d_query_start_loc a)) - 1"
    and r': "0 \<le> r'" "r' < int (length (d_query_start_loc a)) - 1" and "r \<noteq> r'"
  shows "df_region a r k \<inter> df_region a r' k = {}"
proof -
  have o: "offsets_ok (d_query_start_loc a) (int (length (d_query_start_loc a)) - 1) (int (length (s Out_context_positions)))"
    "num_query_per_req a - 1 \<le> num_speculative_tokens a" using ok by (auto simp: dflash_ok_def Let_def)
  show ?thesis
    using segments_disjoint [OF o(1) r r' assms(6)] rows_disjoint [OF assms(6) o(2,2)] rows_disjoint [OF assms(6) order_refl order_refl]
    by (cases k) (simp_all add: df_region_def)
qed

lemma copy_and_expand_dflash_correct:
  assumes "is_schedule order" and ok: "dflash_ok a s0"
  shows "yields (copy_and_expand_dflash_inputs_kernel_impl order a s0) (\<lambda>s.
    (\<forall>k. length (s k) = length (s0 k)) \<and>
    (\<forall>r k i. 0 \<le> r \<longrightarrow> r < int (length (d_query_start_loc a)) - 1 \<longrightarrow> i \<in> df_region a r k \<longrightarrow> at (s k) i = df_value a r k i))"
  unfolding copy_and_expand_dflash_inputs_kernel_impl_def
proof (rule yields_omp_store [OF assms(1), where R = "df_region a" and V = "df_value a"], goal_cases)
  case (1 r s)
  then show ?case using ok by (intro dflash_request_correct) (auto simp: dflash_ok_def Let_def)
next
  case (2 i j k) then show ?case by (intro df_regions_disjoint [OF ok])
next
  case (3 s)
  have "at (s k) i = df_value a r k i"
    if "0 \<le> r" "r < int (length (d_query_start_loc a)) - 1" "i \<in> df_region a r k" for r k i
  proof -
    have "df_request_ok a s0 r" using ok that by (simp add: dflash_ok_def Let_def)
    then have "in_bounds (s0 k) i" using that(3) unfolding df_request_ok_def by (cases k) blast+
    then show ?thesis using 3(2) [OF that(1,2)] that(3) by blast
  qed
  then show ?case using 3(1) by blast
qed

end
