(* ===== verification/Dry.thy ===== *)
theory Dry
  imports Kernels Float32
begin

text \<open>
  The repetition scan of the DRY sampler, \<open>src/csrc/cpu/dry.cpp\<close>.

  A tensor argument is its device flag and its elements in row-major order (\<open>contiguous\<close>).  The outer
  \<open>option\<close> of a result is \<open>None\<close> when the code leaves a buffer or overflows; inside it, \<open>Inl\<close> is an
  exception and \<open>Inr\<close> the returned value.  Every loop of the function is a definition of its own.

  The theorem relates the penalties of a row to repetitions in its history: an entry says that the
  last \<open>n\<close> tokens also occur earlier in the scanned range, followed by the penalised token, and without an early
  exit each such repetition is reported with at least its length.
\<close>

section \<open>Arguments\<close>






section \<open>The loops\<close>
















section \<open>What an entry means\<close>












section \<open>The loops compute the specification\<close>























section \<open>The penalties of a row\<close>









section \<open>Rows and batches\<close>




















end
