(* ===== verification/Vmm.thy ===== *)
theory Vmm
  imports Bytes "HOL-Library.Monad_Syntax"
begin

text \<open>
  The virtual-memory manager of the key-value cache, \<open>src/csrc/vmm\<close>: pages (\<open>page.cpp\<close>), tensors over
  a reserved address range (\<open>ftensor.cpp\<close>) and the allocator (\<open>allocator.cpp\<close>).

  The CUDA driver and \<open>mmap\<close> are not part of the sources: a \<open>driver\<close> record of functions on an
  abstract driver state \<open>'d\<close> is an argument of every operation, and \<open>None\<close> is an error code.  \<open>CHECK_DRV\<close> and
  \<open>CHECK_RT\<close> end the process in every build, so that a failed check makes the whole operation \<open>None\<close>.  \<open>assert\<close>, and
  \<open>ASSERT\<close> which expands to \<open>assert(0)\<close>, do so only in a build without \<open>NDEBUG\<close>; the field \<open>ndebug\<close> of the record says
  which build it is, and with it set the operation goes on past a violated assertion.  A division by a zero
  page size traps in every build.  A page of a device that is neither CUDA nor CPU is a null pointer when \<open>NDEBUG\<close> is
  set; its next use would dereference it, and the operation is \<open>None\<close> there too.
  The state \<open>vmm\<close> holds the driver state, the globals of the sources, and the pages that are owned through
  \<open>std::shared_ptr\<close> with their reference counts.  Sizes and addresses are natural numbers below \<open>2 ^ 64\<close> with
  the wrap-around of \<open>size_t\<close> written out; offsets are \<open>int64_t\<close>.  A hash table is an association list, in
  the order in which it is traversed.  Every public operation of the allocator runs under a mutex, so
  that operations are atomic.
\<close>

section \<open>Machine arithmetic\<close>

definition wrap64 :: "nat \<Rightarrow> nat" where
  "wrap64 n = n mod 2 ^ 64"

text \<open>The conversion of an \<open>int64_t\<close> offset to \<open>size_t\<close>.\<close>

definition as_size :: "int \<Rightarrow> nat" where
  "as_size i = nat (i mod 2 ^ 64)"

definition ensure :: "bool \<Rightarrow> unit option" where
  "ensure c = (if c then Some () else None)"

section \<open>Driver and state\<close>

datatype device = Cuda int | Cpu | Other_device

record 'd driver =
  cuMemCreate :: "nat \<Rightarrow> int \<Rightarrow> 'd \<Rightarrow> (nat \<times> 'd) option"
  cuMemRelease :: "nat \<Rightarrow> 'd \<Rightarrow> 'd option"
  cuMemMap :: "nat \<Rightarrow> nat \<Rightarrow> nat \<Rightarrow> 'd \<Rightarrow> 'd option"
  cuMemSetAccess :: "nat \<Rightarrow> nat \<Rightarrow> int \<Rightarrow> 'd \<Rightarrow> 'd option"
  cuMemUnmap :: "nat \<Rightarrow> nat \<Rightarrow> 'd \<Rightarrow> 'd option"
  cuMemAddressReserve :: "nat \<Rightarrow> nat \<Rightarrow> nat \<Rightarrow> 'd \<Rightarrow> (nat \<times> 'd) option"
  cuMemAddressFree :: "nat \<Rightarrow> nat \<Rightarrow> 'd \<Rightarrow> 'd option"
  sys_mmap :: "nat \<Rightarrow> nat \<Rightarrow> 'd \<Rightarrow> (nat \<times> 'd) option"
  cudaFree :: "'d \<Rightarrow> 'd option"
  cuCtxGetDevice :: "'d \<Rightarrow> int option"
  cuDeviceGetAttribute :: "int \<Rightarrow> 'd \<Rightarrow> int option"
  cuCtxGetCurrent :: "'d \<Rightarrow> nat option"
  cuMemGetAllocationGranularity :: "int \<Rightarrow> 'd \<Rightarrow> nat option"
  ndebug :: bool

text \<open>\<open>assert\<close> and \<open>ASSERT\<close>.\<close>

definition assertion :: "'d driver \<Rightarrow> bool \<Rightarrow> unit option" where
  "assertion drv c = (if ndebug drv then Some () else ensure c)"

text \<open>\<open>GPUPage page_id dev handle\<close> and \<open>CPUPage page_id mapped_addr\<close>.\<close>

datatype page = GPUPage int int nat | CPUPage int "nat option"

record ftensor =
  ft_name :: bytes
  ft_vaddr :: nat
  ft_size :: nat
  elem_size :: nat
  ft_dev :: device
  ft_zero :: nat
  ft_mapping :: "(int \<times> page) list"

record allocator =
  al_dev :: device
  al_num_layers :: int
  al_contiguous_layout :: bool
  al_kv_tensor_size_per_layer :: nat
  al_ftensors :: "(bytes \<times> ftensor) list"
  al_contiguous_kv_tensor :: "ftensor option"
  al_zero_page :: "nat option"

record 'd vmm =
  cuda :: 'd
  kPageSize :: nat
  g_vaddr_allocated_offset :: nat
  anon_counter :: nat
  shared_pages :: "nat \<Rightarrow> (page \<times> nat) option"
  next_shared :: nat
  g_allocator :: "allocator option"

definition kStartAddr :: nat where
  "kStartAddr = 0x1f0000000000"

definition ZERO_PAGE_ID :: int where
  "ZERO_PAGE_ID = - 2"

definition kv_prefix :: bytes where
  "kv_prefix = str ''kv_''"

definition base_page_size :: nat where
  "base_page_size = 2 * 1024 * 1024"

definition initial_vmm :: "'d \<Rightarrow> 'd vmm" where
  "initial_vmm d = \<lparr>cuda = d, kPageSize = base_page_size, g_vaddr_allocated_offset = 0, anon_counter = 0,
     shared_pages = (\<lambda>_. None), next_shared = 0, g_allocator = None\<rparr>"

text \<open>A remainder by a zero page size traps.\<close>

definition page_aligned :: "'d vmm \<Rightarrow> nat \<Rightarrow> bool" where
  "page_aligned w n \<longleftrightarrow> kPageSize w \<noteq> 0 \<and> n mod kPageSize w = 0"

section \<open>Pages\<close>

definition gpu_page_new :: "'d driver \<Rightarrow> int \<Rightarrow> int \<Rightarrow> 'd vmm \<Rightarrow> (page \<times> 'd vmm) option" where
  "gpu_page_new drv page_id dev_idx w = do {
     (h, d) \<leftarrow> cuMemCreate drv (kPageSize w) dev_idx (cuda w);
     Some (GPUPage page_id dev_idx h, w\<lparr>cuda := d\<rparr>) }"

definition make_page :: "'d driver \<Rightarrow> device \<Rightarrow> int \<Rightarrow> 'd vmm \<Rightarrow> (page \<times> 'd vmm) option" where
  "make_page drv dev page_id w =
     (case dev of
        Cuda i \<Rightarrow> gpu_page_new drv page_id i w
      | Cpu \<Rightarrow> Some (CPUPage page_id None, w)
      | Other_device \<Rightarrow> None)"

definition page_delete :: "'d driver \<Rightarrow> page \<Rightarrow> 'd vmm \<Rightarrow> 'd vmm option" where
  "page_delete drv p w =
     (case p of
        GPUPage _ _ h \<Rightarrow> map_option (\<lambda>d. w\<lparr>cuda := d\<rparr>) (cuMemRelease drv h (cuda w))
      | CPUPage _ _ \<Rightarrow> Some w)"

definition page_map :: "'d driver \<Rightarrow> page \<Rightarrow> nat \<Rightarrow> bool \<Rightarrow> 'd vmm \<Rightarrow> (bool \<times> page \<times> 'd vmm) option" where
  "page_map drv p va set_access w =
     (case p of
        GPUPage page_id dev h \<Rightarrow> do {
          d1 \<leftarrow> cuMemMap drv va (kPageSize w) h (cuda w);
          d2 \<leftarrow> (if set_access then cuMemSetAccess drv va (kPageSize w) dev d1 else Some d1);
          Some (True, p, w\<lparr>cuda := d2\<rparr>) }
      | CPUPage page_id _ \<Rightarrow> Some (True, CPUPage page_id (Some va), w))"

text \<open>\<open>std::make_shared\<close>, and the copy and the release of a shared pointer.\<close>

definition make_shared_page :: "'d driver \<Rightarrow> device \<Rightarrow> int \<Rightarrow> 'd vmm \<Rightarrow> (nat \<times> 'd vmm) option" where
  "make_shared_page drv dev page_id w = do {
     (p, w1) \<leftarrow> make_page drv dev page_id w;
     let z = next_shared w1;
     Some (z, w1\<lparr>shared_pages := (shared_pages w1)(z \<mapsto> (p, 1)), next_shared := z + 1\<rparr>) }"

definition shared_copy :: "nat \<Rightarrow> 'd vmm \<Rightarrow> 'd vmm option" where
  "shared_copy z w = do {
     (p, n) \<leftarrow> shared_pages w z;
     Some (w\<lparr>shared_pages := (shared_pages w)(z \<mapsto> (p, n + 1))\<rparr>) }"

definition shared_reset :: "'d driver \<Rightarrow> nat \<Rightarrow> 'd vmm \<Rightarrow> 'd vmm option" where
  "shared_reset drv z w = do {
     (p, n) \<leftarrow> shared_pages w z;
     if n = 1 then page_delete drv p (w\<lparr>shared_pages := (shared_pages w)(z := None)\<rparr>)
     else Some (w\<lparr>shared_pages := (shared_pages w)(z \<mapsto> (p, n - 1))\<rparr>) }"

section \<open>Tensors\<close>

definition MAP_FAILED :: nat where
  "MAP_FAILED = 2 ^ 64 - 1"

definition alloc_virtual_mem :: "'d driver \<Rightarrow> device \<Rightarrow> nat \<Rightarrow> 'd vmm \<Rightarrow> (nat \<times> 'd vmm) option" where
  "alloc_virtual_mem drv dev nbytes w = do {
     assertion drv (nbytes mod base_page_size = 0);
     let offset = g_vaddr_allocated_offset w;
     let hint = wrap64 (kStartAddr + offset);
     (va, d) \<leftarrow> (case dev of
        Cuda _ \<Rightarrow> cuMemAddressReserve drv nbytes base_page_size hint (cuda w)
      | _ \<Rightarrow> (case sys_mmap drv hint nbytes (cuda w) of
          None \<Rightarrow> do { assertion drv False; Some (MAP_FAILED, cuda w) }
        | Some r \<Rightarrow> Some r));
     Some (va, w\<lparr>cuda := d, g_vaddr_allocated_offset := wrap64 (offset + nbytes)\<rparr>) }"

definition map_zero :: "'d driver \<Rightarrow> ftensor \<Rightarrow> int \<Rightarrow> bool \<Rightarrow> 'd vmm \<Rightarrow> (bool \<times> 'd vmm) option" where
  "map_zero drv t offset set_access w = do {
     assertion drv (page_aligned w (as_size offset));
     (p, n) \<leftarrow> shared_pages w (ft_zero t);
     (ok, p', w1) \<leftarrow> page_map drv p (wrap64 (ft_vaddr t + as_size offset)) set_access w;
     Some (ok, w1\<lparr>shared_pages := (shared_pages w1)(ft_zero t \<mapsto> (p', n))\<rparr>) }"

fun zero_loop :: "'d driver \<Rightarrow> ftensor \<Rightarrow> nat list \<Rightarrow> 'd vmm \<Rightarrow> (bool \<times> 'd vmm) option" where
  "zero_loop drv t [] w = Some (True, w)"
| "zero_loop drv t (offset # offsets) w = do {
     (ok, w1) \<leftarrow> map_zero drv t (int offset) True w;
     if ok then zero_loop drv t offsets w1 else Some (False, w1) }"

text \<open>The loop counts up in \<open>size_t\<close>: it never ends when the page size is zero or the last increment wraps around.\<close>

definition init_with_zero :: "'d driver \<Rightarrow> ftensor \<Rightarrow> 'd vmm \<Rightarrow> (bool \<times> 'd vmm) option" where
  "init_with_zero drv t w = do {
     assertion drv (page_aligned w (ft_vaddr t));
     assertion drv (page_aligned w (ft_size t));
     let iterations = (ft_size t + kPageSize w - 1) div kPageSize w;
     ensure (ft_size t = 0 \<or> kPageSize w \<noteq> 0 \<and> iterations * kPageSize w < 2 ^ 64);
     zero_loop drv t (map (\<lambda>i. i * kPageSize w) [0..<iterations]) w }"

definition ftensor_new ::
  "'d driver \<Rightarrow> bytes \<Rightarrow> nat \<Rightarrow> nat \<Rightarrow> device \<Rightarrow> nat \<Rightarrow> 'd vmm \<Rightarrow> (ftensor \<times> 'd vmm) option" where
  "ftensor_new drv name nbytes esize dev zero_page w = do {
     w1 \<leftarrow> shared_copy zero_page w;
     (va, w2) \<leftarrow> alloc_virtual_mem drv dev nbytes w1;
     let t = \<lparr>ft_name = name, ft_vaddr = va, ft_size = nbytes, elem_size = esize, ft_dev = dev, ft_zero = zero_page, ft_mapping = []\<rparr>;
     (ok, w3) \<leftarrow> init_with_zero drv t w2;
     Some (t, w3) }"

fun pages_clear :: "'d driver \<Rightarrow> page list \<Rightarrow> 'd vmm \<Rightarrow> 'd vmm option" where
  "pages_clear drv [] w = Some w"
| "pages_clear drv (p # ps) w = do { w1 \<leftarrow> page_delete drv p w; pages_clear drv ps w1 }"

definition ftensor_delete :: "'d driver \<Rightarrow> ftensor \<Rightarrow> 'd vmm \<Rightarrow> 'd vmm option" where
  "ftensor_delete drv t w = do {
     w1 \<leftarrow> pages_clear drv (map snd (ft_mapping t)) w;
     w2 \<leftarrow> shared_reset drv (ft_zero t) w1;
     if ft_vaddr t \<noteq> 0 then do {
       d1 \<leftarrow> cuMemUnmap drv (ft_vaddr t) (ft_size t) (cuda w2);
       d2 \<leftarrow> cuMemAddressFree drv (ft_vaddr t) (ft_size t) d1;
       Some (w2\<lparr>cuda := d2\<rparr>) }
     else Some w2 }"

definition page_id_of :: "nat \<Rightarrow> int \<Rightarrow> int" where
  "page_id_of page_size offset = i64 (int (as_size offset div page_size))"

definition ftensor_map :: "'d driver \<Rightarrow> ftensor \<Rightarrow> int \<Rightarrow> 'd vmm \<Rightarrow> (bool \<times> ftensor \<times> 'd vmm) option" where
  "ftensor_map drv t offset w = do {
     assertion drv (page_aligned w (as_size offset));
     ensure (kPageSize w \<noteq> 0);
     let page_id = page_id_of (kPageSize w) offset;
     if map_of (ft_mapping t) page_id \<noteq> None then Some (False, t, w)
     else do {
       let va = wrap64 (ft_vaddr t + as_size offset);
       d1 \<leftarrow> cuMemUnmap drv va (kPageSize w) (cuda w);
       (p, w1) \<leftarrow> make_page drv (ft_dev t) page_id (w\<lparr>cuda := d1\<rparr>);
       (ok, p', w2) \<leftarrow> page_map drv p va True w1;
       Some (True, t\<lparr>ft_mapping := (page_id, p') # ft_mapping t\<rparr>, w2) } }"

definition ftensor_unmap :: "'d driver \<Rightarrow> ftensor \<Rightarrow> int \<Rightarrow> 'd vmm \<Rightarrow> (bool \<times> ftensor \<times> 'd vmm) option" where
  "ftensor_unmap drv t offset w = do {
     assertion drv (page_aligned w (as_size offset));
     ensure (kPageSize w \<noteq> 0);
     let page_id = page_id_of (kPageSize w) offset;
     case map_of (ft_mapping t) page_id of
       None \<Rightarrow> Some (False, t, w)
     | Some p \<Rightarrow> do {
         d1 \<leftarrow> cuMemUnmap drv (wrap64 (ft_vaddr t + as_size offset)) (kPageSize w) (cuda w);
         (ok, w1) \<leftarrow> map_zero drv t offset True (w\<lparr>cuda := d1\<rparr>);
         w2 \<leftarrow> page_delete drv p w1;
         Some (True, t\<lparr>ft_mapping := filter (\<lambda>e. fst e \<noteq> page_id) (ft_mapping t)\<rparr>, w2) } }"


definition set_access :: "'d driver \<Rightarrow> ftensor \<Rightarrow> nat \<Rightarrow> nat \<Rightarrow> 'd vmm \<Rightarrow> (bool \<times> 'd vmm) option" where
  "set_access drv t addr nbytes w = do {
     d \<leftarrow> cuMemSetAccess drv addr nbytes (case ft_dev t of Cuda i \<Rightarrow> i | _ \<Rightarrow> - 1) (cuda w);
     Some (True, w\<lparr>cuda := d\<rparr>) }"

section \<open>The allocator\<close>

definition init_cuda :: "'d driver \<Rightarrow> 'd vmm \<Rightarrow> 'd vmm option" where
  "init_cuda drv w = do {
     d \<leftarrow> cudaFree drv (cuda w);
     dev \<leftarrow> cuCtxGetDevice drv d;
     supportsVMM \<leftarrow> cuDeviceGetAttribute drv dev d;
     context \<leftarrow> cuCtxGetCurrent drv d;
     chunk_sz \<leftarrow> cuMemGetAllocationGranularity drv dev d;
     ensure (chunk_sz \<noteq> 0);
     assertion drv (kPageSize w mod chunk_sz = 0);
     Some (w\<lparr>cuda := d\<rparr>) }"

definition allocator_new :: "'d driver \<Rightarrow> device \<Rightarrow> bool \<Rightarrow> 'd vmm \<Rightarrow> (allocator \<times> 'd vmm) option" where
  "allocator_new drv device contiguous_layout w = do {
     w1 \<leftarrow> (case device of Cuda _ \<Rightarrow> init_cuda drv w | _ \<Rightarrow> Some w);
     Some (\<lparr>al_dev = device, al_num_layers = 0, al_contiguous_layout = contiguous_layout, al_kv_tensor_size_per_layer = 0,
            al_ftensors = [], al_contiguous_kv_tensor = None, al_zero_page = None\<rparr>, w1) }"

fun ftensors_clear :: "'d driver \<Rightarrow> ftensor list \<Rightarrow> 'd vmm \<Rightarrow> 'd vmm option" where
  "ftensors_clear drv [] w = Some w"
| "ftensors_clear drv (t # ts) w = do { w1 \<leftarrow> ftensor_delete drv t w; ftensors_clear drv ts w1 }"

definition destroy :: "'d driver \<Rightarrow> allocator \<Rightarrow> 'd vmm \<Rightarrow> (allocator \<times> 'd vmm) option" where
  "destroy drv al w = do {
     w1 \<leftarrow> ftensors_clear drv (map snd (al_ftensors al)) w;
     w2 \<leftarrow> (case al_contiguous_kv_tensor al of None \<Rightarrow> Some w1 | Some t \<Rightarrow> ftensor_delete drv t w1);
     w3 \<leftarrow> (case al_zero_page al of None \<Rightarrow> Some w2 | Some z \<Rightarrow> shared_reset drv z w2);
     Some (al\<lparr>al_ftensors := [], al_contiguous_kv_tensor := None, al_zero_page := None\<rparr>, w3) }"

text \<open>\<open>shutdown\<close> and \<open>g_allocator.reset()\<close>, whose destructor calls \<open>destroy\<close>.\<close>

definition shutdown :: "'d driver \<Rightarrow> 'd vmm \<Rightarrow> 'd vmm option" where
  "shutdown drv w =
     (case g_allocator w of None \<Rightarrow> Some w
      | Some al \<Rightarrow> do { (_, w1) \<leftarrow> destroy drv al w; Some (w1\<lparr>g_allocator := None\<rparr>) })"

definition init :: "'d driver \<Rightarrow> device \<Rightarrow> nat \<Rightarrow> bool \<Rightarrow> 'd vmm \<Rightarrow> 'd vmm option" where
  "init drv dev page_size contiguous_layout w = do {
     w1 \<leftarrow> shutdown drv w;
     ensure (page_size > 0 \<longrightarrow> page_size mod base_page_size = 0);
     let w2 = (if page_size > 0 then w1\<lparr>kPageSize := page_size\<rparr> else w1);
     (al, w3) \<leftarrow> allocator_new drv dev contiguous_layout w2;
     Some (w3\<lparr>g_allocator := Some al\<rparr>) }"

definition global_allocator :: "'d vmm \<Rightarrow> allocator option" where
  "global_allocator w = g_allocator w"

datatype int_dtype = kInt8 | kInt16 | kInt32 | kInt64

definition torch_dtype_from_size :: "nat \<Rightarrow> bytes + int_dtype" where
  "torch_dtype_from_size dtype_size =
     (if dtype_size = 1 then Inr kInt8
      else if dtype_size = 2 then Inr kInt16
      else if dtype_size = 4 then Inr kInt32
      else if dtype_size = 8 then Inr kInt64
      else Inl (str ''Unsupported dtype size: '' @ to_string dtype_size))"

definition get_anon_tensor_name :: "'d vmm \<Rightarrow> bytes \<times> 'd vmm" where
  "get_anon_tensor_name w = (str ''anon_tensor_'' @ to_string (anon_counter w), w\<lparr>anon_counter := anon_counter w + 1\<rparr>)"

text \<open>\<open>numel\<close> is the size divided by the element size.\<close>

definition tensor_bytes :: "ftensor \<Rightarrow> nat" where
  "tensor_bytes t = wrap64 (ft_size t div elem_size t * elem_size t)"

definition get_v_base_offset :: "'d driver \<Rightarrow> 'd vmm \<Rightarrow> ftensor \<Rightarrow> nat option" where
  "get_v_base_offset drv w t = do {
     ensure (wrap64 (2 * kPageSize w) \<noteq> 0);
     assertion drv (tensor_bytes t mod wrap64 (2 * kPageSize w) = 0);
     Some (tensor_bytes t div 2) }"

definition create_ftensor ::
  "'d driver \<Rightarrow> nat \<Rightarrow> nat \<Rightarrow> device \<Rightarrow> bytes \<Rightarrow> allocator \<Rightarrow> 'd vmm \<Rightarrow> (ftensor \<times> allocator \<times> 'd vmm) option" where
  "create_ftensor drv nbytes esize dev name0 al w0 = do {
     let (name, w) = (if name0 = [] then get_anon_tensor_name w0 else (name0, w0));
     case map_of (al_ftensors al) name of
       Some t \<Rightarrow> do {
         assertion drv (tensor_bytes t = nbytes);
         assertion drv (ft_dev t = dev);
         Some (t, al, w) }
     | None \<Rightarrow> do {
         z \<leftarrow> al_zero_page al;
         (t, w1) \<leftarrow> ftensor_new drv name nbytes esize (al_dev al) z w;
         Some (t, al\<lparr>al_ftensors := (name, t) # al_ftensors al\<rparr>, w1) } }"

definition free_ftensor :: "'d driver \<Rightarrow> bytes \<Rightarrow> allocator \<Rightarrow> 'd vmm \<Rightarrow> (allocator \<times> 'd vmm) option" where
  "free_ftensor drv name al w =
     (case map_of (al_ftensors al) name of None \<Rightarrow> Some (al, w)
      | Some t \<Rightarrow> do {
          w1 \<leftarrow> ftensor_delete drv t w;
          Some (al\<lparr>al_ftensors := filter (\<lambda>e. fst e \<noteq> name) (al_ftensors al)\<rparr>, w1) })"

definition layer_name :: "int \<Rightarrow> bytes" where
  "layer_name i = kv_prefix @ to_string (nat i)"

fun create_layers ::
  "'d driver \<Rightarrow> nat \<Rightarrow> nat \<Rightarrow> device \<Rightarrow> int list \<Rightarrow> allocator \<Rightarrow> 'd vmm \<Rightarrow> (ftensor list \<times> allocator \<times> 'd vmm) option" where
  "create_layers drv nbytes esize dev [] al w = Some ([], al, w)"
| "create_layers drv nbytes esize dev (i # is) al w = do {
     (t, al1, w1) \<leftarrow> create_ftensor drv nbytes esize dev (layer_name i) al w;
     (ts, al2, w2) \<leftarrow> create_layers drv nbytes esize dev is al1 w1;
     Some (t # ts, al2, w2) }"

text \<open>The unique pointer is assigned after the new tensor is built; the assignment destroys the old tensor.\<close>

definition create_contiguous ::
  "'d driver \<Rightarrow> nat \<Rightarrow> nat \<Rightarrow> int \<Rightarrow> allocator \<Rightarrow> 'd vmm \<Rightarrow> (ftensor list \<times> allocator \<times> 'd vmm) option" where
  "create_contiguous drv nbytes esize num_layers al w = do {
     z \<leftarrow> al_zero_page al;
     (t, w1) \<leftarrow> ftensor_new drv (kv_prefix @ str ''contiguous'') (wrap64 (nbytes * as_size num_layers)) esize (al_dev al) z w;
     w2 \<leftarrow> (case al_contiguous_kv_tensor al of None \<Rightarrow> Some w1 | Some old \<Rightarrow> ftensor_delete drv old w1);
     Some ([t], al\<lparr>al_contiguous_kv_tensor := Some t\<rparr>, w2) }"

definition align_up :: "nat \<Rightarrow> nat \<Rightarrow> nat" where
  "align_up page_size n = (if n mod page_size \<noteq> 0 then wrap64 (wrap64 (n + page_size - 1) div page_size * page_size) else n)"

definition set_zero_page :: "'d driver \<Rightarrow> allocator \<Rightarrow> 'd vmm \<Rightarrow> (allocator \<times> 'd vmm) option" where
  "set_zero_page drv al w = do {
     (z, w1) \<leftarrow> make_shared_page drv (al_dev al) ZERO_PAGE_ID w;
     w2 \<leftarrow> (case al_zero_page al of None \<Rightarrow> Some w1 | Some old \<Rightarrow> shared_reset drv old w1);
     Some (al\<lparr>al_zero_page := Some z\<rparr>, w2) }"

definition create_kv_tensors ::
  "'d driver \<Rightarrow> nat \<Rightarrow> nat \<Rightarrow> device \<Rightarrow> int \<Rightarrow> allocator \<Rightarrow> 'd vmm \<Rightarrow> (ftensor list \<times> allocator \<times> 'd vmm) option" where
  "create_kv_tensors drv nbytes esize dev num_layers al w = do {
     assertion drv (al_num_layers al = 0 \<or> al_num_layers al = num_layers);
     ensure (kPageSize w \<noteq> 0);
     let aligned_size = align_up (kPageSize w) nbytes;
     let al1 = al\<lparr>al_num_layers := num_layers, al_kv_tensor_size_per_layer := aligned_size\<rparr>;
     if al_contiguous_layout al then do {
       (al2, w2) \<leftarrow> set_zero_page drv al1 (w\<lparr>kPageSize := wrap64 (kPageSize w * as_size (num_layers * 2))\<rparr>);
       create_contiguous drv aligned_size esize num_layers al2 w2 }
     else do {
       (al2, w2) \<leftarrow> set_zero_page drv al1 w;
       create_layers drv aligned_size esize dev [0..num_layers - 1] al2 w2 } }"

definition kv_tensors_created :: "allocator \<Rightarrow> bool" where
  "kv_tensors_created al \<longleftrightarrow> al_num_layers al > 0"

fun map_all :: "(ftensor \<Rightarrow> int \<Rightarrow> 'd vmm \<Rightarrow> (bool \<times> ftensor \<times> 'd vmm) option) \<Rightarrow> int list \<Rightarrow> ftensor \<Rightarrow> 'd vmm \<Rightarrow> (ftensor \<times> 'd vmm) option" where
  "map_all f [] t w = Some (t, w)"
| "map_all f (offset # offsets) t w = do { (_, t1, w1) \<leftarrow> f t offset w; map_all f offsets t1 w1 }"

text \<open>The offsets visited in a layer: each offset in the keys and in the values half.\<close>

definition kv_offsets :: "nat \<Rightarrow> int list \<Rightarrow> int list" where
  "kv_offsets v_base offsets = concat (map (\<lambda>offset. [offset, i64 (offset + int v_base)]) offsets)"

definition set_ftensor :: "bytes \<Rightarrow> ftensor \<Rightarrow> allocator \<Rightarrow> allocator" where
  "set_ftensor name t al = al\<lparr>al_ftensors := map (\<lambda>e. if fst e = name then (name, t) else e) (al_ftensors al)\<rparr>"

fun layers_apply ::
  "'d driver \<Rightarrow> (ftensor \<Rightarrow> int \<Rightarrow> 'd vmm \<Rightarrow> (bool \<times> ftensor \<times> 'd vmm) option) \<Rightarrow> int list \<Rightarrow> int list \<Rightarrow> allocator \<Rightarrow> 'd vmm \<Rightarrow>
    (allocator \<times> 'd vmm) option" where
  "layers_apply drv f offsets [] al w = Some (al, w)"
| "layers_apply drv f offsets (i # is) al w = do {
     t \<leftarrow> map_of (al_ftensors al) (layer_name i);
     v_base \<leftarrow> get_v_base_offset drv w t;
     (t1, w1) \<leftarrow> map_all f (kv_offsets v_base offsets) t w;
     layers_apply drv f offsets is (set_ftensor (layer_name i) t1 al) w1 }"

definition kv_apply ::
  "'d driver \<Rightarrow> (ftensor \<Rightarrow> int \<Rightarrow> 'd vmm \<Rightarrow> (bool \<times> ftensor \<times> 'd vmm) option) \<Rightarrow> int list \<Rightarrow> allocator \<Rightarrow> 'd vmm \<Rightarrow>
    (bool \<times> allocator \<times> 'd vmm) option" where
  "kv_apply drv f offsets al w =
     (if al_num_layers al = 0 then Some (False, al, w)
      else if al_contiguous_layout al then do {
        t \<leftarrow> al_contiguous_kv_tensor al;
        (t1, w1) \<leftarrow> map_all f offsets t w;
        Some (True, al\<lparr>al_contiguous_kv_tensor := Some t1\<rparr>, w1) }
      else do {
        (al1, w1) \<leftarrow> layers_apply drv f offsets [0..al_num_layers al - 1] al w;
        Some (True, al1, w1) })"

definition map_to_kv_tensors :: "'d driver \<Rightarrow> int list \<Rightarrow> allocator \<Rightarrow> 'd vmm \<Rightarrow> (bool \<times> allocator \<times> 'd vmm) option" where
  "map_to_kv_tensors drv = kv_apply drv (ftensor_map drv)"

definition unmap_from_kv_tensors :: "'d driver \<Rightarrow> int list \<Rightarrow> allocator \<Rightarrow> 'd vmm \<Rightarrow> (bool \<times> allocator \<times> 'd vmm) option" where
  "unmap_from_kv_tensors drv = kv_apply drv (ftensor_unmap drv)"

end
