(* ===== verification/Vmm_Safety.thy ===== *)
theory Vmm_Safety
  imports Vmm "HOL-Library.Multiset"
begin

text \<open>
  Isolation of the key-value cache pages of \<open>src/csrc/vmm\<close>.

  The documented effects of the driver calls are the hypothesis \<open>driver_laws drv V\<close>: \<open>V\<close> reads off a driver state
  which handles are live, which addresses are reserved, and which allocation backs an address.  The
  invariant \<open>vmm_inv\<close> ties the tensors of the allocator to that view; it does not depend on the order of
  the tensors, so that every operation is treated on the first one.  \<open>vmm_reach\<close> is the state machine of the
  allocator, one step per public operation.
\<close>

section \<open>The driver\<close>

record view =
  live :: "nat set"
  reserved :: "nat set"
  backing :: "nat \<Rightarrow> nat option"

definition span :: "nat \<Rightarrow> nat \<Rightarrow> nat set" where
  "span lo n = {lo..<lo + n}"

definition set_span :: "nat \<Rightarrow> nat \<Rightarrow> nat option \<Rightarrow> (nat \<Rightarrow> nat option) \<Rightarrow> nat \<Rightarrow> nat option" where
  "set_span lo n v b = (\<lambda>x. if x \<in> span lo n then v else b x)"

definition driver_laws :: "'d driver \<Rightarrow> ('d \<Rightarrow> view) \<Rightarrow> bool" where
  "driver_laws drv V \<longleftrightarrow>
     (\<forall>n i d h d'. cuMemCreate drv n i d = Some (h, d') \<longrightarrow> h \<notin> live (V d) \<and> V d' = (V d)\<lparr>live := insert h (live (V d))\<rparr>) \<and>
     (\<forall>h d d'. cuMemRelease drv h d = Some d' \<longrightarrow> V d' = (V d)\<lparr>live := live (V d) - {h}\<rparr>) \<and>
     (\<forall>a n h d d'. cuMemMap drv a n h d = Some d' \<longrightarrow> V d' = (V d)\<lparr>backing := set_span a n (Some h) (backing (V d))\<rparr>) \<and>
     (\<forall>a n i d d'. cuMemSetAccess drv a n i d = Some d' \<longrightarrow> V d' = V d) \<and>
     (\<forall>a n d d'. cuMemUnmap drv a n d = Some d' \<longrightarrow> V d' = (V d)\<lparr>backing := set_span a n None (backing (V d))\<rparr>) \<and>
     (\<forall>n al hint d a d'. cuMemAddressReserve drv n al hint d = Some (a, d') \<longrightarrow>
        a + n \<le> 2 ^ 64 \<and> span a n \<inter> reserved (V d) = {} \<and> V d' = (V d)\<lparr>reserved := reserved (V d) \<union> span a n\<rparr>) \<and>
     (\<forall>a n d d'. cuMemAddressFree drv a n d = Some d' \<longrightarrow> V d' = (V d)\<lparr>reserved := reserved (V d) - span a n\<rparr>) \<and>
     (\<forall>d d'. cudaFree drv d = Some d' \<longrightarrow> V d' = V d)"

lemma laws:
  assumes "driver_laws drv V"
  shows "cuMemCreate drv n i d = Some (h, d') \<Longrightarrow> h \<notin> live (V d) \<and> V d' = (V d)\<lparr>live := insert h (live (V d))\<rparr>"
    "cuMemRelease drv h d = Some d' \<Longrightarrow> V d' = (V d)\<lparr>live := live (V d) - {h}\<rparr>"
    "cuMemMap drv a n h d = Some d' \<Longrightarrow> V d' = (V d)\<lparr>backing := set_span a n (Some h) (backing (V d))\<rparr>"
    "cuMemSetAccess drv a n i d = Some d' \<Longrightarrow> V d' = V d"
    "cuMemUnmap drv a n d = Some d' \<Longrightarrow> V d' = (V d)\<lparr>backing := set_span a n None (backing (V d))\<rparr>"
    "cuMemAddressReserve drv n al hint d = Some (a, d') \<Longrightarrow>
       a + n \<le> 2 ^ 64 \<and> span a n \<inter> reserved (V d) = {} \<and> V d' = (V d)\<lparr>reserved := reserved (V d) \<union> span a n\<rparr>"
    "cuMemAddressFree drv a n d = Some d' \<Longrightarrow> V d' = (V d)\<lparr>reserved := reserved (V d) - span a n\<rparr>"
    "cudaFree drv d = Some d' \<Longrightarrow> V d' = V d"
  using assms by (simp_all add: driver_laws_def)

lemma set_span_idem [simp]: "set_span a n v (set_span a n u b) = set_span a n v b"
  by (auto simp: set_span_def)

section \<open>The invariant\<close>

fun handle :: "page \<Rightarrow> nat" where
  "handle (GPUPage _ _ h) = h"
| "handle (CPUPage _ _) = 0"

fun gpu :: "page \<Rightarrow> bool" where
  "gpu (GPUPage _ _ _) = True"
| "gpu (CPUPage _ _) = False"

abbreviation rng :: "ftensor \<Rightarrow> nat set" where
  "rng t \<equiv> span (ft_vaddr t) (ft_size t)"

definition own :: "ftensor \<Rightarrow> nat set" where
  "own t = (handle \<circ> snd) ` set (ft_mapping t)"

definition zero_handle :: "'d vmm \<Rightarrow> nat \<Rightarrow> nat option" where
  "zero_handle w z = map_option (handle \<circ> fst) (shared_pages w z)"

text \<open>The allocation that backs page \<open>p\<close> of a tensor: its own page, or the zero page.\<close>

definition page_handle :: "'d vmm \<Rightarrow> ftensor \<Rightarrow> int \<Rightarrow> nat option" where
  "page_handle w t p = (case map_of (ft_mapping t) p of Some pg \<Rightarrow> Some (handle pg) | None \<Rightarrow> zero_handle w (ft_zero t))"

definition page_index :: "'d vmm \<Rightarrow> ftensor \<Rightarrow> nat \<Rightarrow> int" where
  "page_index w t x = int ((x - ft_vaddr t) div kPageSize w)"

definition ft_inv :: "('d \<Rightarrow> view) \<Rightarrow> 'd vmm \<Rightarrow> ftensor \<Rightarrow> bool" where
  "ft_inv V w t \<longleftrightarrow> (\<exists>i. ft_dev t = Cuda i) \<and> page_aligned w (ft_size t) \<and> ft_vaddr t + ft_size t \<le> 2 ^ 64 \<and>
     distinct (map fst (ft_mapping t)) \<and> distinct (map (handle \<circ> snd) (ft_mapping t)) \<and> (\<forall>e \<in> set (ft_mapping t). gpu (snd e)) \<and>
     shared_pages w (ft_zero t) \<noteq> None \<and> rng t \<subseteq> reserved (V (cuda w)) \<and>
     (\<forall>x \<in> rng t. backing (V (cuda w)) x = page_handle w t (page_index w t x))"

text \<open>At most one element has the property.\<close>

definition single :: "('a \<Rightarrow> bool) \<Rightarrow> 'a list \<Rightarrow> bool" where
  "single P xs \<longleftrightarrow> length (filter P xs) \<le> 1"

text \<open>The owners of a shared page: tensors, and the pointers held elsewhere (\<open>zs\<close>).\<close>

definition holders :: "ftensor list \<Rightarrow> nat list \<Rightarrow> nat \<Rightarrow> nat" where
  "holders ts zs z = length (filter (\<lambda>t. ft_zero t = z) ts) + count_list zs z"

definition refs :: "'d vmm \<Rightarrow> nat \<Rightarrow> nat" where
  "refs w z = (case shared_pages w z of None \<Rightarrow> 0 | Some (_, n) \<Rightarrow> n)"

definition vmm_inv :: "('d \<Rightarrow> view) \<Rightarrow> 'd vmm \<Rightarrow> ftensor list \<Rightarrow> nat list \<Rightarrow> bool" where
  "vmm_inv V w ts zs \<longleftrightarrow> base_page_size dvd kPageSize w \<and>
     (\<forall>t \<in> set ts. ft_inv V w t \<and> own t \<subseteq> live (V (cuda w))) \<and>
     (\<forall>x. single (\<lambda>t. x \<in> rng t) ts) \<and> (\<forall>h. single (\<lambda>t. h \<in> own t) ts) \<and>
     (\<forall>z p n. shared_pages w z = Some (p, n) \<longrightarrow> gpu p \<and> handle p \<in> live (V (cuda w)) \<and> (\<forall>t \<in> set ts. handle p \<notin> own t)) \<and>
     (\<forall>z z' h. zero_handle w z = Some h \<longrightarrow> zero_handle w z' = Some h \<longrightarrow> z = z') \<and>
     (\<forall>z. holders ts zs z \<le> refs w z) \<and> (\<forall>z \<ge> next_shared w. shared_pages w z = None)"

lemma vmm_invI:
  assumes "base_page_size dvd kPageSize w" "\<And>t. t \<in> set ts \<Longrightarrow> ft_inv V w t \<and> own t \<subseteq> live (V (cuda w))"
    "\<And>x. single (\<lambda>t. x \<in> rng t) ts" "\<And>h. single (\<lambda>t. h \<in> own t) ts"
    "\<And>z p n. shared_pages w z = Some (p, n) \<Longrightarrow> gpu p \<and> handle p \<in> live (V (cuda w)) \<and> (\<forall>t \<in> set ts. handle p \<notin> own t)"
    "\<And>z z' h. zero_handle w z = Some h \<Longrightarrow> zero_handle w z' = Some h \<Longrightarrow> z = z'"
    "\<And>z. holders ts zs z \<le> refs w z" "\<And>z. z \<ge> next_shared w \<Longrightarrow> shared_pages w z = None"
  shows "vmm_inv V w ts zs"
  unfolding vmm_inv_def using assms by blast

lemma vmm_invD:
  assumes "vmm_inv V w ts zs"
  shows "base_page_size dvd kPageSize w" "t \<in> set ts \<Longrightarrow> ft_inv V w t" "t \<in> set ts \<Longrightarrow> own t \<subseteq> live (V (cuda w))"
    "single (\<lambda>t. x \<in> rng t) ts" "single (\<lambda>t. h \<in> own t) ts"
    "shared_pages w z = Some (p, n) \<Longrightarrow> gpu p" "shared_pages w z = Some (p, n) \<Longrightarrow> handle p \<in> live (V (cuda w))"
    "shared_pages w z = Some (p, n) \<Longrightarrow> t \<in> set ts \<Longrightarrow> handle p \<notin> own t"
    "zero_handle w z = Some h \<Longrightarrow> zero_handle w z' = Some h \<Longrightarrow> z = z'"
    "holders ts zs z \<le> refs w z" "z \<ge> next_shared w \<Longrightarrow> shared_pages w z = None"
  using assms by (simp_all add: vmm_inv_def) blast+

lemma single_Cons: "single P (x # xs) \<longleftrightarrow> (if P x then \<forall>y \<in> set xs. \<not> P y else single P xs)"
  by (auto simp: single_def filter_empty_conv)

lemma single_perm: "mset xs = mset ys \<Longrightarrow> single P xs \<longleftrightarrow> single P ys"
  unfolding single_def by (metis mset_filter size_mset)

lemma vmm_inv_perm:
  assumes "mset ts = mset ts'" shows "vmm_inv V w ts zs \<longleftrightarrow> vmm_inv V w ts' zs"
proof -
  have "holders ts zs z = holders ts' zs z" for z
    using assms unfolding holders_def by (metis mset_filter size_mset)
  then show ?thesis using mset_eq_setD [OF assms] single_perm [OF assms] unfolding vmm_inv_def by simp
qed

section \<open>Frame lemmas\<close>

lemma ft_inv_frame:
  assumes "ft_inv V w t" "kPageSize w' = kPageSize w" "zero_handle w' (ft_zero t) = zero_handle w (ft_zero t)"
    and "rng t \<subseteq> reserved (V (cuda w'))" "\<And>x. x \<in> rng t \<Longrightarrow> backing (V (cuda w')) x = backing (V (cuda w)) x"
  shows "ft_inv V w' t"
proof -
  have "page_handle w' t p = page_handle w t p" "page_index w' t x = page_index w t x" for p x
    using assms(2,3) by (simp_all add: page_handle_def page_index_def split: option.splits)
  moreover have "shared_pages w' (ft_zero t) \<noteq> None" using assms(1,3) by (auto simp: ft_inv_def zero_handle_def)
  ultimately show ?thesis using assms unfolding ft_inv_def page_aligned_def by simp
qed

lemma page_map_gpu:
  assumes "driver_laws drv V" "page_map drv p a True w = Some (ok, p', w')" "gpu p"
  shows "ok \<and> p' = p \<and> w' = w\<lparr>cuda := cuda w'\<rparr> \<and>
    V (cuda w') = (V (cuda w))\<lparr>backing := set_span a (kPageSize w) (Some (handle p)) (backing (V (cuda w)))\<rparr>"
  using assms(2,3) laws(3,4) [OF assms(1)]
  by (cases p) (auto simp: page_map_def split: Option.bind_splits)

lemma page_delete_gpu:
  assumes "driver_laws drv V" "page_delete drv p w = Some w'" "gpu p"
  shows "w' = w\<lparr>cuda := cuda w'\<rparr> \<and> V (cuda w') = (V (cuda w))\<lparr>live := live (V (cuda w)) - {handle p}\<rparr>"
  using assms(2,3) laws(2) [OF assms(1)] by (cases p) (auto simp: page_delete_def)

lemma make_page_gpu:
  assumes "driver_laws drv V" "make_page drv (Cuda i) n w = Some (p, w')"
  shows "p = GPUPage n i (handle p) \<and> w' = w\<lparr>cuda := cuda w'\<rparr> \<and> handle p \<notin> live (V (cuda w)) \<and>
    V (cuda w') = (V (cuda w))\<lparr>live := insert (handle p) (live (V (cuda w)))\<rparr>"
  using assms(2) laws(1) [OF assms(1)] by (auto simp: make_page_def gpu_page_new_def split: Option.bind_splits)

lemma map_zero_gpu:
  assumes "driver_laws drv V" "map_zero drv t off True w = Some (ok, w')" "shared_pages w (ft_zero t) = Some (p, n)" "gpu p"
  shows "ok \<and> w' = w\<lparr>cuda := cuda w'\<rparr> \<and>
    V (cuda w') = (V (cuda w))\<lparr>backing := set_span (wrap64 (ft_vaddr t + as_size off)) (kPageSize w) (Some (handle p)) (backing (V (cuda w)))\<rparr>"
proof -
  obtain ok' p' w1 where pm: "page_map drv p (wrap64 (ft_vaddr t + as_size off)) True w = Some (ok', p', w1)"
    and r: "ok = ok'" "w' = w1\<lparr>shared_pages := (shared_pages w1)(ft_zero t \<mapsto> (p', n))\<rparr>"
    using assms(2,3) by (auto simp: map_zero_def ensure_def assertion_def split: Option.bind_splits if_splits)
  note g = page_map_gpu [OF assms(1) pm assms(4)]
  then have "shared_pages w1 = shared_pages w" "p' = p" by (metis vmm.surjective vmm.select_convs(5) vmm.update_convs(1), simp)
  then have "w' = w1" using r(2) assms(3) by (simp add: map_upd_triv)
  then show ?thesis using g r(1) by simp
qed

section \<open>Mapping and unmapping a page\<close>

definition valid_offset :: "'d vmm \<Rightarrow> ftensor \<Rightarrow> int \<Rightarrow> bool" where
  "valid_offset w t off \<longleftrightarrow> as_size off < ft_size t \<and> as_size off mod kPageSize w = 0"

lemma offset_facts:
  assumes "ft_inv V w t" "valid_offset w t off" "base_page_size dvd kPageSize w"
  shows "wrap64 (ft_vaddr t + as_size off) = ft_vaddr t + as_size off" "page_aligned w (as_size off)"
    "page_id_of (kPageSize w) off = int (as_size off div kPageSize w)" "span (ft_vaddr t + as_size off) (kPageSize w) \<subseteq> rng t"
proof -
  let ?k = "kPageSize w"
  have b: "as_size off < ft_size t" "ft_vaddr t + ft_size t \<le> 2 ^ 64" "?k \<noteq> 0" "ft_size t mod ?k = 0" "as_size off mod ?k = 0"
    using assms(1,2) by (auto simp: ft_inv_def valid_offset_def page_aligned_def)
  show "wrap64 (ft_vaddr t + as_size off) = ft_vaddr t + as_size off" using b(1,2) by (simp add: wrap64_def)
  show "page_aligned w (as_size off)" using b(3,5) by (simp add: page_aligned_def)
  have k2: "2 \<le> ?k" using assms(3) b(3) dvd_imp_le [of base_page_size ?k] by (simp add: base_page_size_def)
  have "as_size off div ?k \<le> as_size off div 2" by (rule div_le_mono2) (use k2 in auto)
  also have "\<dots> < 2 ^ 63" using b(1,2) by (simp add: less_mult_imp_div_less)
  finally have lt: "as_size off div ?k < 2 ^ 63" .
  have "int (as_size off div ?k) < 2 ^ 63" using lt by (metis of_nat_less_iff of_nat_numeral of_nat_power)
  then have "in_i64 (int (as_size off div ?k))" unfolding in_i64_def by linarith
  then show "page_id_of ?k off = int (as_size off div ?k)" unfolding page_id_of_def by (rule i64_id)
  obtain m q where m: "ft_size t = ?k * m" "as_size off = ?k * q" using b(4,5) by (auto elim!: dvdE simp: mod_eq_0_iff_dvd)
  then have "q < m" using b(1) by simp
  then have "?k * q + ?k \<le> ?k * m" by (metis Suc_leI mult_Suc_right add.commute mult_le_mono2)
  then show "span (ft_vaddr t + as_size off) ?k \<subseteq> rng t" using m by (auto simp: span_def)
qed

lemma in_page_iff:
  assumes "x \<in> rng t" "0 < k" "off mod k = (0 :: nat)"
  shows "x \<in> span (ft_vaddr t + off) k \<longleftrightarrow> (x - ft_vaddr t) div k = off div k"
proof -
  obtain q where q: "off = k * q" using assms(3) by (auto elim!: dvdE simp: mod_eq_0_iff_dvd)
  have "x \<in> span (ft_vaddr t + off) k \<longleftrightarrow> k * q \<le> x - ft_vaddr t \<and> x - ft_vaddr t < k * q + k"
    using assms(1) q by (auto simp: span_def)
  also have "\<dots> \<longleftrightarrow> (x - ft_vaddr t) div k = q"
    using assms(2) by (metis add.commute div_nat_eqI dividend_less_times_div mult.commute mult_Suc_right times_div_less_eq_dividend)
  finally show ?thesis using q assms(2) by simp
qed

lemma ftensor_map_effect:
  assumes L: "driver_laws drv V" and inv: "ft_inv V w t" "valid_offset w t off" "base_page_size dvd kPageSize w"
    and run: "ftensor_map drv t off w = Some (ok, t', w')"
  shows "\<not> ok \<and> t' = t \<and> w' = w \<and> map_of (ft_mapping t) (int (as_size off div kPageSize w)) \<noteq> None \<or>
    ok \<and> map_of (ft_mapping t) (int (as_size off div kPageSize w)) = None \<and> w' = w\<lparr>cuda := cuda w'\<rparr> \<and>
    (\<exists>p. gpu p \<and> t' = t\<lparr>ft_mapping := (int (as_size off div kPageSize w), p) # ft_mapping t\<rparr> \<and> handle p \<notin> live (V (cuda w)) \<and>
      V (cuda w') = (V (cuda w))\<lparr>live := insert (handle p) (live (V (cuda w))),
        backing := set_span (ft_vaddr t + as_size off) (kPageSize w) (Some (handle p)) (backing (V (cuda w)))\<rparr>)"
proof (cases "map_of (ft_mapping t) (int (as_size off div kPageSize w))")
  case None
  note facts = offset_facts [OF inv]
  obtain i where dev: "ft_dev t = Cuda i" using inv(1) by (auto simp: ft_inv_def)
  obtain d1 p w1 ok1 p' w2 where
    u: "cuMemUnmap drv (ft_vaddr t + as_size off) (kPageSize w) (cuda w) = Some d1" and
    m: "make_page drv (Cuda i) (int (as_size off div kPageSize w)) (w\<lparr>cuda := d1\<rparr>) = Some (p, w1)" and
    g: "page_map drv p (ft_vaddr t + as_size off) True w1 = Some (ok1, p', w2)" and
    r: "ok" "t' = t\<lparr>ft_mapping := (int (as_size off div kPageSize w), p') # ft_mapping t\<rparr>" "w' = w2"
    using run None facts dev by (auto simp: ftensor_map_def ensure_def assertion_def Let_def split: Option.bind_splits)
  note U = laws(5) [OF L u] and M = make_page_gpu [OF L m]
  have "gpu p" using M by (metis gpu.simps(1))
  note G = page_map_gpu [OF L g this]
  have k: "kPageSize w1 = kPageSize w" "w1 = w\<lparr>cuda := cuda w1\<rparr>" using M by (metis vmm.select_convs(2) vmm.surjective vmm.update_convs(1), metis vmm.surjective vmm.update_convs(1) vmm.select_convs(1))
  have "w2 = w\<lparr>cuda := cuda w2\<rparr>" using G k(2) by (metis vmm.surjective vmm.update_convs(1))
  moreover have "V (cuda w2) = (V (cuda w))\<lparr>live := insert (handle p) (live (V (cuda w))),
        backing := set_span (ft_vaddr t + as_size off) (kPageSize w) (Some (handle p)) (backing (V (cuda w)))\<rparr>"
    using G M U k(1) by simp
  moreover have "handle p \<notin> live (V (cuda w))" using M U by simp
  ultimately show ?thesis using r G \<open>gpu p\<close> None by (intro disjI2) auto
next
  case (Some q)
  then show ?thesis using run offset_facts [OF inv] by (auto simp: ftensor_map_def ensure_def assertion_def Let_def split: Option.bind_splits)
qed

lemma ftensor_unmap_effect:
  assumes L: "driver_laws drv V" and inv: "ft_inv V w t" "valid_offset w t off" "base_page_size dvd kPageSize w"
    and z: "shared_pages w (ft_zero t) = Some (zp, n)" "gpu zp"
    and run: "ftensor_unmap drv t off w = Some (ok, t', w')"
  shows "\<not> ok \<and> t' = t \<and> w' = w \<and> map_of (ft_mapping t) (int (as_size off div kPageSize w)) = None \<or>
    ok \<and> w' = w\<lparr>cuda := cuda w'\<rparr> \<and> t' = t\<lparr>ft_mapping := filter (\<lambda>e. fst e \<noteq> int (as_size off div kPageSize w)) (ft_mapping t)\<rparr> \<and>
    (\<exists>p. map_of (ft_mapping t) (int (as_size off div kPageSize w)) = Some p \<and>
      V (cuda w') = (V (cuda w))\<lparr>live := live (V (cuda w)) - {handle p},
        backing := set_span (ft_vaddr t + as_size off) (kPageSize w) (Some (handle zp)) (backing (V (cuda w)))\<rparr>)"
proof (cases "map_of (ft_mapping t) (int (as_size off div kPageSize w))")
  case (Some p)
  note facts = offset_facts [OF inv]
  obtain d1 ok1 w1 w2 where
    u: "cuMemUnmap drv (ft_vaddr t + as_size off) (kPageSize w) (cuda w) = Some d1" and
    m: "map_zero drv t off True (w\<lparr>cuda := d1\<rparr>) = Some (ok1, w1)" and
    g: "page_delete drv p w1 = Some w2" and
    r: "ok" "t' = t\<lparr>ft_mapping := filter (\<lambda>e. fst e \<noteq> int (as_size off div kPageSize w)) (ft_mapping t)\<rparr>" "w' = w2"
    using run Some facts by (auto simp: ftensor_unmap_def ensure_def assertion_def Let_def split: Option.bind_splits)
  have "gpu p" using inv(1) map_of_SomeD [OF Some] by (auto simp: ft_inv_def)
  note U = laws(5) [OF L u] and G = page_delete_gpu [OF L g this]
  have z': "shared_pages (w\<lparr>cuda := d1\<rparr>) (ft_zero t) = Some (zp, n)" using z by simp
  note M = map_zero_gpu [OF L m z' z(2)]
  have w1: "w1 = w\<lparr>cuda := cuda w1\<rparr>" using M by (metis vmm.surjective vmm.update_convs(1))
  have "w2 = w\<lparr>cuda := cuda w2\<rparr>" using G w1 by (metis vmm.surjective vmm.update_convs(1))
  then show ?thesis using r G M U Some facts by (intro disjI2) simp
next
  case None
  then show ?thesis using run offset_facts [OF inv] by (auto simp: ftensor_unmap_def ensure_def assertion_def Let_def split: Option.bind_splits)
qed

lemma vmm_inv_update:
  assumes inv: "vmm_inv V w (t # ts) zs" and w': "w' = w\<lparr>cuda := cuda w'\<rparr>" and t': "t' = t\<lparr>ft_mapping := m\<rparr>"
    and ft: "ft_inv V w' t'" and res: "reserved (V (cuda w')) = reserved (V (cuda w))"
    and bk: "\<And>x. x \<notin> rng t \<Longrightarrow> backing (V (cuda w')) x = backing (V (cuda w)) x"
    and fresh: "own t' \<subseteq> own t \<union> - live (V (cuda w))"
    and live: "live (V (cuda w')) = live (V (cuda w)) - (own t - own t') \<union> own t'"
  shows "vmm_inv V w' (t' # ts) zs"
proof -
  have eq: "kPageSize w' = kPageSize w" "shared_pages w' = shared_pages w" "next_shared w' = next_shared w"
    by (subst w', simp)+
  then have zh: "zero_handle w' = zero_handle w" "refs w' = refs w" by (auto simp: zero_handle_def refs_def fun_eq_iff)
  have rng: "rng t' = rng t" "ft_zero t' = ft_zero t" using t' by simp_all
  have ts: "s \<in> set ts \<Longrightarrow> ft_inv V w s \<and> own s \<subseteq> live (V (cuda w)) \<and> own s \<inter> own t = {} \<and> rng s \<inter> rng t = {}" for s
    using inv by (auto simp: vmm_inv_def single_Cons split: if_splits)
  have A: "ft_inv V w' s \<and> own s \<subseteq> live (V (cuda w'))" if "s \<in> set ts" for s
  proof (intro conjI ft_inv_frame [of V w s w'])
    show "rng s \<subseteq> reserved (V (cuda w'))" using ts [OF that] res by (simp add: ft_inv_def)
    show "backing (V (cuda w')) x = backing (V (cuda w)) x" if "x \<in> rng s" for x using bk ts [OF \<open>s \<in> set ts\<close>] that by blast
    show "own s \<subseteq> live (V (cuda w'))" using ts [OF that] live by blast
  qed (use ts [OF that] eq(1) zh in simp_all)
  have B: "single (\<lambda>t. x \<in> rng t) (t' # ts)" for x using inv rng by (simp add: vmm_inv_def single_Cons)
  have C: "single (\<lambda>t. h \<in> own t) (t' # ts)" for h
  proof (cases "h \<in> own t'")
    case True
    then have "h \<notin> own s" if "s \<in> set ts" for s using ts [OF that] fresh by blast
    then show ?thesis using True by (simp add: single_Cons)
  next
    case False
    have "single (\<lambda>t. h \<in> own t) (t # ts)" using inv by (simp add: vmm_inv_def)
    then have "single (\<lambda>t. h \<in> own t) ts" by (auto simp: single_def split: if_splits)
    then show ?thesis using False by (simp add: single_Cons)
  qed
  have D: "gpu p \<and> handle p \<in> live (V (cuda w')) \<and> (\<forall>s \<in> set (t' # ts). handle p \<notin> own s)"
    if "shared_pages w' z = Some (p, n)" for z p n
  proof -
    have "shared_pages w z = Some (p, n)" using that eq(2) by simp
    note G = vmm_invD(6,7) [OF inv this] vmm_invD(8) [OF inv this]
    then show ?thesis using fresh live by auto
  qed
  have E: "holders (t' # ts) zs z \<le> refs w' z" for z
  proof -
    have "holders (t' # ts) zs z = holders (t # ts) zs z" by (simp add: holders_def rng)
    then show ?thesis using inv zh unfolding vmm_inv_def by simp
  qed
  show ?thesis
  proof (rule vmm_invI)
    show "ft_inv V w' s \<and> own s \<subseteq> live (V (cuda w'))" if "s \<in> set (t' # ts)" for s using A ft live that by auto
    show "z = z'" if "zero_handle w' z = Some h" "zero_handle w' z' = Some h" for z z' h
      using vmm_invD(9) [OF inv] that unfolding zh by blast
    show "shared_pages w' z = None" if "next_shared w' \<le> z" for z using vmm_invD(11) [OF inv] that unfolding eq by blast
    show "base_page_size dvd kPageSize w'" using vmm_invD(1) [OF inv] unfolding eq .
  qed (fact B C D E)+
qed

lemma rng_same: "rng (t\<lparr>ft_mapping := m\<rparr>) = rng t"
  by simp

lemma vmm_inv_map:
  assumes L: "driver_laws drv V" and inv: "vmm_inv V w (t # ts) zs" and off: "valid_offset w t off"
    and run: "ftensor_map drv t off w = Some (ok, t', w')"
  shows "vmm_inv V w' (t' # ts) zs \<and> kPageSize w' = kPageSize w \<and> (\<exists>m. t' = t\<lparr>ft_mapping := m\<rparr>)"
proof -
  let ?k = "kPageSize w" and ?q = "int (as_size off div kPageSize w)"
  have ft: "ft_inv V w t" "base_page_size dvd ?k" "own t \<subseteq> live (V (cuda w))" using inv by (auto simp: vmm_inv_def)
  note facts = offset_facts [OF ft(1) off ft(2)]
  from ftensor_map_effect [OF L ft(1) off ft(2) run] consider
    "t' = t" "w' = w" |
    p where "gpu p" "map_of (ft_mapping t) ?q = None" "w' = w\<lparr>cuda := cuda w'\<rparr>" "t' = t\<lparr>ft_mapping := (?q, p) # ft_mapping t\<rparr>"
      "handle p \<notin> live (V (cuda w))" "V (cuda w') = (V (cuda w))\<lparr>live := insert (handle p) (live (V (cuda w))),
        backing := set_span (ft_vaddr t + as_size off) ?k (Some (handle p)) (backing (V (cuda w)))\<rparr>" by blast
  then show ?thesis
  proof cases
    case 1 then show ?thesis using inv by (auto intro!: exI [of _ "ft_mapping t"])
  next
    case (2 p)
    have k: "kPageSize w' = ?k" "shared_pages w' = shared_pages w" by (subst 2(3), simp)+
    have own: "own t' = insert (handle p) (own t)" using 2(4) by (auto simp: own_def)
    have "backing (V (cuda w')) x = page_handle w' t' (page_index w' t' x)" if x: "x \<in> rng t" for x
    proof -
      have "x \<in> span (ft_vaddr t + as_size off) ?k \<longleftrightarrow> page_index w t x = ?q"
        using in_page_iff [OF x, of ?k "as_size off"] off ft(1) by (simp add: page_index_def valid_offset_def ft_inv_def page_aligned_def)
      moreover have "backing (V (cuda w)) x = page_handle w t (page_index w t x)" using ft(1) x by (simp add: ft_inv_def)
      moreover have "page_index w' t' x = page_index w t x" using 2(4) k by (simp add: page_index_def)
      moreover have "zero_handle w' = zero_handle w" using k(2) by (simp add: zero_handle_def fun_eq_iff)
      ultimately show ?thesis using 2(4,6) by (simp add: set_span_def page_handle_def split: option.split)
    qed
    moreover have "?q \<notin> fst ` set (ft_mapping t)" using 2(2) by (simp add: map_of_eq_None_iff)
    moreover have "handle p \<notin> (handle \<circ> snd) ` set (ft_mapping t)" using 2(5) ft(3) by (auto simp: own_def)
    ultimately have "ft_inv V w' t'" using ft(1) 2(1,4,6) k unfolding ft_inv_def page_aligned_def by (simp add: image_comp)
    moreover have "x \<notin> rng t \<Longrightarrow> backing (V (cuda w')) x = backing (V (cuda w)) x" for x
      using facts(4) 2(6) by (auto simp: set_span_def)
    ultimately have "vmm_inv V w' (t' # ts) zs"
      by (intro vmm_inv_update [OF inv 2(3,4)]) (use 2(5,6) own ft(3) in auto)
    then show ?thesis using k(1) 2(4) by blast
  qed
qed

lemma map_of_unique: "distinct (map fst m) \<Longrightarrow> e \<in> set m \<Longrightarrow> map_of m (fst e) = Some (snd e)"
  by (metis map_of_is_SomeI prod.collapse)

lemma map_of_filter_neq: "r \<noteq> q \<Longrightarrow> map_of (filter (\<lambda>e. fst e \<noteq> q) m) r = map_of m r"
  by (induction m) auto

lemma own_filter:
  assumes "ft_inv V w t" "map_of (ft_mapping t) q = Some p"
  shows "(handle \<circ> snd) ` set (filter (\<lambda>e. fst e \<noteq> q) (ft_mapping t)) = own t - {handle p}"
proof -
  have d: "distinct (map fst (ft_mapping t))" "inj_on (handle \<circ> snd) (set (ft_mapping t))"
    using assms(1) by (auto simp: ft_inv_def distinct_map)
  have "fst e = q \<longleftrightarrow> (handle \<circ> snd) e = handle p" if "e \<in> set (ft_mapping t)" for e
  proof -
    have q: "(q, p) \<in> set (ft_mapping t)" using assms(2) by (rule map_of_SomeD)
    have "fst e = q \<longleftrightarrow> e = (q, p)" using map_of_unique [OF d(1) that] assms(2) by (metis fst_conv option.inject prod.collapse)
    also have "\<dots> \<longleftrightarrow> (handle \<circ> snd) e = (handle \<circ> snd) (q, p)" using inj_on_eq_iff [OF d(2) that q] by simp
    finally show ?thesis by simp
  qed
  then show ?thesis by (auto simp: own_def)
qed

lemma vmm_inv_unmap:
  assumes L: "driver_laws drv V" and inv: "vmm_inv V w (t # ts) zs" and off: "valid_offset w t off"
    and run: "ftensor_unmap drv t off w = Some (ok, t', w')"
  shows "vmm_inv V w' (t' # ts) zs \<and> kPageSize w' = kPageSize w \<and> (\<exists>m. t' = t\<lparr>ft_mapping := m\<rparr>)"
proof -
  let ?k = "kPageSize w" and ?q = "int (as_size off div kPageSize w)"
  have ft: "ft_inv V w t" "base_page_size dvd ?k" "own t \<subseteq> live (V (cuda w))" using inv by (auto simp: vmm_inv_def)
  note facts = offset_facts [OF ft(1) off ft(2)]
  obtain zg n where z: "shared_pages w (ft_zero t) = Some (zg, n)" using ft(1) by (auto simp: ft_inv_def)
  then have zh: "gpu zg" "zero_handle w (ft_zero t) = Some (handle zg)" using vmm_invD(6) [OF inv z] by (simp_all add: zero_handle_def)
  from ftensor_unmap_effect [OF L ft(1) off ft(2) z zh(1) run] consider
    "t' = t" "w' = w" |
    p where "map_of (ft_mapping t) ?q = Some p" "w' = w\<lparr>cuda := cuda w'\<rparr>" "t' = t\<lparr>ft_mapping := filter (\<lambda>e. fst e \<noteq> ?q) (ft_mapping t)\<rparr>"
      "V (cuda w') = (V (cuda w))\<lparr>live := live (V (cuda w)) - {handle p},
        backing := set_span (ft_vaddr t + as_size off) ?k (Some (handle zg)) (backing (V (cuda w)))\<rparr>" by blast
  then show ?thesis
  proof cases
    case 1 then show ?thesis using inv by (auto intro!: exI [of _ "ft_mapping t"])
  next
    case (2 p)
    have k: "kPageSize w' = ?k" "shared_pages w' = shared_pages w" by (subst 2(2), simp)+
    have own: "own t' = own t - {handle p}" using own_filter [OF ft(1) 2(1)] 2(3) by (simp add: own_def)
    have look: "map_of (ft_mapping t') r = (if r = ?q then None else map_of (ft_mapping t) r)" for r
      using 2(3) by (auto simp: map_of_eq_None_iff map_of_filter_neq)
    have "backing (V (cuda w')) x = page_handle w' t' (page_index w' t' x)" if x: "x \<in> rng t" for x
    proof -
      have "x \<in> span (ft_vaddr t + as_size off) ?k \<longleftrightarrow> page_index w t x = ?q"
        using in_page_iff [OF x, of ?k "as_size off"] off ft(1) by (simp add: page_index_def valid_offset_def ft_inv_def page_aligned_def)
      moreover have "backing (V (cuda w)) x = page_handle w t (page_index w t x)" using ft(1) x by (simp add: ft_inv_def)
      moreover have "page_index w' t' x = page_index w t x" "ft_zero t' = ft_zero t" using 2(3) k by (simp_all add: page_index_def)
      moreover have "zero_handle w' = zero_handle w" using k(2) by (simp add: zero_handle_def fun_eq_iff)
      ultimately show ?thesis using 2(4) zh(2) by (simp add: set_span_def page_handle_def look split: option.split)
    qed
    moreover have "distinct (map fst (ft_mapping t'))" "distinct (map (handle \<circ> snd) (ft_mapping t'))"
      using ft(1) 2(3) by (auto simp: ft_inv_def intro: distinct_map_filter)
    ultimately have "ft_inv V w' t'" using ft(1) 2(3,4) k unfolding ft_inv_def page_aligned_def by simp
    moreover have "x \<notin> rng t \<Longrightarrow> backing (V (cuda w')) x = backing (V (cuda w)) x" for x
      using facts(4) 2(4) by (auto simp: set_span_def)
    moreover have "handle p \<in> own t" using map_of_SomeD [OF 2(1)] by (force simp: own_def)
    ultimately have "vmm_inv V w' (t' # ts) zs"
      by (intro vmm_inv_update [OF inv 2(2,3)]) (use 2(4) own ft(3) in auto)
    then show ?thesis using k(1) 2(3) by blast
  qed
qed

section \<open>Shared pages\<close>

lemma vmm_inv_frame:
  assumes inv: "vmm_inv V w ts zs" and eq: "kPageSize w' = kPageSize w" "shared_pages w' = shared_pages w" "next_shared w' = next_shared w"
    and V: "live (V (cuda w')) = live (V (cuda w))" "\<And>t. t \<in> set ts \<Longrightarrow> rng t \<subseteq> reserved (V (cuda w'))"
    "\<And>t x. t \<in> set ts \<Longrightarrow> x \<in> rng t \<Longrightarrow> backing (V (cuda w')) x = backing (V (cuda w)) x"
  shows "vmm_inv V w' ts zs"
proof -
  have zh: "zero_handle w' = zero_handle w" "refs w' = refs w" using eq(2) by (auto simp: zero_handle_def refs_def fun_eq_iff)
  have "ft_inv V w' t" if "t \<in> set ts" for t
    using ft_inv_frame [OF vmm_invD(2) [OF inv that] eq(1)] V(2,3) that zh by simp
  then show ?thesis using inv V(1) zh eq unfolding vmm_inv_def by auto
qed

lemma vmm_inv_shared_copy:
  assumes inv: "vmm_inv V w ts zs" and run: "shared_copy z w = Some w'"
  shows "vmm_inv V w' ts (z # zs) \<and> kPageSize w' = kPageSize w \<and> zero_handle w' = zero_handle w"
proof -
  obtain p n where z: "shared_pages w z = Some (p, n)" and w': "w' = w\<lparr>shared_pages := (shared_pages w)(z \<mapsto> (p, n + 1))\<rparr>"
    using run by (auto simp: shared_copy_def split: Option.bind_splits)
  have zh: "zero_handle w' = zero_handle w" using z w' by (auto simp: zero_handle_def fun_eq_iff)
  have k: "kPageSize w' = kPageSize w" "cuda w' = cuda w" "next_shared w' = next_shared w" using w' by simp_all
  have "vmm_inv V w' ts (z # zs)"
  proof (rule vmm_invI)
    show "ft_inv V w' t \<and> own t \<subseteq> live (V (cuda w'))" if "t \<in> set ts" for t
      using ft_inv_frame [OF vmm_invD(2) [OF inv that] k(1)] vmm_invD(2,3) [OF inv that] zh k(2) by (simp add: ft_inv_def)
    show "gpu q \<and> handle q \<in> live (V (cuda w')) \<and> (\<forall>t \<in> set ts. handle q \<notin> own t)" if y: "shared_pages w' y = Some (q, m)" for y q m
    proof -
      obtain m' where "shared_pages w y = Some (q, m')" using y z w' by (auto split: if_splits)
      note D = vmm_invD(6,7) [OF inv this] vmm_invD(8) [OF inv this]
      then show ?thesis using k(2) by simp
    qed
    show "holders ts (z # zs) y \<le> refs w' y" for y
      using vmm_invD(10) [OF inv, of y] z w' by (auto simp: holders_def refs_def)
    show "x = y" if "zero_handle w' x = Some h" "zero_handle w' y = Some h" for x y h
      using vmm_invD(9) [OF inv] that unfolding zh by blast
    show "shared_pages w' y = None" if "next_shared w' \<le> y" for y
      using vmm_invD(11) [OF inv, of y] that z w' by (auto split: if_splits)
  qed (use vmm_invD(1,4,5) [OF inv] k in simp_all)
  then show ?thesis using k zh by simp
qed

lemma vmm_inv_shared_reset:
  assumes L: "driver_laws drv V" and inv: "vmm_inv V w ts (z # zs)" and run: "shared_reset drv z w = Some w'"
  shows "vmm_inv V w' ts zs \<and> kPageSize w' = kPageSize w \<and> reserved (V (cuda w')) = reserved (V (cuda w))"
proof -
  obtain p n where z: "shared_pages w z = Some (p, n)" using run by (auto simp: shared_reset_def split: Option.bind_splits)
  note Z = vmm_invD(6,7) [OF inv z] vmm_invD(8) [OF inv z]
  have ref: "holders ts (z # zs) z \<le> n" using vmm_invD(10) [OF inv, of z] z by (simp add: refs_def)
  define sh where "sh = (shared_pages w)(z := if n = 1 then None else Some (p, n - 1))"
  have eff: "kPageSize w' = kPageSize w \<and> shared_pages w' = sh \<and> next_shared w' = next_shared w \<and>
    V (cuda w') = (V (cuda w))\<lparr>live := live (V (cuda w)) - (if n = 1 then {handle p} else {})\<rparr>"
  proof (cases "n = 1")
    case True
    then have "page_delete drv p (w\<lparr>shared_pages := (shared_pages w)(z := None)\<rparr>) = Some w'" using run z by (simp add: shared_reset_def)
    note D = page_delete_gpu [OF L this Z(1)]
    have "kPageSize w' = kPageSize w" "shared_pages w' = sh" "next_shared w' = next_shared w"
      by (subst conjunct1 [OF D], simp add: sh_def True)+
    then show ?thesis using D True by simp
  next
    case False then show ?thesis using run z by (auto simp: shared_reset_def sh_def)
  qed
  have other: "zero_handle w' y = zero_handle w y" if "y \<noteq> z \<or> n \<noteq> 1" for y
    using that eff z by (auto simp: zero_handle_def sh_def)
  have used: "ft_zero t \<noteq> z \<or> n \<noteq> 1" if "t \<in> set ts" for t
    using ref that by (auto simp: holders_def filter_empty_conv)
  have "vmm_inv V w' ts zs"
  proof (rule vmm_invI)
    show "ft_inv V w' t \<and> own t \<subseteq> live (V (cuda w'))" if "t \<in> set ts" for t
      using ft_inv_frame [OF vmm_invD(2) [OF inv that], of w'] vmm_invD(2,3) [OF inv that] eff other [OF used [OF that]] Z(3) [OF that]
      by (auto simp: ft_inv_def)
    show "gpu q \<and> handle q \<in> live (V (cuda w')) \<and> (\<forall>t \<in> set ts. handle q \<notin> own t)" if y': "shared_pages w' y = Some (q, m)" for y q m
    proof -
      obtain m' where y: "shared_pages w y = Some (q, m')" "y \<noteq> z \<or> n \<noteq> 1" using y' z eff by (auto simp: sh_def split: if_splits)
      then have "n = 1 \<Longrightarrow> handle q \<noteq> handle p" using vmm_invD(9) [OF inv, of y "handle q" z] z by (auto simp: zero_handle_def)
      then show ?thesis using vmm_invD(6,7) [OF inv y(1)] vmm_invD(8) [OF inv y(1)] eff by auto
    qed
    show "holders ts zs y \<le> refs w' y" for y
      using vmm_invD(10) [OF inv, of y] z eff ref by (auto simp: holders_def refs_def sh_def)
    show "x = y" if "zero_handle w' x = Some h" "zero_handle w' y = Some h" for x y h
    proof (rule vmm_invD(9) [OF inv])
      have "v \<noteq> z \<or> n \<noteq> 1" if "zero_handle w' v = Some h" for v using that eff by (auto simp: zero_handle_def sh_def)
      then show "zero_handle w x = Some h" "zero_handle w y = Some h" using that other by metis+
    qed
    show "shared_pages w' y = None" if "next_shared w' \<le> y" for y
      using vmm_invD(11) [OF inv, of y] that z eff by (auto simp: sh_def split: if_splits)
  qed (use vmm_invD(1,4,5) [OF inv] eff in simp_all)
  then show ?thesis using eff by simp
qed

lemma vmm_inv_make_shared:
  assumes L: "driver_laws drv V" and inv: "vmm_inv V w ts zs" and run: "make_shared_page drv (Cuda i) n w = Some (z, w')"
  shows "vmm_inv V w' ts (z # zs) \<and> kPageSize w' = kPageSize w"
proof -
  obtain p w1 where m: "make_page drv (Cuda i) n w = Some (p, w1)"
    and r: "z = next_shared w1" "w' = w1\<lparr>shared_pages := (shared_pages w1)(z \<mapsto> (p, 1)), next_shared := z + 1\<rparr>"
    using run by (auto simp: make_shared_page_def Let_def split: Option.bind_splits)
  note M = make_page_gpu [OF L m]
  have gp: "gpu p" using M by (metis gpu.simps(1))
  have k: "kPageSize w1 = kPageSize w" "shared_pages w1 = shared_pages w" "next_shared w1 = next_shared w"
    by (subst conjunct1 [OF conjunct2 [OF M]], simp)+
  have V: "V (cuda w') = (V (cuda w))\<lparr>live := insert (handle p) (live (V (cuda w)))\<rparr>" "handle p \<notin> live (V (cuda w))"
    using M r by simp_all
  have free: "shared_pages w z = None" using vmm_invD(11) [OF inv] r(1) k(3) by simp
  have sh: "shared_pages w' = (shared_pages w)(z \<mapsto> (p, 1))" "kPageSize w' = kPageSize w" "next_shared w' = z + 1" using r k by simp_all
  have zh: "zero_handle w' = (zero_handle w)(z \<mapsto> handle p)" using sh(1) by (auto simp: zero_handle_def fun_eq_iff)
  have lv: "handle q \<noteq> handle p" if "shared_pages w y = Some (q, m)" for y q m using vmm_invD(7) [OF inv that] V(2) by metis
  have "vmm_inv V w' ts (z # zs)"
  proof (rule vmm_invI)
    show "ft_inv V w' t \<and> own t \<subseteq> live (V (cuda w'))" if "t \<in> set ts" for t
    proof -
      have "ft_zero t \<noteq> z" using vmm_invD(2) [OF inv that] free by (auto simp: ft_inv_def)
      then show ?thesis
        using ft_inv_frame [OF vmm_invD(2) [OF inv that] sh(2)] vmm_invD(2,3) [OF inv that] V zh by (auto simp: ft_inv_def)
    qed
    show "gpu q \<and> handle q \<in> live (V (cuda w')) \<and> (\<forall>t \<in> set ts. handle q \<notin> own t)" if y: "shared_pages w' y = Some (q, m)" for y q m
    proof (cases "y = z")
      case True then show ?thesis using y sh(1) gp V vmm_invD(3) [OF inv] by auto
    next
      case False
      then have y': "shared_pages w y = Some (q, m)" using y sh(1) by simp
      then show ?thesis using vmm_invD(6,7) [OF inv y'] vmm_invD(8) [OF inv y'] V by auto
    qed
    show "holders ts (z # zs) y \<le> refs w' y" for y
      using vmm_invD(10) [OF inv, of y] free sh(1) by (auto simp: holders_def refs_def)
    show "x = y" if "zero_handle w' x = Some h" "zero_handle w' y = Some h" for x y h
      using that vmm_invD(9) [OF inv, of x h y] lv unfolding zh by (auto simp: zero_handle_def split: if_splits)
    show "shared_pages w' y = None" if "next_shared w' \<le> y" for y
      using vmm_invD(11) [OF inv, of y] that r(1) k(3) sh by auto
  qed (use vmm_invD(1,4,5) [OF inv] sh in simp_all)
  then show ?thesis using sh by simp
qed

section \<open>Creating and destroying tensors\<close>

lemma zero_loop_effect:
  assumes L: "driver_laws drv V" and z: "shared_pages w (ft_zero t) = Some (p, n)" "gpu p"
    and run: "zero_loop drv t offs w = Some (ok, w')"
  shows "w' = w\<lparr>cuda := cuda w'\<rparr> \<and> live (V (cuda w')) = live (V (cuda w)) \<and> reserved (V (cuda w')) = reserved (V (cuda w)) \<and>
    backing (V (cuda w')) = (\<lambda>x. if \<exists>k \<in> set offs. x \<in> span (wrap64 (ft_vaddr t + as_size (int k))) (kPageSize w)
      then Some (handle p) else backing (V (cuda w)) x)"
  using z(1) run
proof (induction offs arbitrary: w)
  case (Cons k offs)
  then obtain ok1 w1 where m: "map_zero drv t (int k) True w = Some (ok1, w1)"
    and rest: "(if ok1 then zero_loop drv t offs w1 else Some (False, w1)) = Some (ok, w')"
    by (auto split: Option.bind_splits)
  note M = map_zero_gpu [OF L m Cons.prems(1) z(2)]
  then have w1: "w1 = w\<lparr>cuda := cuda w1\<rparr>" "ok1" by auto
  have eq: "shared_pages w1 = shared_pages w" "kPageSize w1 = kPageSize w" by (subst w1(1), simp)+
  have IH: "w' = w1\<lparr>cuda := cuda w'\<rparr> \<and> live (V (cuda w')) = live (V (cuda w1)) \<and> reserved (V (cuda w')) = reserved (V (cuda w1)) \<and>
    backing (V (cuda w')) = (\<lambda>x. if \<exists>k \<in> set offs. x \<in> span (wrap64 (ft_vaddr t + as_size (int k))) (kPageSize w1)
      then Some (handle p) else backing (V (cuda w1)) x)"
    by (rule Cons.IH) (use Cons.prems(1) rest w1(2) eq in auto)
  have "w' = w1\<lparr>cuda := cuda w'\<rparr>" using IH by blast
  also have "\<dots> = w\<lparr>cuda := cuda w'\<rparr>" by (subst w1(1)) simp
  finally show ?case using IH M eq by (auto simp: set_span_def fun_eq_iff)
qed simp

lemma pages_cover:
  assumes "0 < k" "n mod k = (0 :: nat)" shows "(\<exists>i < n div k. x \<in> span (a + i * k) k) \<longleftrightarrow> x \<in> span a n"
proof
  assume "x \<in> span a n"
  then have x: "a \<le> x" "x - a < n" by (auto simp: span_def)
  have "n div k * k = n" using assms by (simp add: dvd_div_mult_self mod_0_imp_dvd)
  then have "(x - a) div k < n div k" using x by (intro less_mult_imp_div_less) simp
  moreover have "x \<in> span (a + (x - a) div k * k) k"
    using x(1) div_times_less_eq_dividend [of "x - a" k] dividend_less_div_times [OF assms(1), of "x - a"]
    unfolding span_def atLeastLessThan_iff by linarith
  ultimately show "\<exists>i < n div k. x \<in> span (a + i * k) k" by blast
next
  assume "\<exists>i < n div k. x \<in> span (a + i * k) k"
  then obtain i where i: "i < n div k" "x \<in> span (a + i * k) k" by blast
  have "(i + 1) * k \<le> n div k * k" using i(1) by (intro mult_le_mono1) simp
  also have "\<dots> = n" using assms by (simp add: dvd_div_mult_self mod_0_imp_dvd)
  finally show "x \<in> span a n" using i(2) by (auto simp: span_def)
qed

lemma zero_cover:
  assumes "0 < k" "n mod k = 0" "a + n \<le> 2 ^ 64"
  shows "(\<exists>j \<in> set (map (\<lambda>i. i * k) [0..<n div k]). x \<in> span (wrap64 (a + as_size (int j))) k) \<longleftrightarrow> x \<in> span a n"
proof -
  have "wrap64 (a + as_size (int (i * k))) = a + i * k" if "i < n div k" for i
  proof -
    have "(i + 1) * k \<le> n div k * k" using that by (intro mult_le_mono1) simp
    also have "\<dots> = n" using assms(1,2) by (simp add: dvd_div_mult_self mod_0_imp_dvd)
    finally have lt: "i * k < n" using assms(1) by simp
    have "int (i * k) < 2 ^ 64" using lt assms(3) by (simp only: zless_nat_eq_int_zless [symmetric]) simp
    then have "as_size (int (i * k)) = i * k" unfolding as_size_def by (simp only: mod_pos_pos_trivial of_nat_0_le_iff nat_int)
    then show ?thesis using lt assms(3) by (simp add: wrap64_def)
  qed
  then have "(\<exists>j \<in> set (map (\<lambda>i. i * k) [0..<n div k]). x \<in> span (wrap64 (a + as_size (int j))) k) \<longleftrightarrow>
      (\<exists>i < n div k. x \<in> span (a + i * k) k)" by auto
  then show ?thesis using pages_cover [OF assms(1,2)] by simp
qed

lemma whole_pages: "0 < k \<Longrightarrow> n mod k = (0 :: nat) \<Longrightarrow> (n + k - 1) div k = n div k"
proof -
  assume "0 < k" "n mod k = 0"
  then have "n + k - 1 = (k - 1) + k * (n div k)" by (auto simp: mod_eq_0_iff_dvd)
  also have "\<dots> div k = (k - 1) div k + n div k" using \<open>0 < k\<close> by (simp only: div_mult_self2 add.commute)
  finally show ?thesis using \<open>0 < k\<close> by simp
qed

lemma init_loop:
  assumes "init_with_zero drv t w = Some (ok, w')" "page_aligned w (ft_size t)"
  shows "zero_loop drv t (map (\<lambda>i. i * kPageSize w) [0..<ft_size t div kPageSize w]) w = Some (ok, w')"
proof -
  have "(ft_size t + kPageSize w - 1) div kPageSize w = ft_size t div kPageSize w"
    using assms(2) by (intro whole_pages) (simp_all add: page_aligned_def)
  then show ?thesis using assms(1) by (auto simp: init_with_zero_def Let_def split: Option.bind_splits)
qed

lemma vmm_inv_add:
  assumes inv: "vmm_inv V w ts (ft_zero t # zs)" and ft: "ft_inv V w t" "own t = {}"
    and dis: "\<And>s. s \<in> set ts \<Longrightarrow> rng s \<inter> rng t = {}"
  shows "vmm_inv V w (t # ts) zs"
proof (rule vmm_invI)
  show "single (\<lambda>t. x \<in> rng t) (t # ts)" for x using vmm_invD(4) [OF inv, of x] dis by (auto simp: single_Cons)
  show "single (\<lambda>t. h \<in> own t) (t # ts)" for h using vmm_invD(5) [OF inv, of h] ft(2) by (simp add: single_Cons)
  show "holders (t # ts) zs y \<le> refs w y" for y using vmm_invD(10) [OF inv, of y] by (auto simp: holders_def)
  show "ft_inv V w s \<and> own s \<subseteq> live (V (cuda w))" if "s \<in> set (t # ts)" for s using vmm_invD(2,3) [OF inv, of s] that ft by auto
  show "gpu p \<and> handle p \<in> live (V (cuda w)) \<and> (\<forall>s \<in> set (t # ts). handle p \<notin> own s)" if "shared_pages w z = Some (p, n)" for z p n
    using vmm_invD(6,7) [OF inv that] vmm_invD(8) [OF inv that] ft(2) by auto
  show "x = y" if "zero_handle w x = Some h" "zero_handle w y = Some h" for x y h using vmm_invD(9) [OF inv that] .
qed (use vmm_invD(1,11) [OF inv] in simp_all)

lemma vmm_inv_new:
  assumes L: "driver_laws drv V" and inv: "vmm_inv V w ts zs" and run: "ftensor_new drv name n e (Cuda i) z w = Some (t, w')"
    and nd: "ndebug drv \<Longrightarrow> page_aligned w n"
  shows "vmm_inv V w' (t # ts) zs \<and> kPageSize w' = kPageSize w"
proof -
  obtain w1 va w2 ok where c: "shared_copy z w = Some w1" and a: "alloc_virtual_mem drv (Cuda i) n w1 = Some (va, w2)"
    and t: "t = \<lparr>ft_name = name, ft_vaddr = va, ft_size = n, elem_size = e, ft_dev = Cuda i, ft_zero = z, ft_mapping = []\<rparr>"
    and g: "init_with_zero drv t w2 = Some (ok, w')"
    using run by (auto simp: ftensor_new_def Let_def split: Option.bind_splits)
  note C = vmm_inv_shared_copy [OF inv c] note inv1 = conjunct1 [OF C]
  obtain d where res: "cuMemAddressReserve drv n base_page_size (wrap64 (kStartAddr + g_vaddr_allocated_offset w1)) (cuda w1) = Some (va, d)"
    and w2: "w2 = w1\<lparr>cuda := d, g_vaddr_allocated_offset := wrap64 (g_vaddr_allocated_offset w1 + n)\<rparr>"
    using a by (auto simp: alloc_virtual_mem_def Let_def assertion_def ensure_def split: Option.bind_splits if_splits)
  note R = laws(6) [OF L res]
  obtain p m where sh: "shared_pages w1 z = Some (p, m)" using c by (auto simp: shared_copy_def split: Option.bind_splits)
  have k2: "kPageSize w2 = kPageSize w" using w2 C by simp
  have al: "page_aligned w2 n" using g t nd k2 by (auto simp: init_with_zero_def assertion_def ensure_def page_aligned_def split: Option.bind_splits if_splits)
  have zl: "zero_loop drv t (map (\<lambda>i. i * kPageSize w2) [0..<n div kPageSize w2]) w2 = Some (ok, w')"
    using init_loop [OF g] al t by simp
  have sh2: "shared_pages w2 (ft_zero t) = Some (p, m)" "kPageSize w2 = kPageSize w1" using sh w2 t by simp_all
  note Z = zero_loop_effect [OF L sh2(1) vmm_invD(6) [OF inv1 sh] zl]
  have w': "kPageSize w' = kPageSize w1" "shared_pages w' = shared_pages w1" "next_shared w' = next_shared w1"
    by (subst conjunct1 [OF Z], simp add: w2)+
  have cov: "(\<exists>k \<in> set (map (\<lambda>i. i * kPageSize w2) [0..<n div kPageSize w2]). x \<in> span (wrap64 (ft_vaddr t + as_size (int k))) (kPageSize w2)) \<longleftrightarrow>
      x \<in> span va n" for x
    using zero_cover [of "kPageSize w2" n va x] al R t by (simp add: page_aligned_def)
  have b2: "backing (V (cuda w2)) = backing (V (cuda w1))" using R w2 by simp
  have V': "live (V (cuda w')) = live (V (cuda w1))" "reserved (V (cuda w')) = reserved (V (cuda w1)) \<union> span va n"
    "backing (V (cuda w')) = (\<lambda>x. if x \<in> span va n then Some (handle p) else backing (V (cuda w1)) x)"
    using Z R w2 unfolding cov b2 by simp_all
  have rng: "rng t = span va n" "ft_zero t = z" "own t = {}" using t by (simp_all add: own_def)
  have dis: "rng s \<inter> rng t = {}" "rng s \<subseteq> reserved (V (cuda w1))" if "s \<in> set ts" for s
    using vmm_invD(2) [OF inv1 that] R rng by (auto simp: ft_inv_def)
  have "vmm_inv V w' ts (z # zs)"
  proof (rule vmm_inv_frame [OF inv1 w' V'(1)])
    show "rng s \<subseteq> reserved (V (cuda w'))" if "s \<in> set ts" for s using dis(2) [OF that] V'(2) by blast
    show "backing (V (cuda w')) x = backing (V (cuda w1)) x" if "s \<in> set ts" "x \<in> rng s" for s x
      using dis(1) [OF that(1)] that(2) rng(1) V'(3) by auto
  qed
  moreover have "ft_inv V w' t"
    unfolding ft_inv_def using t al R sh w' sh2(2) V' by (simp add: page_aligned_def page_handle_def zero_handle_def)
  ultimately have "vmm_inv V w' (t # ts) zs" using rng dis by (intro vmm_inv_add) simp_all
  then show ?thesis using C w' by simp
qed

lemma pages_clear_effect:
  assumes L: "driver_laws drv V" and run: "pages_clear drv ps w = Some w'" and g: "\<forall>p \<in> set ps. gpu p"
  shows "w' = w\<lparr>cuda := cuda w'\<rparr> \<and> V (cuda w') = (V (cuda w))\<lparr>live := live (V (cuda w)) - handle ` set ps\<rparr>"
  using run g
proof (induction ps arbitrary: w)
  case (Cons p ps)
  then obtain w1 where d: "page_delete drv p w = Some w1" and rest: "pages_clear drv ps w1 = Some w'"
    by (auto split: Option.bind_splits)
  have "gpu p" using Cons.prems by simp
  note D = page_delete_gpu [OF L d this]
  have IH: "w' = w1\<lparr>cuda := cuda w'\<rparr> \<and> V (cuda w') = (V (cuda w1))\<lparr>live := live (V (cuda w1)) - handle ` set ps\<rparr>"
    using Cons.IH [OF rest] Cons.prems(2) by simp
  have "w' = w1\<lparr>cuda := cuda w'\<rparr>" using IH by blast
  also have "\<dots> = w\<lparr>cuda := cuda w'\<rparr>" by (subst conjunct1 [OF D]) simp
  finally show ?case
  proof (rule conjI)
    show "V (cuda w') = (V (cuda w))\<lparr>live := live (V (cuda w)) - handle ` set (p # ps)\<rparr>"
      using conjunct2 [OF IH] conjunct2 [OF D] by (simp add: Diff_insert2 [symmetric])
  qed
qed simp

lemma vmm_inv_remove:
  assumes inv: "vmm_inv V w (t # ts) zs" and eq: "kPageSize w' = kPageSize w" "shared_pages w' = shared_pages w" "next_shared w' = next_shared w"
    and V: "V (cuda w') = (V (cuda w))\<lparr>live := live (V (cuda w)) - own t\<rparr>"
  shows "vmm_inv V w' ts (ft_zero t # zs)"
proof (rule vmm_invI)
  have zh: "zero_handle w' = zero_handle w" "refs w' = refs w" using eq(2) by (auto simp: zero_handle_def refs_def fun_eq_iff)
  show "ft_inv V w' s \<and> own s \<subseteq> live (V (cuda w'))" if "s \<in> set ts" for s
  proof -
    have s: "s \<in> set (t # ts)" using that by simp
    have "own s \<inter> own t = {}" using vmm_invD(5) [OF inv] that by (auto simp: single_Cons split: if_splits)
    then have "own s \<subseteq> live (V (cuda w'))" using vmm_invD(3) [OF inv s] V by auto
    moreover have "ft_inv V w' s"
      using ft_inv_frame [OF vmm_invD(2) [OF inv s] eq(1)] vmm_invD(2) [OF inv s] V zh by (simp add: ft_inv_def)
    ultimately show ?thesis by simp
  qed
  show "single (\<lambda>t. x \<in> rng t) ts" for x using vmm_invD(4) [OF inv, of x] by (auto simp: single_def split: if_splits)
  show "single (\<lambda>t. h \<in> own t) ts" for h using vmm_invD(5) [OF inv, of h] by (auto simp: single_def split: if_splits)
  show "holders ts (ft_zero t # zs) y \<le> refs w' y" for y using vmm_invD(10) [OF inv, of y] zh by (auto simp: holders_def split: if_splits)
  show "gpu p \<and> handle p \<in> live (V (cuda w')) \<and> (\<forall>s \<in> set ts. handle p \<notin> own s)" if "shared_pages w' z = Some (p, n)" for z p n
    using vmm_invD(6,7) [OF inv that [unfolded eq(2)]] vmm_invD(8) [OF inv that [unfolded eq(2)]] V by auto
  show "x = y" if "zero_handle w' x = Some h" "zero_handle w' y = Some h" for x y h
    using vmm_invD(9) [OF inv] that unfolding zh by blast
qed (use vmm_invD(1,11) [OF inv] eq in simp_all)

lemma vmm_inv_delete:
  assumes L: "driver_laws drv V" and inv: "vmm_inv V w (t # ts) zs" and run: "ftensor_delete drv t w = Some w'"
  shows "vmm_inv V w' ts zs \<and> kPageSize w' = kPageSize w"
proof -
  obtain w1 w2 where c: "pages_clear drv (map snd (ft_mapping t)) w = Some w1" and r: "shared_reset drv (ft_zero t) w1 = Some w2"
    and f: "(if ft_vaddr t \<noteq> 0 then do { d1 \<leftarrow> cuMemUnmap drv (ft_vaddr t) (ft_size t) (cuda w2);
        d2 \<leftarrow> cuMemAddressFree drv (ft_vaddr t) (ft_size t) d1; Some (w2\<lparr>cuda := d2\<rparr>) } else Some w2) = Some w'"
    using run by (auto simp: ftensor_delete_def split: Option.bind_splits)
  have t: "ft_inv V w t" using vmm_invD(2) [OF inv] by simp
  then have "\<forall>p \<in> set (map snd (ft_mapping t)). gpu p" by (auto simp: ft_inv_def)
  note C = pages_clear_effect [OF L c this]
  have "handle ` set (map snd (ft_mapping t)) = own t" by (auto simp: own_def)
  then have V1: "V (cuda w1) = (V (cuda w))\<lparr>live := live (V (cuda w)) - own t\<rparr>" using conjunct2 [OF C] by simp
  have k1: "kPageSize w1 = kPageSize w" "shared_pages w1 = shared_pages w" "next_shared w1 = next_shared w"
    by (subst conjunct1 [OF C], simp)+
  note inv1 = vmm_inv_remove [OF inv k1 V1]
  note R = vmm_inv_shared_reset [OF L inv1 r]
  have dis: "rng s \<inter> rng t = {}" "rng s \<subseteq> reserved (V (cuda w2))" if "s \<in> set ts" for s
    using vmm_invD(4) [OF inv] vmm_invD(2) [OF conjunct1 [OF R] that] that by (auto simp: single_Cons ft_inv_def split: if_splits)
  show ?thesis
  proof (cases "ft_vaddr t = 0")
    case True then show ?thesis using f R k1 by simp
  next
    case False
    then obtain d1 d2 where u: "cuMemUnmap drv (ft_vaddr t) (ft_size t) (cuda w2) = Some d1"
      "cuMemAddressFree drv (ft_vaddr t) (ft_size t) d1 = Some d2" and w': "w' = w2\<lparr>cuda := d2\<rparr>"
      using f by (auto split: Option.bind_splits)
    have V: "V d2 = (V (cuda w2))\<lparr>reserved := reserved (V (cuda w2)) - rng t, backing := set_span (ft_vaddr t) (ft_size t) None (backing (V (cuda w2)))\<rparr>"
      using laws(5) [OF L u(1)] laws(7) [OF L u(2)] by simp
    have "vmm_inv V w' ts zs"
      by (rule vmm_inv_frame [OF conjunct1 [OF R]]) (use w' V dis in \<open>auto simp: set_span_def\<close>)
    then show ?thesis using R k1 w' by simp
  qed
qed

end
