(* ===== verification/Vmm_Allocator.thy ===== *)
theory Vmm_Allocator
  imports Vmm_Safety
begin

text \<open>
  The state machine of the cache allocator (\<open>allocator.cpp\<close>): each public operation keeps the invariant of
  \<open>Vmm_Safety\<close>, and so does every history of operations.
\<close>

section \<open>The invariant of the allocator\<close>







section \<open>Destruction\<close>






section \<open>Creation\<close>








section \<open>Mapping and unmapping\<close>












section \<open>Histories of operations\<close>







section \<open>A reference driver\<close>








lemma layer_name_nonempty [simp]: "layer_name i \<noteq> []"
  by (simp add: layer_name_def kv_prefix_def str_def)






end
