(* ===== verification/Fs_Io.thy ===== *)
theory Fs_Io
  imports Bytes "HOL-Library.Monad_Syntax"
begin

text \<open>
  Block storage of the key-value offload tier, \<open>src/csrc/fs_io.cpp\<close>.

  The file system is a map from paths to inodes and from inodes to contents, so that an open file survives the
  rename or removal of its path.  Every system call takes a \<open>fault\<close> that says whether it fails (with
  which \<open>errno\<close>) or, for \<open>read\<close> and \<open>write\<close>, transfers fewer bytes than it could, as these calls may at any time (an
  interrupt, the limit of one transfer).  \<open>rename\<close> reports \<open>EEXIST\<close> only if the target exists.

  \<open>_store_block\<close> and \<open>_load_block\<close> are machines that make one system call per step (\<open>store_step\<close>, \<open>load_step\<close>), so that the calls
  of concurrent processes can interleave; run to the end they are the functions of the source.  The
  batch entry points follow with their argument checks, the buffers they acquire and release, and the
  exceptions they raise.
\<close>

section \<open>The file system\<close>

type_synonym path = bytes
type_synonym errno = nat

datatype fault = Works | Fails errno | Short nat

record fs =
  names :: "path \<Rightarrow> nat option"
  contents :: "nat \<Rightarrow> bytes"
  fresh :: nat

definition EIO :: errno where
  "EIO = 5"

definition EEXIST :: errno where
  "EEXIST = 17"

definition ENOENT :: errno where
  "ENOENT = 2"

definition sys_access :: "fault \<Rightarrow> path \<Rightarrow> fs \<Rightarrow> bool" where
  "sys_access f p s \<longleftrightarrow> (case f of Fails _ \<Rightarrow> False | _ \<Rightarrow> names s p \<noteq> None)"

definition sys_create_excl :: "fault \<Rightarrow> path \<Rightarrow> fs \<Rightarrow> (errno + nat) \<times> fs" where
  "sys_create_excl f p s =
     (case f of
        Fails e \<Rightarrow> (Inl e, s)
      | _ \<Rightarrow> if names s p \<noteq> None then (Inl EEXIST, s)
             else (Inr (fresh s), s\<lparr>names := (names s)(p \<mapsto> fresh s), contents := (contents s)(fresh s := []), fresh := fresh s + 1\<rparr>))"

definition sys_open_read :: "fault \<Rightarrow> path \<Rightarrow> fs \<Rightarrow> errno + nat" where
  "sys_open_read f p s =
     (case f of Fails e \<Rightarrow> Inl e | _ \<Rightarrow> (case names s p of None \<Rightarrow> Inl ENOENT | Some i \<Rightarrow> Inr i))"

definition sys_write :: "fault \<Rightarrow> nat \<Rightarrow> bytes \<Rightarrow> fs \<Rightarrow> (errno + nat) \<times> fs" where
  "sys_write f i src s =
     (case f of
        Fails e \<Rightarrow> (Inl e, s)
      | Short n \<Rightarrow> (Inr (length (take n src)), s\<lparr>contents := (contents s)(i := contents s i @ take n src)\<rparr>)
      | Works \<Rightarrow> (Inr (length src), s\<lparr>contents := (contents s)(i := contents s i @ src)\<rparr>))"

definition sys_read :: "fault \<Rightarrow> nat \<Rightarrow> nat \<Rightarrow> fs \<Rightarrow> errno + bytes" where
  "sys_read f i n s =
     (case f of Fails e \<Rightarrow> Inl e | Short k \<Rightarrow> Inr (take k (take n (contents s i))) | Works \<Rightarrow> Inr (take n (contents s i)))"

definition sys_close :: "fault \<Rightarrow> errno option" where
  "sys_close f = (case f of Fails e \<Rightarrow> Some e | _ \<Rightarrow> None)"

definition sys_rename :: "fault \<Rightarrow> path \<Rightarrow> path \<Rightarrow> fs \<Rightarrow> errno option \<times> fs" where
  "sys_rename f p q s =
     (case f of
        Fails e \<Rightarrow> (Some (if e = EEXIST \<and> names s q = None then EIO else e), s)
      | _ \<Rightarrow> (case names s p of None \<Rightarrow> (Some ENOENT, s)
              | Some i \<Rightarrow> (None, s\<lparr>names := (names s)(p := None, q \<mapsto> i)\<rparr>)))"

definition sys_unlink :: "fault \<Rightarrow> path \<Rightarrow> fs \<Rightarrow> fs" where
  "sys_unlink f p s = (case f of Fails _ \<Rightarrow> s | _ \<Rightarrow> s\<lparr>names := (names s)(p := None)\<rparr>)"

text \<open>A path has an empty parent exactly when it has no slash.  Directories are not part of the state: \<open>create_directories\<close> works or fails.\<close>

definition ensure_parent_dirs :: "fault \<Rightarrow> path \<Rightarrow> errno" where
  "ensure_parent_dirs f p = (if 47 \<notin> set p then 0 else case f of Fails e \<Rightarrow> e | _ \<Rightarrow> 0)"

section \<open>Storing a block\<close>

datatype store_pc =
    Store_access | Store_dirs | Store_open | Store_write nat | Store_close nat | Store_rename
  | Store_abort errno | Store_unlink errno | Store_done errno

definition store_step :: "fault \<Rightarrow> path \<Rightarrow> path \<Rightarrow> bytes \<Rightarrow> store_pc \<Rightarrow> fs \<Rightarrow> store_pc \<times> fs" where
  "store_step f tmp_path dest_path src pc s =
     (case pc of
        Store_access \<Rightarrow> (if sys_access f dest_path s then Store_done 0 else Store_dirs, s)
      | Store_dirs \<Rightarrow> (let err = ensure_parent_dirs f dest_path in if err \<noteq> 0 then Store_done err else Store_open, s)
      | Store_open \<Rightarrow> (case sys_create_excl f tmp_path s of
            (Inl e, s1) \<Rightarrow> (Store_done e, s1)
          | (Inr fd, s1) \<Rightarrow> (Store_write fd, s1))
      | Store_write fd \<Rightarrow> (case sys_write f fd src s of
            (Inl e, s1) \<Rightarrow> (Store_abort e, s1)
          | (Inr n, s1) \<Rightarrow> (if n \<noteq> length src then Store_abort EIO else Store_close fd, s1))
      | Store_abort e \<Rightarrow> (Store_unlink e, s)
      | Store_close fd \<Rightarrow> (case sys_close f of None \<Rightarrow> Store_rename | Some e \<Rightarrow> Store_unlink e, s)
      | Store_rename \<Rightarrow> (case sys_rename f tmp_path dest_path s of
            (None, s1) \<Rightarrow> (Store_done 0, s1)
          | (Some e, s1) \<Rightarrow> (Store_unlink (if e = EEXIST then 0 else e), s1))
      | Store_unlink e \<Rightarrow> (Store_done e, sys_unlink f tmp_path s)
      | Store_done e \<Rightarrow> (pc, s))"

fun store_run :: "(nat \<Rightarrow> fault) \<Rightarrow> path \<Rightarrow> path \<Rightarrow> bytes \<Rightarrow> nat \<Rightarrow> store_pc \<Rightarrow> fs \<Rightarrow> store_pc \<times> fs" where
  "store_run f tmp_path dest_path src 0 pc s = (pc, s)"
| "store_run f tmp_path dest_path src (Suc n) pc s =
     (case store_step (f n) tmp_path dest_path src pc s of (pc1, s1) \<Rightarrow> store_run f tmp_path dest_path src n pc1 s1)"

text \<open>No path through the function makes more than eight calls.\<close>

definition store_block :: "(nat \<Rightarrow> fault) \<Rightarrow> path \<Rightarrow> path \<Rightarrow> bytes \<Rightarrow> fs \<Rightarrow> errno option \<times> fs" where
  "store_block f tmp_path dest_path src s =
     (case store_run f tmp_path dest_path src 8 Store_access s of
        (Store_done e, s1) \<Rightarrow> (Some e, s1) | (_, s1) \<Rightarrow> (None, s1))"

section \<open>Loading a block\<close>

datatype load_pc =
    Load_open | Load_read nat | Load_error errno | Load_short bytes | Load_unlink bytes | Load_close bytes
  | Load_done errno "bytes option"

text \<open>The second argument of \<open>Load_done\<close> is what \<open>read\<close> put into the destination buffer.\<close>

definition load_step :: "fault \<Rightarrow> path \<Rightarrow> nat \<Rightarrow> load_pc \<Rightarrow> fs \<Rightarrow> load_pc \<times> fs" where
  "load_step f source_path n pc s =
     (case pc of
        Load_open \<Rightarrow> (case sys_open_read f source_path s of Inl e \<Rightarrow> Load_done e None | Inr fd \<Rightarrow> Load_read fd, s)
      | Load_read fd \<Rightarrow> (case sys_read f fd n s of
            Inl e \<Rightarrow> Load_error e
          | Inr bs \<Rightarrow> if length bs < n then Load_short bs else Load_close bs, s)
      | Load_error e \<Rightarrow> (Load_done e None, s)
      | Load_short bs \<Rightarrow> (Load_unlink bs, s)
      | Load_unlink bs \<Rightarrow> (Load_done EIO (Some bs), sys_unlink f source_path s)
      | Load_close bs \<Rightarrow> (Load_done 0 (Some bs), s)
      | Load_done e b \<Rightarrow> (pc, s))"

fun load_run :: "(nat \<Rightarrow> fault) \<Rightarrow> path \<Rightarrow> nat \<Rightarrow> nat \<Rightarrow> load_pc \<Rightarrow> fs \<Rightarrow> load_pc \<times> fs" where
  "load_run f source_path n 0 pc s = (pc, s)"
| "load_run f source_path n (Suc k) pc s =
     (case load_step (f k) source_path n pc s of (pc1, s1) \<Rightarrow> load_run f source_path n k pc1 s1)"

definition load_block :: "(nat \<Rightarrow> fault) \<Rightarrow> path \<Rightarrow> nat \<Rightarrow> fs \<Rightarrow> (errno \<times> bytes option) option \<times> fs" where
  "load_block f source_path n s =
     (case load_run f source_path n 4 Load_open s of
        (Load_done e b, s1) \<Rightarrow> (Some (e, b), s1) | (_, s1) \<Rightarrow> (None, s1))"

section \<open>The batch entry points\<close>

datatype py_path = Py_str path | Py_not_str
datatype py_buffer = Py_buf bytes | Py_not_buffer
datatype buffer_event = Acquire nat | Release nat

datatype py_outcome =
    Returns_none
  | Returns_bools "bool list"
  | Value_error string
  | Conversion_error
  | Os_error errno path "nat option"

fun extract_str_list :: "py_path list \<Rightarrow> path list option" where
  "extract_str_list [] = Some []"
| "extract_str_list (Py_not_str # ps) = None"
| "extract_str_list (Py_str p # ps) = map_option (Cons p) (extract_str_list ps)"

text \<open>The events of the acquisition of the buffers from index \<open>i\<close> on, and the buffers when all are acquired.\<close>

fun extract_buffer_list :: "nat \<Rightarrow> py_buffer list \<Rightarrow> buffer_event list \<times> bytes list option" where
  "extract_buffer_list i [] = ([], Some [])"
| "extract_buffer_list i (Py_not_buffer # bs) = (map Release [0..<i], None)"
| "extract_buffer_list i (Py_buf b # bs) =
     (case extract_buffer_list (i + 1) bs of (ev, r) \<Rightarrow> (Acquire i # ev, map_option (Cons b) r))"

definition release_buffer_list :: "nat \<Rightarrow> buffer_event list" where
  "release_buffer_list n = map Release [0..<n]"

fun lookup_loop :: "(nat \<Rightarrow> fault) \<Rightarrow> nat \<Rightarrow> path list \<Rightarrow> fs \<Rightarrow> bool list" where
  "lookup_loop f i [] s = []"
| "lookup_loop f i (p # ps) s = sys_access (f i) p s # lookup_loop f (i + 1) ps s"

definition batch_lookup :: "(nat \<Rightarrow> fault) \<Rightarrow> py_path list \<Rightarrow> fs \<Rightarrow> py_outcome" where
  "batch_lookup f path_list s =
     (case extract_str_list path_list of
        None \<Rightarrow> Conversion_error
      | Some paths \<Rightarrow> Returns_bools (lookup_loop f 0 paths s))"

fun store_loop :: "(nat \<Rightarrow> nat \<Rightarrow> fault) \<Rightarrow> nat \<Rightarrow> (path \<times> path \<times> bytes) list \<Rightarrow> fs \<Rightarrow> (nat \<times> errno) option \<times> fs" where
  "store_loop f i [] s = (None, s)"
| "store_loop f i ((tmp, dest, src) # bs) s =
     (case store_block (f i) tmp dest src s of
        (err, s1) \<Rightarrow> if err = Some 0 then store_loop f (i + 1) bs s1 else (Some (i, the err), s1))"

definition batch_store_block ::
  "(nat \<Rightarrow> nat \<Rightarrow> fault) \<Rightarrow> py_path list \<Rightarrow> py_path list \<Rightarrow> py_buffer list \<Rightarrow> fs \<Rightarrow> py_outcome \<times> buffer_event list \<times> fs" where
  "batch_store_block f tmp_paths_obj dest_paths_obj buffers_obj s =
     (let n = length tmp_paths_obj in
      if length dest_paths_obj \<noteq> n \<or> length buffers_obj \<noteq> n
      then (Value_error ''tmp_paths, dest_paths and buffers must have the same length'', [], s)
      else case extract_str_list tmp_paths_obj of
        None \<Rightarrow> (Conversion_error, [], s)
      | Some tmp_paths \<Rightarrow>
          (case extract_str_list dest_paths_obj of
             None \<Rightarrow> (Conversion_error, [], s)
           | Some dest_paths \<Rightarrow>
               (case extract_buffer_list 0 buffers_obj of
                  (ev, None) \<Rightarrow> (Conversion_error, ev, s)
                | (ev, Some buffers) \<Rightarrow>
                    (case store_loop f 0 (zip tmp_paths (zip dest_paths buffers)) s of
                       (None, s1) \<Rightarrow> (Returns_none, ev @ release_buffer_list n, s1)
                     | (Some (i, err), s1) \<Rightarrow> (Os_error err (dest_paths ! i) None, ev @ release_buffer_list n, s1)))))"

text \<open>The result of the loop: where it failed, and what was read into the buffers (a buffer keeps its bytes beyond a short read).\<close>

definition fill_buffer :: "bytes \<Rightarrow> bytes option \<Rightarrow> bytes" where
  "fill_buffer old new = (case new of None \<Rightarrow> old | Some bs \<Rightarrow> bs @ drop (length bs) old)"

fun load_loop :: "(nat \<Rightarrow> nat \<Rightarrow> fault) \<Rightarrow> nat \<Rightarrow> (path \<times> bytes) list \<Rightarrow> fs \<Rightarrow> (nat \<times> errno) option \<times> bytes list \<times> fs" where
  "load_loop f i [] s = (None, [], s)"
| "load_loop f i ((p, buf) # bs) s =
     (case load_block (f i) p (length buf) s of
        (Some (err, new), s1) \<Rightarrow>
          if err = 0 then (case load_loop f (i + 1) bs s1 of (r, bufs, s2) \<Rightarrow> (r, fill_buffer buf new # bufs, s2))
          else (Some (i, err), fill_buffer buf new # map snd bs, s1)
      | (None, s1) \<Rightarrow> (Some (i, EIO), buf # map snd bs, s1))"

definition batch_load_block ::
  "(nat \<Rightarrow> nat \<Rightarrow> fault) \<Rightarrow> py_path list \<Rightarrow> py_buffer list \<Rightarrow> fs \<Rightarrow> py_outcome \<times> buffer_event list \<times> bytes list \<times> fs" where
  "batch_load_block f source_paths_obj buffers_obj s =
     (let n = length source_paths_obj in
      if length buffers_obj \<noteq> n
      then (Value_error ''source_paths and buffers must have the same length'', [], [], s)
      else case extract_str_list source_paths_obj of
        None \<Rightarrow> (Conversion_error, [], [], s)
      | Some source_paths \<Rightarrow>
          (case extract_buffer_list 0 buffers_obj of
             (ev, None) \<Rightarrow> (Conversion_error, ev, [], s)
           | (ev, Some buffers) \<Rightarrow>
               (case load_loop f 0 (zip source_paths buffers) s of
                  (None, bufs, s1) \<Rightarrow> (Returns_none, ev @ release_buffer_list n, bufs, s1)
                | (Some (i, err), bufs, s1) \<Rightarrow>
                    (Os_error err (source_paths ! i) (Some i), ev @ release_buffer_list n, bufs, s1))))"

section \<open>Termination and resources\<close>

text \<open>The number of calls that are left at most.\<close>

fun store_rank :: "store_pc \<Rightarrow> nat" where
  "store_rank Store_access = 7"
| "store_rank Store_dirs = 6"
| "store_rank Store_open = 5"
| "store_rank (Store_write _) = 4"
| "store_rank (Store_close _) = 3"
| "store_rank (Store_abort _) = 2"
| "store_rank Store_rename = 2"
| "store_rank (Store_unlink _) = 1"
| "store_rank (Store_done _) = 0"

fun load_rank :: "load_pc \<Rightarrow> nat" where
  "load_rank Load_open = 4"
| "load_rank (Load_read _) = 3"
| "load_rank (Load_short _) = 2"
| "load_rank (Load_error _) = 1"
| "load_rank (Load_unlink _) = 1"
| "load_rank (Load_close _) = 1"
| "load_rank (Load_done _ _) = 0"

lemma store_step_rank: "store_rank (fst (store_step f tmp dest src pc s)) \<le> store_rank pc - 1"
  by (cases pc) (auto simp: store_step_def Let_def split: sum.splits option.splits prod.splits)

lemma load_step_rank: "load_rank (fst (load_step f p n pc s)) \<le> load_rank pc - 1"
  by (cases pc) (auto simp: load_step_def split: sum.splits option.splits prod.splits)

lemma store_run_rank: "store_rank (fst (store_run f tmp dest src n pc s)) \<le> store_rank pc - n"
proof (induction n arbitrary: pc s)
  case (Suc n)
  obtain pc1 s1 where st: "store_step (f n) tmp dest src pc s = (pc1, s1)" by fastforce
  show ?case using Suc [of pc1 s1] store_step_rank [of "f n" tmp dest src pc s] st by simp
qed simp

lemma load_run_rank: "load_rank (fst (load_run f p n k pc s)) \<le> load_rank pc - k"
proof (induction k arbitrary: pc s)
  case (Suc k)
  obtain pc1 s1 where st: "load_step (f k) p n pc s = (pc1, s1)" by fastforce
  show ?case using Suc [of pc1 s1] load_step_rank [of "f k" p n pc s] st by simp
qed simp

lemma store_block_returns: "\<exists>e. fst (store_block f tmp dest src s) = Some e"
proof -
  obtain pc s1 where r: "store_run f tmp dest src 8 Store_access s = (pc, s1)" by fastforce
  then have "store_rank pc = 0" using store_run_rank [of f tmp dest src 8 Store_access s] by simp
  then show ?thesis using r by (cases pc) (auto simp: store_block_def)
qed

lemma load_block_returns: "\<exists>e b. fst (load_block f p n s) = Some (e, b)"
proof -
  obtain pc s1 where r: "load_run f p n 4 Load_open s = (pc, s1)" by fastforce
  then have "load_rank pc = 0" using load_run_rank [of f p n 4 Load_open s] by simp
  then show ?thesis using r by (cases pc) (auto simp: load_block_def)
qed

text \<open>Every acquired buffer is released exactly once, on every path.\<close>

definition balanced :: "buffer_event list \<Rightarrow> bool" where
  "balanced ev \<longleftrightarrow> (\<forall>i. count_list ev (Acquire i) = count_list ev (Release i) \<and> count_list ev (Acquire i) \<le> 1)"

lemma count_Release: "count_list (map Release xs) (Release i) = count_list xs i" "count_list (map Release xs) (Acquire i) = 0"
  by (induction xs) auto

lemma count_upt: "count_list [0..<n] i = (if i < n then 1 else 0)"
  by (induction n) auto

lemma extract_events:
  assumes "extract_buffer_list i bs = (ev, r)"
  shows "(case r of None \<Rightarrow> (\<exists>k \<ge> i. ev = map Acquire [i..<k] @ map Release [0..<k])
    | Some xs \<Rightarrow> ev = map Acquire [i..<i + length bs] \<and> length xs = length bs)"
  using assms
proof (induction i bs arbitrary: ev r rule: extract_buffer_list.induct)
  case (2 i bs) then show ?case by (auto intro!: exI [of _ i])
next
  case (3 i b bs)
  obtain ev1 r1 where e: "extract_buffer_list (i + 1) bs = (ev1, r1)" by fastforce
  then have r: "ev = Acquire i # ev1" "r = map_option (Cons b) r1" using 3(2) by auto
  have up: "Acquire i # map Acquire [i + 1..<k] = map Acquire [i..<k]" if "i < k" for k using that by (simp add: upt_conv_Cons)
  show ?case
  proof (cases r1)
    case None
    then obtain k where "i + 1 \<le> k" "ev1 = map Acquire [i + 1..<k] @ map Release [0..<k]" using 3(1) [OF e] by auto
    then show ?thesis using r None up [of k] by (auto intro!: exI [of _ k])
  next
    case (Some xs) then show ?thesis using r 3(1) [OF e] up [of "i + 1 + length bs"] by simp
  qed
qed simp

lemma count_Acquire: "count_list (map Acquire xs) (Acquire i) = count_list xs i" "count_list (map Acquire xs) (Release i) = 0"
  by (induction xs) auto

lemma balanced_all: "balanced (map Acquire [0..<n] @ map Release [0..<n])"
  by (simp add: balanced_def count_Acquire count_Release count_upt)

lemma balanced_extract:
  assumes "extract_buffer_list 0 bs = (ev, r)"
  shows "balanced (case r of None \<Rightarrow> ev | Some _ \<Rightarrow> ev @ release_buffer_list (length bs))"
  using extract_events [OF assms] balanced_all by (auto simp: release_buffer_list_def split: option.splits)

section \<open>Interleaved stores and loads\<close>

text \<open>A process stores a block or loads one; the file names are content hashes, so that \<open>block p\<close> is the only content that belongs to \<open>p\<close>.\<close>

datatype proc = Storer path path bytes store_pc | Loader path nat load_pc

type_synonym procs = "nat \<Rightarrow> proc"

inductive io_step :: "procs \<Rightarrow> fs \<Rightarrow> procs \<Rightarrow> fs \<Rightarrow> bool" where
  store: "P j = Storer tmp dest src pc \<Longrightarrow> f \<noteq> Fails 0 \<Longrightarrow> store_step f tmp dest src pc s = (pc', s') \<Longrightarrow>
    io_step P s (P(j := Storer tmp dest src pc')) s'"
| load: "P j = Loader p n pc \<Longrightarrow> f \<noteq> Fails 0 \<Longrightarrow> load_step f p n pc s = (pc', s') \<Longrightarrow>
    io_step P s (P(j := Loader p n pc')) s'"

inductive io_reach :: "procs \<Rightarrow> fs \<Rightarrow> procs \<Rightarrow> fs \<Rightarrow> bool" for P0 s0 where
  init: "io_reach P0 s0 P0 s0"
| step: "io_reach P0 s0 P s \<Longrightarrow> io_step P s Q s' \<Longrightarrow> io_reach P0 s0 Q s'"

fun temp_of :: "proc \<Rightarrow> path option" where
  "temp_of (Storer tmp _ _ _) = Some tmp"
| "temp_of (Loader _ _ _) = None"

definition temps :: "procs \<Rightarrow> path set" where
  "temps P = {p. \<exists>j. temp_of (P j) = Some p}"

text \<open>Temporary paths are private, targets and sources are not temporary, and a store writes the block of its target.\<close>

definition io_config :: "(path \<Rightarrow> bytes) \<Rightarrow> procs \<Rightarrow> bool" where
  "io_config block P \<longleftrightarrow>
     (\<forall>i j. temp_of (P i) \<noteq> None \<longrightarrow> temp_of (P i) = temp_of (P j) \<longrightarrow> i = j) \<and>
     (\<forall>j. case P j of Storer tmp dest src _ \<Rightarrow> dest \<notin> temps P \<and> src = block dest
        | Loader p n _ \<Rightarrow> p \<notin> temps P \<and> n = length (block p))"

definition fs_ok :: "fs \<Rightarrow> bool" where
  "fs_ok s \<longleftrightarrow> (\<forall>p i. names s p = Some i \<longrightarrow> i < fresh s) \<and> (\<forall>p q i. names s p = Some i \<longrightarrow> names s q = Some i \<longrightarrow> p = q)"

definition blocks_ok :: "(path \<Rightarrow> bytes) \<Rightarrow> path set \<Rightarrow> fs \<Rightarrow> bool" where
  "blocks_ok block T s \<longleftrightarrow> (\<forall>p i. p \<notin> T \<longrightarrow> names s p = Some i \<longrightarrow> contents s i = block p)"

text \<open>The block files that a loader has tried to remove after a read that returned fewer bytes than it asked for.\<close>

definition short_loads :: "procs \<Rightarrow> path set" where
  "short_loads P = {p. \<exists>j n bs. P j = Loader p n (Load_done EIO (Some bs)) \<and> length bs < n}"

text \<open>What holds of a process at each of its program points, when the files \<open>R\<close> may have been removed.\<close>

definition proc_ok :: "(path \<Rightarrow> bytes) \<Rightarrow> path set \<Rightarrow> path set \<Rightarrow> fs \<Rightarrow> proc \<Rightarrow> bool" where
  "proc_ok block T R s pr \<longleftrightarrow>
     (case pr of
        Storer tmp dest src pc \<Rightarrow>
          (case pc of
             Store_write fd \<Rightarrow> names s tmp = Some fd \<and> contents s fd = []
           | Store_close fd \<Rightarrow> names s tmp = Some fd \<and> contents s fd = src
           | Store_rename \<Rightarrow> (\<exists>fd. names s tmp = Some fd \<and> contents s fd = src)
           | Store_abort e \<Rightarrow> e \<noteq> 0
           | Store_unlink e \<Rightarrow> e = 0 \<longrightarrow> names s dest \<noteq> None \<or> dest \<in> R
           | Store_done e \<Rightarrow> e = 0 \<longrightarrow> names s dest \<noteq> None \<or> dest \<in> R
           | _ \<Rightarrow> True)
      | Loader p n pc \<Rightarrow>
          (case pc of
             Load_read fd \<Rightarrow> fd < fresh s \<and> contents s fd = block p \<and> (\<forall>q. names s q = Some fd \<longrightarrow> q \<notin> T)
           | Load_short bs \<Rightarrow> length bs < n
           | Load_unlink bs \<Rightarrow> length bs < n
           | Load_close bs \<Rightarrow> bs = block p
           | Load_error e \<Rightarrow> e \<noteq> 0
           | Load_done e b \<Rightarrow> e = 0 \<longrightarrow> b = Some (block p)
           | _ \<Rightarrow> True))"

text \<open>What one step of the owner of the temporary path \<open>me\<close> may do to the file system; it removes no block but one of \<open>R\<close>.\<close>

definition guarantee :: "path set \<Rightarrow> path set \<Rightarrow> path option \<Rightarrow> fs \<Rightarrow> fs \<Rightarrow> bool" where
  "guarantee T R me s s' \<longleftrightarrow> fresh s \<le> fresh s' \<and>
     (\<forall>p \<in> T. Some p \<noteq> me \<longrightarrow> names s' p = names s p) \<and>
     (\<forall>p. p \<notin> T \<longrightarrow> names s p \<noteq> None \<longrightarrow> names s' p \<noteq> None \<or> p \<in> R) \<and>
     (\<forall>i < fresh s. (\<forall>p. me = Some p \<longrightarrow> names s p \<noteq> Some i) \<longrightarrow> contents s' i = contents s i \<and> (\<forall>q \<in> T. names s' q = Some i \<longrightarrow> names s q = Some i))"

lemma guaranteeD:
  assumes "guarantee T R me s s'"
  shows "fresh s \<le> fresh s'" "p \<in> T \<Longrightarrow> Some p \<noteq> me \<Longrightarrow> names s' p = names s p" "q \<notin> T \<Longrightarrow> names s q \<noteq> None \<Longrightarrow> names s' q \<noteq> None \<or> q \<in> R"
    "i < fresh s \<Longrightarrow> (\<And>p. me = Some p \<Longrightarrow> names s p \<noteq> Some i) \<Longrightarrow> contents s' i = contents s i"
    "i < fresh s \<Longrightarrow> (\<And>p. me = Some p \<Longrightarrow> names s p \<noteq> Some i) \<Longrightarrow> r \<in> T \<Longrightarrow> names s' r = Some i \<Longrightarrow> names s r = Some i"
  using assms unfolding guarantee_def by blast+

lemma proc_ok_stable:
  assumes g: "guarantee T R me s s'" and ok: "proc_ok block T Q s pr" "Q \<subseteq> R" "fs_ok s" "temp_of pr \<noteq> me \<or> me = None"
    and T: "\<And>p. temp_of pr = Some p \<Longrightarrow> p \<in> T" "\<And>p. me = Some p \<Longrightarrow> p \<in> T"
      "\<And>tmp dest src pc. pr = Storer tmp dest src pc \<Longrightarrow> dest \<notin> T"
  shows "proc_ok block T R s' pr"
proof (cases pr)
  case (Storer tmp dest src pc)
  have t: "names s' tmp = names s tmp" using g T(1) [of tmp] ok(4) Storer unfolding guarantee_def by auto
  have d: "names s dest \<noteq> None \<or> dest \<in> Q \<Longrightarrow> names s' dest \<noteq> None \<or> dest \<in> R"
    using guaranteeD(3) [OF g T(3) [OF Storer]] ok(2) by auto
  have "contents s' fd = contents s fd" if "names s tmp = Some fd" for fd
  proof -
    have "fd < fresh s" "\<forall>p. me = Some p \<longrightarrow> names s p \<noteq> Some fd" using ok(3,4) that Storer unfolding fs_ok_def by auto
    then show ?thesis using guaranteeD(4) [OF g] by blast
  qed
  moreover have "e = 0 \<longrightarrow> names s' dest \<noteq> None \<or> dest \<in> R" if "e = 0 \<longrightarrow> names s dest \<noteq> None \<or> dest \<in> Q" for e :: errno
    using that d by blast
  ultimately show ?thesis using ok(1) t Storer by (cases pc) (auto simp: proc_ok_def)
next
  case (Loader p n pc)
  have "contents s' fd = contents s fd" "\<forall>q. names s' q = Some fd \<longrightarrow> q \<notin> T"
    if fd: "fd < fresh s" "\<forall>q. names s q = Some fd \<longrightarrow> q \<notin> T" for fd
  proof -
    have "\<forall>p. me = Some p \<longrightarrow> names s p \<noteq> Some fd" using fd(2) T(2) by blast
    then have m: "\<And>p. me = Some p \<Longrightarrow> names s p \<noteq> Some fd" by blast
    show "contents s' fd = contents s fd" by (rule guaranteeD(4) [OF g fd(1) m])
    show "\<forall>q. names s' q = Some fd \<longrightarrow> q \<notin> T" using guaranteeD(5) [OF g fd(1) m] fd(2) by blast
  qed
  moreover have "fresh s \<le> fresh s'" using g by (simp add: guarantee_def)
  ultimately show ?thesis using ok(1) Loader by (cases pc) (auto simp: proc_ok_def)
qed

lemma store_step_ok:
  assumes st: "store_step f tmp dest src pc s = (pc', s')" and f: "f \<noteq> Fails 0"
    and ok: "fs_ok s" "blocks_ok block T s" "proc_ok block T R s (Storer tmp dest src pc)"
    and c: "tmp \<in> T" "dest \<notin> T" "src = block dest"
  shows "fs_ok s' \<and> blocks_ok block T s' \<and> proc_ok block T R s' (Storer tmp dest src pc') \<and> guarantee T R (Some tmp) s s'"
proof -
  have ne: "tmp \<noteq> dest" using c by blast
  have same: "fs_ok s \<and> blocks_ok block T s \<and> guarantee T R (Some tmp) s s" using ok by (simp add: guarantee_def)
  have unl: "fs_ok (sys_unlink f tmp s) \<and> blocks_ok block T (sys_unlink f tmp s) \<and> guarantee T R (Some tmp) s (sys_unlink f tmp s)"
    using ok(1,2) c(1) by (cases f) (auto simp: sys_unlink_def fs_ok_def blocks_ok_def guarantee_def)
  show ?thesis
  proof (cases pc)
    case Store_open
    show ?thesis
    proof (cases "fst (sys_create_excl f tmp s)")
      case (Inl e)
      then have "s' = s" "pc' = Store_done e" "e \<noteq> 0" using st Store_open f
        by (auto simp: store_step_def sys_create_excl_def EEXIST_def split: fault.splits if_splits)
      then show ?thesis using same by (simp add: proc_ok_def)
    next
      case (Inr fd)
      then have r: "pc' = Store_write (fresh s)" "names s tmp = None"
        "s' = s\<lparr>names := (names s)(tmp \<mapsto> fresh s), contents := (contents s)(fresh s := []), fresh := fresh s + 1\<rparr>"
        using st Store_open by (auto simp: store_step_def sys_create_excl_def split: fault.splits if_splits)
      have old: "names s p = Some i \<Longrightarrow> i < fresh s" for p i using ok(1) by (simp add: fs_ok_def)
      have new: "names s p \<noteq> Some (fresh s)" for p using old [of p "fresh s"] by auto
      have "fs_ok s'" using ok(1) old new r unfolding fs_ok_def by (auto simp: less_Suc_eq split: if_splits)
      moreover have "blocks_ok block T s'" using ok(2) new r c(1) unfolding blocks_ok_def by (auto split: if_splits)
      moreover have "guarantee T R (Some tmp) s s'" using r c(1) unfolding guarantee_def by auto
      ultimately show ?thesis using r by (simp add: proc_ok_def)
    qed
  next
    case (Store_write fd)
    then have w: "names s tmp = Some fd" "contents s fd = []" using ok(3) by (simp_all add: proc_ok_def)
    obtain bs where s': "s' = s\<lparr>contents := (contents s)(fd := bs)\<rparr>" and
      pc': "(\<exists>e. e \<noteq> 0 \<and> pc' = Store_abort e) \<or> pc' = Store_close fd \<and> bs = src"
    proof (cases f)
      case Works then show thesis using st Store_write w that [of src] by (auto simp: store_step_def sys_write_def)
    next
      case (Fails e)
      then have "s' = s" "pc' = Store_abort e" using st Store_write by (auto simp: store_step_def sys_write_def)
      then show thesis using w f Fails that [of "[]"] by (auto simp: fun_upd_idem)
    next
      case (Short n)
      then show thesis using st Store_write w that [of "take n src"] by (auto simp: store_step_def sys_write_def EIO_def split: if_splits)
    qed
    have only: "names s p = Some fd \<Longrightarrow> p = tmp" for p using ok(1) w(1) by (simp add: fs_ok_def)
    have "blocks_ok block T s'" using ok(2) only c(1) unfolding s' blocks_ok_def by auto
    moreover have "fs_ok s'" using ok(1) unfolding s' fs_ok_def by simp
    moreover have "guarantee T R (Some tmp) s s'" using w(1) unfolding s' guarantee_def by auto
    ultimately show ?thesis using pc' w(1) s' by (auto simp: proc_ok_def)
  next
    case Store_rename
    then obtain fd where w: "names s tmp = Some fd" "contents s fd = src" using ok(3) by (auto simp: proc_ok_def)
    show ?thesis
    proof (cases "fst (sys_rename f tmp dest s)")
      case None
      then have r: "pc' = Store_done 0" "s' = s\<lparr>names := (names s)(tmp := None, dest \<mapsto> fd)\<rparr>"
        using st Store_rename w by (auto simp: store_step_def sys_rename_def split: fault.splits)
      have "fs_ok s'" using ok(1) w(1) ne unfolding r(2) fs_ok_def by (auto split: if_splits)
      moreover have "blocks_ok block T s'" using ok(2) w c unfolding r(2) blocks_ok_def by auto
      moreover have "guarantee T R (Some tmp) s s'" using w(1) c unfolding r(2) guarantee_def by auto
      ultimately show ?thesis using r by (simp add: proc_ok_def)
    next
      case (Some e)
      then have "s' = s" "pc' = Store_unlink (if e = EEXIST then 0 else e)" "e = EEXIST \<Longrightarrow> names s dest \<noteq> None" "e \<noteq> 0"
        using st Store_rename w f by (auto simp: store_step_def sys_rename_def EIO_def EEXIST_def split: fault.splits if_splits)
      then show ?thesis using same by (simp add: proc_ok_def EEXIST_def)
    qed
  next
    case (Store_unlink e)
    then have r: "pc' = Store_done e" "s' = sys_unlink f tmp s" using st by (auto simp: store_step_def)
    have "names s dest \<noteq> None \<Longrightarrow> names s' dest \<noteq> None" using r ne by (cases f) (auto simp: sys_unlink_def)
    then have "e = 0 \<longrightarrow> names s' dest \<noteq> None \<or> dest \<in> R" using ok(3) Store_unlink by (simp add: proc_ok_def) blast
    then show ?thesis using unl r by (simp add: proc_ok_def)
  next
    case Store_access
    then show ?thesis using st same by (auto simp: store_step_def sys_access_def proc_ok_def split: if_splits fault.splits)
  next
    case Store_dirs
    then show ?thesis using st same by (auto simp: store_step_def proc_ok_def Let_def split: if_splits)
  next
    case (Store_close fd)
    then show ?thesis using st same ok(3) f by (cases f) (auto simp: store_step_def sys_close_def proc_ok_def)
  next
    case (Store_abort e) then show ?thesis using st same ok(3) by (auto simp: store_step_def proc_ok_def)
  next
    case (Store_done e) then show ?thesis using st same ok(3) by (auto simp: store_step_def)
  qed
qed

lemma load_step_ok:
  assumes st: "load_step f p n pc s = (pc', s')" and f: "f \<noteq> Fails 0"
    and ok: "fs_ok s" "blocks_ok block T s" "proc_ok block T R s (Loader p n pc)" and c: "p \<notin> T" "n = length (block p)"
    and R: "R \<subseteq> R'" "\<And>bs. pc' = Load_done EIO (Some bs) \<Longrightarrow> length bs < n \<Longrightarrow> p \<in> R'"
  shows "fs_ok s' \<and> blocks_ok block T s' \<and> proc_ok block T R' s' (Loader p n pc') \<and> guarantee T R' None s s'"
proof -
  have same: "fs_ok s \<and> blocks_ok block T s \<and> guarantee T R' None s s" using ok by (simp add: guarantee_def)
  show ?thesis
  proof (cases pc)
    case Load_open
    have "i < fresh s \<and> contents s i = block p \<and> (\<forall>q. names s q = Some i \<longrightarrow> q \<notin> T)" if "names s p = Some i" for i
      using ok(1,2) c(1) that unfolding fs_ok_def blocks_ok_def by metis
    then show ?thesis using st Load_open f same
      by (auto simp: load_step_def sys_open_read_def proc_ok_def ENOENT_def split: fault.splits option.splits)
  next
    case (Load_read fd)
    then show ?thesis using st ok(3) c(2) f same
      by (auto simp: load_step_def sys_read_def proc_ok_def min_def split: fault.splits if_splits)
  next
    case (Load_unlink bs)
    then have r: "pc' = Load_done EIO (Some bs)" "s' = sys_unlink f p s" "length bs < n" using st ok(3) by (auto simp: load_step_def proc_ok_def)
    then have "p \<in> R'" using R(2) by blast
    then have "fs_ok s' \<and> blocks_ok block T s' \<and> guarantee T R' None s s'"
      using same ok(1,2) c(1) r(2) by (cases f) (auto simp: sys_unlink_def fs_ok_def blocks_ok_def guarantee_def)
    then show ?thesis using r(1) by (simp add: proc_ok_def EIO_def)
  qed (use st ok(3) same in \<open>auto simp: load_step_def proc_ok_def\<close>)
qed

definition io_inv :: "(path \<Rightarrow> bytes) \<Rightarrow> path set \<Rightarrow> procs \<Rightarrow> fs \<Rightarrow> bool" where
  "io_inv block T P s \<longleftrightarrow> io_config block P \<and> temps P = T \<and> fs_ok s \<and> blocks_ok block T s \<and>
     (\<forall>j. proc_ok block T (short_loads P) s (P j))"

lemma short_loads_mono:
  assumes "P j = Storer tmp dest src pc \<and> pr = Storer tmp dest src pc' \<or>
    P j = Loader p n lc \<and> pr = Loader p n lc' \<and> load_step f p n lc s = (lc', s')"
  shows "short_loads P \<subseteq> short_loads (P(j := pr))"
proof
  fix q assume "q \<in> short_loads P"
  then obtain i m bs where i: "P i = Loader q m (Load_done EIO (Some bs))" "length bs < m" by (auto simp: short_loads_def)
  then have "(P(j := pr)) i = Loader q m (Load_done EIO (Some bs))" using assms by (auto simp: load_step_def)
  then show "q \<in> short_loads (P(j := pr))" using i(2) unfolding short_loads_def by blast
qed

lemma temps_upd: "temp_of pr = temp_of (P j) \<Longrightarrow> temps (P(j := pr)) = temps P"
  unfolding temps_def by auto

lemma config_upd:
  assumes "io_config block P" "P j = Storer tmp dest src pc \<and> pr = Storer tmp dest src pc' \<or> P j = Loader p n lc \<and> pr = Loader p n lc'"
  shows "io_config block (P(j := pr))"
proof -
  have t: "temp_of pr = temp_of (P j)" using assms(2) by auto
  then have "temp_of ((P(j := pr)) i) = temp_of (P i)" for i by simp
  moreover have "case pr of Storer tmp dest src _ \<Rightarrow> dest \<notin> temps P \<and> src = block dest | Loader p n _ \<Rightarrow> p \<notin> temps P \<and> n = length (block p)"
    using assms unfolding io_config_def by (metis (no_types, lifting) proc.simps(5,6))
  ultimately show ?thesis using assms(1) unfolding io_config_def temps_upd [of pr P j, OF t] by simp blast
qed

lemma io_step_inv:
  assumes inv: "io_inv block T P s" and st: "io_step P s Q s'"
  shows "io_inv block T Q s' \<and> short_loads P \<subseteq> short_loads Q \<and>
    (\<forall>p. p \<notin> T \<longrightarrow> names s p \<noteq> None \<longrightarrow> names s' p \<noteq> None \<or> p \<in> short_loads Q)"
proof -
  have I: "io_config block P" "temps P = T" "fs_ok s" "blocks_ok block T s" "\<And>j. proc_ok block T (short_loads P) s (P j)"
    using inv by (simp_all add: io_inv_def)
  have mem: "temp_of (P i) = Some p \<Longrightarrow> p \<in> T" for i p using I(2) by (auto simp: temps_def)
  have cfg: "case P i of Storer tmp dest src _ \<Rightarrow> dest \<notin> T \<and> src = block dest | Loader p n _ \<Rightarrow> p \<notin> T \<and> n = length (block p)" for i
    using I(1,2) unfolding io_config_def by blast
  have excl: "temp_of (P i) \<noteq> None \<Longrightarrow> temp_of (P i) = temp_of (P j) \<Longrightarrow> i = j" for i j
    using I(1) unfolding io_config_def by blast
  have others: "proc_ok block T (short_loads Q) s' (P i)"
    if "guarantee T (short_loads Q) me s s'" "short_loads P \<subseteq> short_loads Q" "temp_of (P i) \<noteq> me \<or> me = None" "\<And>p. me = Some p \<Longrightarrow> p \<in> T"
    for i me
  proof (rule proc_ok_stable [OF that(1) I(5) that(2) I(3) that(3)])
    show "dest \<notin> T" if "P i = Storer tmp dest src pc" for tmp dest src pc using cfg [of i] that by simp
  qed (use mem that(4) in blast)+
  show ?thesis using st
  proof cases
    case (store j tmp dest src pc f pc')
    have c: "tmp \<in> T" "dest \<notin> T" "src = block dest" using mem [of j tmp] cfg [of j] store(2) by simp_all
    have R: "short_loads P \<subseteq> short_loads Q" using short_loads_mono store(1,2) by blast
    have "proc_ok block T (short_loads P) s (Storer tmp dest src pc)" using I(5) [of j] store(2) by simp
    then have ok: "proc_ok block T (short_loads Q) s (Storer tmp dest src pc)" using R by (cases pc) (auto simp: proc_ok_def)
    note S = store_step_ok [OF store(4,3) I(3,4) ok c]
    then have g: "guarantee T (short_loads Q) (Some tmp) s s'" by blast
    have "proc_ok block T (short_loads Q) s' (Q i)" for i
    proof (cases "i = j")
      case True then show ?thesis using S store(1) by simp
    next
      case False
      then have "temp_of (P i) \<noteq> Some tmp" using excl [of i j] store(2) by auto
      then show ?thesis using others [OF g R, of i] False store(1) c(1) by auto
    qed
    moreover have "temps Q = T" using temps_upd [of "Storer tmp dest src pc'" P j] store(1,2) I(2) by simp
    moreover have "io_config block Q" using config_upd [OF I(1)] store(1,2) by blast
    ultimately show ?thesis using S R guaranteeD(3) [OF g] by (simp add: io_inv_def)
  next
    case (load j p n pc f pc')
    have c: "p \<notin> T" "n = length (block p)" using cfg [of j] load(2) by simp_all
    have R: "short_loads P \<subseteq> short_loads Q" using short_loads_mono load(1,2,4) by blast
    have mine: "p \<in> short_loads Q" if "pc' = Load_done EIO (Some bs)" "length bs < n" for bs
      using that load(1) by (auto simp: short_loads_def)
    have "proc_ok block T (short_loads P) s (Loader p n pc)" using I(5) [of j] load(2) by simp
    note S = load_step_ok [OF load(4,3) I(3,4) this c R mine]
    then have g: "guarantee T (short_loads Q) None s s'" by simp
    have "proc_ok block T (short_loads Q) s' (Q i)" for i
      using S others [OF g R, of i] load(1) by (cases "i = j") auto
    moreover have "temps Q = T" using temps_upd [of "Loader p n pc'" P j] load(1,2) I(2) by simp
    moreover have "io_config block Q" using config_upd [OF I(1)] load(1,2) by blast
    ultimately show ?thesis using S R guaranteeD(3) [OF g] by (simp add: io_inv_def)
  qed
qed

text \<open>The initial state of a process.\<close>

fun at_start :: "proc \<Rightarrow> bool" where
  "at_start (Storer _ _ _ pc) \<longleftrightarrow> pc = Store_access"
| "at_start (Loader _ _ pc) \<longleftrightarrow> pc = Load_open"

definition io_start :: "(path \<Rightarrow> bytes) \<Rightarrow> procs \<Rightarrow> fs \<Rightarrow> bool" where
  "io_start block P s \<longleftrightarrow> io_config block P \<and> (\<forall>j. at_start (P j)) \<and> fs_ok s \<and> blocks_ok block (temps P) s"

lemma io_reach_inv:
  assumes "io_start block P0 s0" "io_reach P0 s0 P s"
  shows "io_inv block (temps P0) P s \<and> (\<forall>p. p \<notin> temps P0 \<longrightarrow> names s0 p \<noteq> None \<longrightarrow> names s p \<noteq> None \<or> p \<in> short_loads P)"
  using assms(2)
proof induction
  case init
  have "proc_ok block (temps P0) (short_loads P0) s0 (P0 j)" for j
    using assms(1) by (cases "P0 j") (auto simp: io_start_def proc_ok_def dest: spec [of _ j])
  then show ?case using assms(1) by (simp add: io_start_def io_inv_def)
next
  case (step P s Q s') then show ?case using io_step_inv [of block "temps P0" P s Q s'] by blast
qed

text \<open>C6. Temporary paths belong to one store each and are not block names, a block name determines the content (a store writes, and a load asks
  for, exactly the block of its name), and the files are right at the start.  Then, however the system calls of concurrent stores
  and loads interleave, whichever of them fail, and however few bytes a read or a write transfers, a file under a block name holds
  exactly its block; a load that returned 0 delivered the block; and a block that was present at the start, or whose store
  returned 0, is in place with its content unless a load of that name has removed it after a read that returned fewer bytes than asked for.\<close>

theorem blocks_published_atomically:
  assumes "io_start block P0 s0" "io_reach P0 s0 P s"
  shows "(\<forall>p i. p \<notin> temps P0 \<longrightarrow> names s p = Some i \<longrightarrow> contents s i = block p) \<and>
    (\<forall>j p n b. P j = Loader p n (Load_done 0 b) \<longrightarrow> b = Some (block p)) \<and>
    (\<forall>p. p \<notin> temps P0 \<longrightarrow> names s0 p \<noteq> None \<or> (\<exists>j tmp src. P j = Storer tmp p src (Store_done 0)) \<longrightarrow>
       (\<exists>i. names s p = Some i \<and> contents s i = block p) \<or>
       (\<exists>j n bs. P j = Loader p n (Load_done EIO (Some bs)) \<and> length bs < n))"
proof -
  note R = io_reach_inv [OF assms]
  then have I: "blocks_ok block (temps P0) s" "\<And>j. proc_ok block (temps P0) (short_loads P) s (P j)"
    by (simp_all add: io_inv_def)
  have b: "p \<notin> temps P0 \<Longrightarrow> names s p = Some i \<Longrightarrow> contents s i = block p" for p i using I(1) by (simp add: blocks_ok_def)
  have "names s p \<noteq> None \<or> p \<in> short_loads P" if "P j = Storer tmp p src (Store_done 0)" for j tmp p src
    using I(2) [of j] that by (simp add: proc_ok_def)
  then have "(\<exists>i. names s p = Some i) \<or> p \<in> short_loads P"
    if "p \<notin> temps P0" "names s0 p \<noteq> None \<or> (\<exists>j tmp src. P j = Storer tmp p src (Store_done 0))" for p
    using R that by (metis not_None_eq)
  then have "(\<exists>i. names s p = Some i \<and> contents s i = block p) \<or> (\<exists>j n bs. P j = Loader p n (Load_done EIO (Some bs)) \<and> length bs < n)"
    if "p \<notin> temps P0" "names s0 p \<noteq> None \<or> (\<exists>j tmp src. P j = Storer tmp p src (Store_done 0))" for p
    using b [OF that(1)] that unfolding short_loads_def by blast
  moreover have "b' = Some (block p)" if "P j = Loader p n (Load_done 0 b')" for j p n b' using I(2) [of j] that by (simp add: proc_ok_def)
  ultimately show ?thesis using b by blast
qed

definition demo_block :: "path \<Rightarrow> bytes" where
  "demo_block p = [1, 2]"

definition demo_fs :: fs where
  "demo_fs = \<lparr>names = (\<lambda>_. None), contents = (\<lambda>_. []), fresh = 0\<rparr>"

definition demo_procs :: "store_pc \<Rightarrow> load_pc \<Rightarrow> procs" where
  "demo_procs pc lc = (\<lambda>j. if j = 0 then Storer [116] [100] [1, 2] pc else if j = 1 then Loader [100] 2 lc else Loader [100] 2 Load_open)"

lemma demo_procs_step:
  "(demo_procs pc lc)(0 := Storer [116] [100] [1, 2] pc') = demo_procs pc' lc" "(demo_procs pc lc)(1 := Loader [100] 2 lc') = demo_procs pc lc'"
  by (auto simp: demo_procs_def)

lemma demo_store_step:
  assumes "io_reach P0 s0 (demo_procs pc lc) s" "store_step Works [116] [100] [1, 2] pc s = (pc', s')"
  shows "io_reach P0 s0 (demo_procs pc' lc) s'"
proof (rule io_reach.step [OF assms(1)])
  have "io_step (demo_procs pc lc) s ((demo_procs pc lc)(0 := Storer [116] [100] [1, 2] pc')) s'"
    by (rule io_step.store [where f = Works, OF _ _ assms(2)]) (simp_all add: demo_procs_def)
  then show "io_step (demo_procs pc lc) s (demo_procs pc' lc) s'" unfolding demo_procs_step .
qed

lemma demo_load_step:
  assumes "io_reach P0 s0 (demo_procs pc lc) s" "load_step (Short 1) [100] 2 lc s = (lc', s')"
  shows "io_reach P0 s0 (demo_procs pc lc') s'"
proof (rule io_reach.step [OF assms(1)])
  have "io_step (demo_procs pc lc) s ((demo_procs pc lc)(1 := Loader [100] 2 lc')) s'"
    by (rule io_step.load [where f = "Short 1", OF _ _ assms(2)]) (simp_all add: demo_procs_def)
  then show "io_step (demo_procs pc lc) s (demo_procs pc lc') s'" unfolding demo_procs_step .
qed

lemma demo_run:
  "io_reach P0 s0 (demo_procs pc lc) s \<Longrightarrow> store_run (\<lambda>_. Works) [116] [100] [1, 2] n pc s = (pc', s') \<Longrightarrow>
    io_reach P0 s0 (demo_procs pc' lc) s'"
  by (induction n arbitrary: pc s) (auto split: prod.splits dest: demo_store_step)

lemma demo_load_run:
  "io_reach P0 s0 (demo_procs pc lc) s \<Longrightarrow> load_run (\<lambda>_. Short 1) [100] 2 n lc s = (lc', s') \<Longrightarrow> io_reach P0 s0 (demo_procs pc lc') s'"
  by (induction n arbitrary: lc s) (auto split: prod.splits dest: demo_load_step)

lemma demo_start: "io_start demo_block (demo_procs Store_access Load_open) demo_fs"
proof -
  have "temps (demo_procs Store_access Load_open) = {[116]}" by (auto simp: temps_def demo_procs_def split: if_splits)
  then show ?thesis
    by (auto simp: io_start_def io_config_def demo_procs_def demo_block_def fs_ok_def blocks_ok_def demo_fs_def)
qed

text \<open>A store completes and its block is in place; a read of this complete block then returns one of its two bytes, and the load removes it.\<close>

theorem blocks_published_atomically_witness:
  "\<exists>P s i. io_reach (demo_procs Store_access Load_open) demo_fs P s \<and> P 0 = Storer [116] [100] [1, 2] (Store_done 0) \<and>
    names s [100] = Some i \<and> contents s i = [1, 2] \<and>
    (\<exists>Q t. io_reach (demo_procs Store_access Load_open) demo_fs Q t \<and> Q 1 = Loader [100] 2 (Load_done EIO (Some [1])) \<and> names t [100] = None)"
proof -
  let ?P = "demo_procs (Store_done 0) Load_open"
  have "\<exists>s. store_run (\<lambda>_. Works) [116] [100] [1, 2] 8 Store_access demo_fs = (Store_done 0, s)"
    by (simp add: eval_nat_numeral store_step_def sys_access_def ensure_parent_dirs_def sys_create_excl_def sys_write_def sys_close_def
        sys_rename_def demo_fs_def Let_def)
  then obtain s where r: "io_reach (demo_procs Store_access Load_open) demo_fs ?P s" using demo_run [OF io_reach.init] by blast
  have P: "?P 0 = Storer [116] [100] [1, 2] (Store_done 0)" and T: "[100] \<notin> temps (demo_procs Store_access Load_open)"
    by (auto simp: demo_procs_def temps_def split: if_splits)
  have "\<not> (\<exists>j n bs. ?P j = Loader [100] n (Load_done EIO (Some bs)) \<and> length bs < n)" by (auto simp: demo_procs_def split: if_splits)
  then obtain i where i: "names s [100] = Some i" "contents s i = [1, 2]"
    using blocks_published_atomically [OF demo_start r] P T unfolding demo_block_def by blast
  have "\<exists>t. load_run (\<lambda>_. Short 1) [100] 2 4 Load_open s = (Load_done EIO (Some [1]), t) \<and> names t [100] = None"
    using i by (simp add: eval_nat_numeral load_step_def sys_open_read_def sys_read_def sys_unlink_def)
  then obtain t where "io_reach (demo_procs Store_access Load_open) demo_fs (demo_procs (Store_done 0) (Load_done EIO (Some [1]))) t"
    "names t [100] = None" using demo_load_run [OF r] by blast
  moreover have "demo_procs (Store_done 0) (Load_done EIO (Some [1])) 1 = Loader [100] 2 (Load_done EIO (Some [1]))"
    by (simp add: demo_procs_def)
  ultimately show ?thesis using r P i by blast
qed

section \<open>Partial success of a batch load\<close>

definition loaded :: "fs \<Rightarrow> path \<Rightarrow> bytes \<Rightarrow> bytes \<Rightarrow> bool" where
  "loaded s p old new \<longleftrightarrow> (\<exists>fd. names s p = Some fd \<and> length old \<le> length (contents s fd) \<and> new = take (length old) (contents s fd))"

text \<open>A read returned the bytes \<open>bs\<close>, too few for the buffer: all there are in the file, or fewer because the read was cut short.\<close>

definition short_read :: "(nat \<Rightarrow> fault) \<Rightarrow> fs \<Rightarrow> path \<Rightarrow> bytes \<Rightarrow> bytes \<Rightarrow> bool" where
  "short_read f s p old new \<longleftrightarrow>
     (\<exists>fd bs. names s p = Some fd \<and> length bs < length old \<and> bs = take (length bs) (contents s fd) \<and> new = bs @ drop (length bs) old \<and>
        (bs = contents s fd \<or> (\<exists>j k. f j = Short k)))"

lemma unlink_cases: "sys_unlink f p s = s \<or> sys_unlink f p s = s\<lparr>names := (names s)(p := None)\<rparr>"
  by (cases f) (simp_all add: sys_unlink_def)

lemma load_run_split:
  "load_block f p n s =
     (case sys_open_read (f 3) p s of
        Inl e \<Rightarrow> (Some (e, None), s)
      | Inr fd \<Rightarrow>
          (case sys_read (f 2) fd n s of
             Inl e \<Rightarrow> (Some (e, None), s)
           | Inr bs \<Rightarrow> if length bs < n then (Some (EIO, Some bs), sys_unlink (f 0) p s) else (Some (0, Some bs), s)))"
  by (simp add: load_block_def eval_nat_numeral load_step_def split: sum.splits)

lemma load_block_cases:
  assumes l: "load_block f p (length old) s = (Some (e, b), s')" and f: "\<forall>k. f k \<noteq> Fails 0"
  shows "e = 0 \<and> s' = s \<and> loaded s p old (fill_buffer old b) \<or>
    e \<noteq> 0 \<and> (s' = s \<or> s' = s\<lparr>names := (names s)(p := None)\<rparr> \<and> short_read f s p old (fill_buffer old b))"
proof (cases "sys_open_read (f 3) p s")
  case (Inl e')
  then have "e' \<noteq> 0" using f [rule_format, of 3] by (auto simp: sys_open_read_def ENOENT_def split: fault.splits option.splits)
  then show ?thesis using l Inl by (auto simp: load_run_split)
next
  case (Inr fd)
  then have fd: "names s p = Some fd" by (auto simp: sys_open_read_def split: fault.splits option.splits)
  show ?thesis
  proof (cases "sys_read (f 2) fd (length old) s")
    case Inl2: (Inl e')
    then have "e' \<noteq> 0" using f [rule_format, of 2] by (auto simp: sys_read_def split: fault.splits)
    then show ?thesis using l Inr Inl2 by (auto simp: load_run_split)
  next
    case Inr2: (Inr bs)
    have "\<exists>k \<le> length old. bs = take k (contents s fd)" using Inr2
      by (auto simp: sys_read_def intro: exI [of _ "min _ (length old)"] split: fault.splits)
    then have bs: "bs = take (length bs) (contents s fd)" "length bs \<le> length old" by (auto simp: min_def)
    have all: "bs = contents s fd \<or> (\<exists>j k. f j = Short k)" if "length bs < length old"
      using Inr2 that by (auto simp: sys_read_def split: fault.splits)
    show ?thesis
    proof (cases "length bs < length old")
      case True
      have "short_read f s p old (fill_buffer old (Some bs))"
        unfolding short_read_def fill_buffer_def using fd True bs(1) all [OF True] by auto
      then show ?thesis using l Inr Inr2 True unlink_cases [of "f 0" p s] by (auto simp: load_run_split EIO_def)
    next
      case False
      then have len: "length bs = length old" using bs(2) by simp
      then have "bs = take (length old) (contents s fd)" using bs(1) by simp
      moreover from this have "length old \<le> length (contents s fd)" using len by simp
      ultimately have "loaded s p old (fill_buffer old (Some bs))" using fd len by (auto simp: loaded_def fill_buffer_def)
      then show ?thesis using l Inr Inr2 False by (auto simp: load_run_split)
    qed
  qed
qed

lemma load_loop_cases:
  assumes "load_loop f i bs s = (r, bufs, s')" "\<forall>i k. f i k \<noteq> Fails 0"
  shows "length bufs = length bs \<and>
    (case r of None \<Rightarrow> s' = s \<and> (\<forall>k < length bs. loaded s (fst (bs ! k)) (snd (bs ! k)) (bufs ! k))
     | Some (j, e) \<Rightarrow> e \<noteq> 0 \<and> i \<le> j \<and> j - i < length bs \<and> (\<forall>k < j - i. loaded s (fst (bs ! k)) (snd (bs ! k)) (bufs ! k)) \<and>
         (\<forall>k < length bs. j - i < k \<longrightarrow> bufs ! k = snd (bs ! k)) \<and>
         (s' = s \<or> s' = s\<lparr>names := (names s)(fst (bs ! (j - i)) := None)\<rparr> \<and>
            short_read (f j) s (fst (bs ! (j - i))) (snd (bs ! (j - i))) (bufs ! (j - i))))"
  using assms(1)
proof (induction bs arbitrary: i r bufs s')
  case (Cons b bs)
  obtain p old where b: "b = (p, old)" by fastforce
  obtain e new s1 where l: "load_block (f i) p (length old) s = (Some (e, new), s1)"
    using load_block_returns [of "f i" p "length old" s] by (metis prod.collapse)
  have "\<forall>k. f i k \<noteq> Fails 0" using assms(2) by blast
  note C = load_block_cases [OF l this]
  show ?case
  proof (cases "e = 0")
    case True
    obtain r1 bufs1 s2 where rest: "load_loop f (i + 1) bs s = (r1, bufs1, s2)" by (metis prod_cases3)
    have eq: "r = r1" "bufs = fill_buffer old new # bufs1" "s' = s2" and ld: "loaded s p old (fill_buffer old new)"
      using Cons.prems b l True C rest by auto
    note IH = Cons.IH [OF rest]
    show ?thesis
    proof (cases r1)
      case None then show ?thesis using IH eq ld b by (auto simp: nth_Cons split: nat.splits)
    next
      case (Some je)
      obtain j e' where je: "je = (j, e')" by fastforce
      define q where "q = j - (i + 1)"
      have d: "i \<le> j" "j - i = Suc q" using IH Some je by (auto simp: q_def)
      show ?thesis using IH [unfolded Some je option.case prod.case, folded q_def] eq ld b Some je d
        by (auto simp: nth_Cons split: nat.splits)
    qed
  next
    case False
    then have "r = Some (i, e)" "bufs = fill_buffer old new # map snd bs" "s' = s1" using Cons.prems b l by auto
    then show ?thesis using False C b by (auto simp: nth_Cons split: nat.splits)
  qed
qed simp

lemma extract_str_list_iff: "extract_str_list paths = Some ps \<longleftrightarrow> paths = map Py_str ps"
  by (induction paths arbitrary: ps rule: extract_str_list.induct) auto

lemma extract_str_list_None: "extract_str_list paths = None \<longleftrightarrow> Py_not_str \<in> set paths"
  by (induction paths rule: extract_str_list.induct) auto

lemma extract_buffer_list_iff: "snd (extract_buffer_list i bufs) = Some bs \<longleftrightarrow> bufs = map Py_buf bs"
proof (induction i bufs arbitrary: bs rule: extract_buffer_list.induct)
  case (3 i b bufs)
  obtain ev r where e: "extract_buffer_list (i + 1) bufs = (ev, r)" by fastforce
  have IH: "r = Some xs \<longleftrightarrow> bufs = map Py_buf xs" for xs using 3 [of xs] e by simp
  show ?case using e IH [of "tl bs"] by (cases bs) auto
qed auto

lemma extract_buffer_list_None: "snd (extract_buffer_list i bufs) = None \<longleftrightarrow> Py_not_buffer \<in> set bufs"
  by (induction i bufs rule: extract_buffer_list.induct) (auto split: prod.splits)

text \<open>What an outcome of a batch load means.\<close>

definition load_outcome ::
  "(nat \<Rightarrow> nat \<Rightarrow> fault) \<Rightarrow> py_path list \<Rightarrow> py_buffer list \<Rightarrow> fs \<Rightarrow> py_outcome \<Rightarrow> bytes list \<Rightarrow> fs \<Rightarrow> bool" where
  "load_outcome f paths bufs s out new s' =
     (case out of
        Value_error _ \<Rightarrow> length paths \<noteq> length bufs \<and> s' = s
      | Conversion_error \<Rightarrow> (Py_not_str \<in> set paths \<or> Py_not_buffer \<in> set bufs) \<and> s' = s
      | Returns_none \<Rightarrow> (\<exists>ps old. paths = map Py_str ps \<and> bufs = map Py_buf old \<and> length ps = length old \<and> s' = s \<and>
          (\<forall>k < length ps. loaded s (ps ! k) (old ! k) (new ! k)))
      | Os_error e p n \<Rightarrow> (\<exists>ps old k. paths = map Py_str ps \<and> bufs = map Py_buf old \<and> length ps = length old \<and>
          k < length ps \<and> n = Some k \<and> p = ps ! k \<and> e \<noteq> 0 \<and> (\<forall>i < k. loaded s (ps ! i) (old ! i) (new ! i)) \<and>
          (\<forall>i < length ps. k < i \<longrightarrow> new ! i = old ! i) \<and>
          (s' = s \<or> s' = s\<lparr>names := (names s)(p := None)\<rparr> \<and> short_read (f k) s p (old ! k) (new ! k)))
      | Returns_bools _ \<Rightarrow> False)"

lemma load_outcome_run:
  assumes f: "\<forall>i k. f i k \<noteq> Fails 0" and l: "load_loop f 0 (zip ps old) s = (r, nb, s1)" and len: "length ps = length old"
  shows "load_outcome f (map Py_str ps) (map Py_buf old) s
    (case r of None \<Rightarrow> Returns_none | Some (i, err) \<Rightarrow> Os_error err (ps ! i) (Some i)) nb s1"
proof -
  note C = load_loop_cases [OF l f]
  show ?thesis
  proof (cases r)
    case None
    show ?thesis unfolding load_outcome_def None option.case py_outcome.case
      by (rule exI [of _ ps], rule exI [of _ old]) (use C len None in auto)
  next
    case (Some je)
    obtain j e where je: "je = (j, e)" by fastforce
    have j: "j < length ps" using C Some je len by simp
    then have z: "zip ps old ! k = (ps ! k, old ! k)" if "k < length ps" for k using len that by simp
    have "e \<noteq> 0 \<and> (\<forall>i < j. loaded s (ps ! i) (old ! i) (nb ! i)) \<and> (\<forall>i < length ps. j < i \<longrightarrow> nb ! i = old ! i) \<and>
        (s1 = s \<or> s1 = s\<lparr>names := (names s)(ps ! j := None)\<rparr> \<and> short_read (f j) s (ps ! j) (old ! j) (nb ! j))"
      using C Some je len j z by (simp add: less_trans [OF _ j])
    then show ?thesis unfolding load_outcome_def Some je option.case prod.case py_outcome.case
      by (intro exI [of _ ps] exI [of _ old] exI [of _ j]) (use j len in auto)
  qed
qed

text \<open>C27. A batch load releases every buffer that it acquired exactly once, on every path: also when the arguments do not match, when one of them
  is not a string or a buffer and only some buffers have been acquired, and when a load fails.  When it raises \<open>OSError\<close>, the exception
  names the failing path and \<open>num_succeeded\<close> counts the blocks before it, which are completely loaded, while the later buffers are
  untouched; the only change to the file system is the removal of the failing path, after a read that returned too few bytes, because
  the file is shorter than the buffer or because the read was cut short.  When it returns, all blocks are loaded and the file system is
  unchanged.  It raises another exception only for lists of different lengths and for elements of the wrong type, before any file is touched.\<close>

theorem batch_load_partial_success:
  assumes f: "\<forall>i k. f i k \<noteq> Fails 0" and run: "batch_load_block f paths bufs s = (out, ev, new, s')"
  shows "balanced ev \<and> load_outcome f paths bufs s out new s'"
proof (cases "length bufs = length paths")
  case False
  then show ?thesis using run by (auto simp: batch_load_block_def Let_def balanced_def load_outcome_def)
next
  case True
  show ?thesis
  proof (cases "extract_str_list paths")
    case None
    then show ?thesis using run True extract_str_list_None [of paths]
      by (auto simp: batch_load_block_def Let_def balanced_def load_outcome_def)
  next
    case (Some ps)
    then have ps: "paths = map Py_str ps" by (simp add: extract_str_list_iff)
    obtain ev0 r where ev0: "extract_buffer_list 0 bufs = (ev0, r)" by fastforce
    show ?thesis
    proof (cases r)
      case None
      then have "Py_not_buffer \<in> set bufs" using extract_buffer_list_None [of 0 bufs] ev0 by simp
      then show ?thesis using run True Some ev0 None balanced_extract [OF ev0]
        by (auto simp: batch_load_block_def Let_def load_outcome_def)
    next
      case r: (Some old)
      then have old: "bufs = map Py_buf old" using extract_buffer_list_iff [of 0 bufs old] ev0 by simp
      obtain r1 nb s1 where l: "load_loop f 0 (zip ps old) s = (r1, nb, s1)" by (metis prod_cases3)
      have len: "length ps = length old" using True ps old by simp
      have "balanced (ev0 @ release_buffer_list (length paths))" using balanced_extract [OF ev0] True r by simp
      moreover have "out = (case r1 of None \<Rightarrow> Returns_none | Some (i, err) \<Rightarrow> Os_error err (ps ! i) (Some i)) \<and> new = nb \<and> s' = s1 \<and>
          ev = ev0 @ release_buffer_list (length paths)"
        using run True Some ev0 r l by (auto simp: batch_load_block_def Let_def split: option.splits prod.splits)
      ultimately show ?thesis using load_outcome_run [OF f l len] unfolding ps old by simp
    qed
  qed
qed

text \<open>The second file is too short; a list whose third element is not a buffer.\<close>

theorem batch_load_partial_success_witness:
  "\<exists>out ev new s' ev'. batch_load_block (\<lambda>_ _. Works) [Py_str [97], Py_str [98]] [Py_buf [0], Py_buf [0, 0]]
      \<lparr>names = [[97] \<mapsto> 0, [98] \<mapsto> 1], contents = (\<lambda>i. [7]), fresh = 2\<rparr> = (out, ev, new, s') \<and>
    balanced ev \<and> out = Os_error EIO [98] (Some 1) \<and> new ! 0 = [7] \<and> names s' [98] = None \<and>
    batch_load_block (\<lambda>_ _. Works) [Py_str [97], Py_str [98], Py_str [99]] [Py_buf [0], Py_buf [0, 0], Py_not_buffer] demo_fs =
      (Conversion_error, ev', [], demo_fs) \<and> balanced ev' \<and> Acquire 1 \<in> set ev'"
proof -
  let ?s = "\<lparr>names = [[97] \<mapsto> 0, [98] \<mapsto> 1], contents = (\<lambda>i. [7]), fresh = 2\<rparr> :: fs"
  let ?bufs = "[Py_buf [0], Py_buf [0, 0]]" and ?paths = "[Py_str [97], Py_str [98]]"
  let ?bufs3 = "[Py_buf [0], Py_buf [0, 0], Py_not_buffer]" and ?paths3 = "[Py_str [97], Py_str [98], Py_str [99]]"
  obtain out ev new s' where run: "batch_load_block (\<lambda>_ _. Works) ?paths ?bufs ?s = (out, ev, new, s')" by (metis prod_cases4)
  have "balanced ev" using batch_load_partial_success [OF _ run] by simp
  moreover have "out = Os_error EIO [98] (Some 1) \<and> new ! 0 = [7] \<and> names s' [98] = None"
    using run by (auto simp: batch_load_block_def load_block_def eval_nat_numeral load_step_def sys_open_read_def sys_read_def
        sys_unlink_def fill_buffer_def EIO_def)
  moreover have run3: "batch_load_block (\<lambda>_ _. Works) ?paths3 ?bufs3 demo_fs =
      (Conversion_error, [Acquire 0, Acquire 1, Release 0, Release 1], [], demo_fs)"
    by (simp add: batch_load_block_def eval_nat_numeral)
  moreover have "balanced [Acquire 0, Acquire 1, Release 0, Release 1]" using batch_load_partial_success [OF _ run3] by simp
  ultimately show ?thesis using run by (intro exI conjI) (assumption | simp)+
qed

end
