(* ===== verification/Float_Convert.thy ===== *)
theory Float_Convert
  imports Float32 "HOL-Library.Monad_Syntax"
begin

unbundle bit_operations_syntax

text \<open>
  The scalar conversions between \<open>float\<close> and the 16-bit formats, \<open>src/csrc/cpu/float_convert.hpp\<close>, on bit patterns.

  \<open>unsigned\<close> is \<open>u32\<close>; the loop that normalises a subnormal may run forever on a zero mantissa, so that it is a
  \<open>partial_function\<close>.  The theorem says that widening is exact and that narrowing undoes it; \<open>float_to_fp16_nearest\<close> that
  narrowing rounds to nearest with ties to even on the whole finite range.
\<close>

section \<open>Conversions\<close>

definition bf16_to_float :: "u16 \<Rightarrow> float32" where
  "bf16_to_float bf16 = push_bit 16 (ucast bf16)"

definition float_to_bf16 :: "float32 \<Rightarrow> u16" where
  "float_to_bf16 fp32 = ucast (drop_bit 16 fp32)"

definition narrow :: "u32 \<Rightarrow> u32 \<Rightarrow> u32 \<Rightarrow> nat \<Rightarrow> u16" where
  "narrow sign exponent mantissa0 shift =
     (let lsb = push_bit shift 1; lsb_s1 = drop_bit 1 lsb; lsb_m1 = lsb - 1;
          remainder = mantissa0 AND lsb_m1; mantissa1 = drop_bit shift mantissa0;
          (exponent1, mantissa) =
            (if remainder > lsb_s1 \<or> (remainder = lsb_s1 \<and> mantissa1 AND 1 \<noteq> 0) then
               (if (mantissa1 + 1) AND 0x3ff = 0 then (exponent + 1, 0) else (exponent, mantissa1 + 1))
             else (exponent, mantissa1))
      in ucast (sign OR push_bit 10 exponent1 OR mantissa))"

definition float_to_fp16 :: "float32 \<Rightarrow> u16" where
  "float_to_fp16 fp32 =
     (let x = fp32; u = x AND 0x7fffffff in
      if u > 0x7f800000 then 0x7fff
      else let sign = drop_bit 16 x AND 0x8000 in
        if u > 0x477fefff then ucast (sign OR 0x7c00)
        else if u < 0x33000001 then ucast (sign OR 0x0000)
        else let exponent = drop_bit 23 u AND 0xff; mantissa = u AND 0x7fffff in
          if exponent > 0x70 then narrow sign (exponent - 0x70) mantissa 13
          else narrow sign 0 (mantissa OR 0x800000) (unat (0x7e - exponent)))"

partial_function (option) normalize :: "u32 \<Rightarrow> u32 \<Rightarrow> (u32 \<times> u32) option" where
  "normalize exponent mantissa =
     (let msb = mantissa AND 0x400000; mantissa1 = push_bit 1 mantissa; exponent1 = exponent - 1 in
      if msb = 0 then normalize exponent1 mantissa1 else Some (exponent1, mantissa1))"

definition fp16_to_float :: "u16 \<Rightarrow> float32 option" where
  "fp16_to_float fp16 =
     (let sign = ucast (drop_bit 15 fp16 AND 1) :: u32; exponent = ucast (drop_bit 10 fp16 AND 0x1f) :: u32;
          mantissa = push_bit 13 (ucast (fp16 AND 0x3ff)) :: u32 in do {
        (s, e, m) \<leftarrow>
          (if exponent = 0x1f then Some (if mantissa \<noteq> 0 then (0, 0xff, 0x7fffff) else (sign, 0xff, 0))
           else if exponent = 0 then
             (if mantissa \<noteq> 0 then do { (e, m) \<leftarrow> normalize 0x71 mantissa; Some (sign, e, m AND 0x7fffff) }
              else Some (sign, exponent, mantissa))
           else Some (sign, exponent + 0x70, mantissa));
        Some (push_bit 31 s OR push_bit 23 e OR m) })"

section \<open>Words as numbers\<close>

lemma unat_u32_less: "unat (x :: u32) < 2 ^ 32"
proof -
  have "unat x < 2 ^ LENGTH(32)" by (rule unsigned_less)
  then show ?thesis by simp
qed

lemma and_mask_unat: "unat (w AND mask n :: 'a::len word) = unat w mod 2 ^ n"
  unfolding take_bit_eq_mask [symmetric] by (simp only: unsigned_take_bit_eq) (simp only: take_bit_eq_mod)

lemma unat_drop: "unat (drop_bit n w :: 'a::len word) = unat w div 2 ^ n"
  by (simp only: unat_drop_bit_eq) (simp only: drop_bit_eq_div)

lemma unat_push: "unat w * 2 ^ n < 2 ^ LENGTH('a) \<Longrightarrow> unat (push_bit n w :: 'a::len word) = unat w * 2 ^ n"
  by (simp only: unsigned_push_bit_eq) (simp add: push_bit_eq_mult take_bit_nat_eq_self)

lemma and_exp_unat: "unat (w AND 2 ^ n :: 'a::len word) = (unat w div 2 ^ n mod 2) * 2 ^ n" if "n < LENGTH('a)"
proof -
  have "w AND 2 ^ n = push_bit n (of_bool (bit w n))"
    by (rule bit_word_eqI) (auto simp: bit_and_iff bit_exp_iff bit_push_bit_iff bit_of_bool_iff)
  moreover have "bit w n \<longleftrightarrow> odd (unat w div 2 ^ n)"
    using bit_unsigned_iff [where 'a = nat, of w n] by (simp add: bit_iff_odd)
  ultimately show ?thesis using that by (auto simp: odd_iff_mod_2_eq_one unat_push)
qed

lemma unat_or_disjoint: "unat (push_bit n v OR w :: 'a::len word) = unat v * 2 ^ n + unat w"
  if "unat w < 2 ^ n" "unat v * 2 ^ n < 2 ^ LENGTH('a)"
proof -
  have "unat (push_bit n v OR w) = unat (push_bit n v) OR unat w" by (simp add: unsigned_or_eq)
  also have "unat (push_bit n v) = push_bit n (unat v)" using unat_push [OF that(2)] by (simp add: push_bit_eq_mult)
  finally show ?thesis using push_or_nat [OF that(1)] by (simp add: mult.commute)
qed

section \<open>Narrowing\<close>

text \<open>\<open>v / 2 ^ k\<close> rounded to nearest, ties to even.\<close>

definition rne :: "nat \<Rightarrow> nat \<Rightarrow> nat" where
  "rne v k = v div 2 ^ k + (if 2 ^ k div 2 < v mod 2 ^ k \<or> v mod 2 ^ k = 2 ^ k div 2 \<and> odd (v div 2 ^ k) then 1 else 0)"

lemma rne_nearest: "1 \<le> k \<Longrightarrow> 2 * \<bar>int (rne v k * 2 ^ k) - int v\<bar> \<le> 2 ^ k"
proof -
  assume k: "1 \<le> k"
  define q r h where "q = v div 2 ^ k" and "r = v mod 2 ^ k" and "h = (2 :: nat) ^ (k - 1)"
  have "v = q * 2 ^ k + r" by (simp only: q_def r_def div_mult_mod_eq)
  then have v: "int v = int (q * 2 ^ k) + int r" "r < 2 ^ k" by (simp_all only: of_nat_add) (simp add: r_def)
  have h: "(2 :: nat) ^ k = 2 * h" using k by (simp add: h_def flip: power_Suc)
  then have h': "(2 :: int) ^ k = 2 * int h" by (metis of_nat_mult of_nat_numeral of_nat_power)
  have rn: "rne v k = (if h < r \<or> r = h \<and> odd q then q + 1 else q)" using h by (simp add: rne_def q_def r_def)
  show ?thesis using v h h' unfolding rn by (auto simp: algebra_simps)
qed

lemma rne_exact: "rne (n * 2 ^ k) k = n" if "1 \<le> k"
  using that by (cases k) (simp_all add: rne_def)

lemma rne_bound: "v div 2 ^ k < n \<Longrightarrow> rne v k \<le> n"
  by (simp add: rne_def)

lemma small_masks: "(0x7fffffff :: u32) = mask 31" "(0x7fffff :: u32) = mask 23" "(0xff :: u32) = mask 8" "(0x3ff :: u32) = mask 10"
  "(1 :: u32) = mask 1" "(0x3ff :: u16) = mask 10" "(0x1f :: u16) = mask 5" "(1 :: u16) = mask 1"
  by (simp_all add: mask_eq_exp_minus_1)

lemma unat_pack:
  assumes "unat m < 1024" "unat e < 32" "sg < 2"
  shows "unat (ucast (push_bit 15 (word_of_nat sg) OR push_bit 10 e OR m :: u32) :: u16) = sg * 2 ^ 15 + unat e * 2 ^ 10 + unat m"
proof -
  have sg: "unat (word_of_nat sg :: u32) = sg" using assms(3) by (intro unat_u32_of_nat) simp
  have i: "unat (push_bit 10 e OR m :: u32) = unat e * 2 ^ 10 + unat m" using assms(1,2) by (intro unat_or_disjoint) simp_all
  have "unat (push_bit 15 (word_of_nat sg) OR (push_bit 10 e OR m) :: u32) = sg * 2 ^ 15 + (unat e * 2 ^ 10 + unat m)"
    using assms unfolding i [symmetric] by (subst unat_or_disjoint) (simp_all add: sg i)
  then show ?thesis using assms by (simp add: unsigned_ucast_eq take_bit_eq_mod)
qed

lemma narrow_nat:
  assumes k: "1 \<le> k" "k \<le> 24" and m: "unat m div 2 ^ k < 1024" and e: "unat e \<le> 30" and sg: "sg < 2"
  shows "unat (narrow (push_bit 15 (word_of_nat sg)) e m k) = sg * 2 ^ 15 + (unat e * 2 ^ 10 + rne (unat m) k)"
proof -
  have "(2 :: nat) ^ k \<le> 2 ^ 24" using k(2) by (intro power_increasing) auto
  then have "(2 :: nat) ^ k < 2 ^ 32" by simp
  then have lsb: "unat (push_bit k (1 :: u32)) = 2 ^ k" using unat_push [of "1 :: u32" k] by simp
  have s1: "unat (drop_bit 1 (push_bit k (1 :: u32))) = 2 ^ k div 2" by (simp only: unat_drop lsb power_one_right)
  have m1: "push_bit k (1 :: u32) - 1 = mask k" by (simp add: mask_eq_exp_minus_1)
  have r: "unat (m AND mask k) = unat m mod 2 ^ k" by (rule and_mask_unat)
  have q: "unat (drop_bit k m) = unat m div 2 ^ k" by (rule unat_drop)
  have q1: "unat (drop_bit k m + 1) = unat m div 2 ^ k + 1"
    using m q by (subst unat_add_lem [THEN iffD1]) simp_all
  have odd: "drop_bit k m AND 1 \<noteq> 0 \<longleftrightarrow> odd (unat m div 2 ^ k)"
    using and_mask_unat [of "drop_bit k m" 1] by (simp add: q small_masks(5) [symmetric] unat_eq_0 [symmetric] odd_iff_mod_2_eq_one)
  have wrap: "(drop_bit k m + 1) AND 0x3ff = 0 \<longleftrightarrow> unat m div 2 ^ k = 1023"
    using and_mask_unat [of "drop_bit k m + 1" 10] m unfolding small_masks(4) unat_eq_0 [symmetric]
    by (cases "unat m div 2 ^ k = 1023") (simp_all add: q1)
  have e1: "unat (e + 1) = unat e + 1" using e by (subst unat_add_lem [THEN iffD1]) simp_all
  define up where "up \<longleftrightarrow> 2 ^ k div 2 < unat m mod 2 ^ k \<or> unat m mod 2 ^ k = 2 ^ k div 2 \<and> odd (unat m div 2 ^ k)"
  have up: "(m AND (push_bit k 1 - 1) > drop_bit 1 (push_bit k 1) \<or>
      (m AND (push_bit k 1 - 1) = drop_bit 1 (push_bit k 1) \<and> drop_bit k m AND 1 \<noteq> 0)) \<longleftrightarrow> up"
    unfolding up_def m1 odd unfolding word_less_nat_alt word_unat_eq_iff r s1 ..
  have rn: "rne (unat m) k = unat m div 2 ^ k + (if up then 1 else 0)" by (simp add: rne_def up_def)
  show ?thesis
    unfolding narrow_def Let_def up wrap rn using m e sg unat_pack [of 0 "e + 1" sg]
    by (auto simp: unat_pack q q1 e1 simp del: push_bit_of_1)
qed

text \<open>The sign and the magnitude bits of a pattern.\<close>

lemma sign_bits: "drop_bit 16 (x :: u32) AND 0x8000 = push_bit 15 (word_of_nat (unat x div 2 ^ 31))"
proof -
  have sg: "unat x div 2 ^ 31 < 2" using unat_u32_less [of x] by (simp add: less_mult_imp_div_less)
  then have w: "unat (word_of_nat (unat x div 2 ^ 31) :: u32) = unat x div 2 ^ 31" by (intro unat_u32_of_nat) simp
  have "unat (drop_bit 16 x AND 2 ^ 15) = unat x div 2 ^ 31 mod 2 * 2 ^ 15"
    by (subst and_exp_unat) (simp_all add: unat_drop div_mult2_eq [symmetric])
  also have "\<dots> = unat (push_bit 15 (word_of_nat (unat x div 2 ^ 31) :: u32))"
    using sg unat_push [of "word_of_nat (unat x div 2 ^ 31) :: u32" 15] unfolding w by simp
  finally have "drop_bit 16 x AND 2 ^ 15 = push_bit 15 (word_of_nat (unat x div 2 ^ 31))" by (simp only: word_unat_eq_iff)
  then show ?thesis by simp
qed

lemma float_to_fp16_nat:
  fixes x :: float32
  defines "v \<equiv> unat x mod 2 ^ 31" and "sg \<equiv> unat x div 2 ^ 31"
  shows "0x7f800000 < v \<Longrightarrow> unat (float_to_fp16 x) = 0x7fff"
    and "0x477fefff < v \<Longrightarrow> v \<le> 0x7f800000 \<Longrightarrow> unat (float_to_fp16 x) = sg * 2 ^ 15 + 0x7c00"
    and "v < 0x33000001 \<Longrightarrow> unat (float_to_fp16 x) = sg * 2 ^ 15"
    and "0x33000001 \<le> v \<Longrightarrow> v \<le> 0x477fefff \<Longrightarrow> 0x70 < v div 2 ^ 23 \<Longrightarrow>
      unat (float_to_fp16 x) = sg * 2 ^ 15 + ((v div 2 ^ 23 - 0x70) * 2 ^ 10 + rne (v mod 2 ^ 23) 13)"
    and "0x33000001 \<le> v \<Longrightarrow> v div 2 ^ 23 \<le> 0x70 \<Longrightarrow>
      unat (float_to_fp16 x) = sg * 2 ^ 15 + rne (2 ^ 23 + v mod 2 ^ 23) (0x7e - v div 2 ^ 23)"
proof -
  have sg: "sg < 2" unfolding sg_def using unat_u32_less [of x] by (simp add: less_mult_imp_div_less)
  let ?S = "push_bit 15 (word_of_nat sg) :: u32"
  have S: "drop_bit 16 x AND 0x8000 = ?S" unfolding sg_def by (rule sign_bits)
  define U where "U = x AND mask 31"
  have u: "unat U = v" unfolding v_def U_def by (rule and_mask_unat)
  have def: "float_to_fp16 x = (if U > 0x7f800000 then 0x7fff else if U > 0x477fefff then ucast (?S OR 0x7c00)
      else if U < 0x33000001 then ucast (?S OR 0x0000)
      else if drop_bit 23 U AND mask 8 > 0x70 then narrow ?S ((drop_bit 23 U AND mask 8) - 0x70) (U AND mask 23) 13
      else narrow ?S 0 ((U AND mask 23) OR 0x800000) (unat (0x7e - (drop_bit 23 U AND mask 8))))"
    unfolding float_to_fp16_def Let_def small_masks(1-3) S U_def ..
  have lt: "(w < U) \<longleftrightarrow> unat w < v" "(U < w) \<longleftrightarrow> v < unat w" for w by (simp_all add: word_less_nat_alt u)
  show "unat (float_to_fp16 x) = 0x7fff" if "0x7f800000 < v"
    using that by (simp add: def lt)
  show "unat (float_to_fp16 x) = sg * 2 ^ 15 + 0x7c00" if "0x477fefff < v" "v \<le> 0x7f800000"
    using that unat_pack [of 0 31 sg] sg by (simp add: def lt)
  show "unat (float_to_fp16 x) = sg * 2 ^ 15" if "v < 0x33000001"
    using that unat_pack [of 0 0 sg] sg by (simp add: def lt)
  have e8: "unat (drop_bit 23 U AND mask 8) = v div 2 ^ 23"
  proof -
    have "v div 2 ^ 23 < 2 ^ 8" by (simp add: v_def less_mult_imp_div_less)
    then show ?thesis by (simp only: and_mask_unat unat_drop u) simp
  qed
  have m: "unat (U AND mask 23) = v mod 2 ^ 23" unfolding and_mask_unat u ..
  have big: "(0x70 < drop_bit 23 U AND mask 8) \<longleftrightarrow> 0x70 < v div 2 ^ 23" by (simp add: word_less_nat_alt e8)
  show "unat (float_to_fp16 x) = sg * 2 ^ 15 + ((v div 2 ^ 23 - 0x70) * 2 ^ 10 + rne (v mod 2 ^ 23) 13)"
    if c: "0x33000001 \<le> v" "v \<le> 0x477fefff" "0x70 < v div 2 ^ 23"
  proof -
    let ?e = "(drop_bit 23 U AND mask 8) - 0x70 :: u32" and ?m = "U AND mask 23 :: u32"
    have e: "unat ?e = v div 2 ^ 23 - 0x70" using c(3) big by (subst unat_sub) (simp_all add: e8 word_le_nat_alt)
    have "float_to_fp16 x = narrow ?S ?e ?m 13"
      using c big by (simp add: def lt)
    moreover have "v div 2 ^ 23 \<le> 142" using div_le_mono [OF c(2), of "2 ^ 23"] by simp
    moreover have "v mod 2 ^ 23 div 2 ^ 13 < 1024" by (simp add: less_mult_imp_div_less)
    ultimately show ?thesis using narrow_nat [of 13 ?m ?e sg] sg by (simp add: e m)
  qed
  show "unat (float_to_fp16 x) = sg * 2 ^ 15 + rne (2 ^ 23 + v mod 2 ^ 23) (0x7e - v div 2 ^ 23)"
    if c: "0x33000001 \<le> v" "v div 2 ^ 23 \<le> 0x70"
  proof -
    let ?E = "drop_bit 23 U AND mask 8 :: u32" and ?m = "U AND mask 23 :: u32"
    let ?k = "0x7e - v div 2 ^ 23"
    have up: "v \<le> 0x477fefff"
    proof (rule ccontr)
      assume "\<not> ?thesis"
      then have "0x38800000 div 2 ^ 23 \<le> v div 2 ^ 23" by (intro div_le_mono) simp
      then show False using c(2) by simp
    qed
    have k: "unat (0x7e - ?E) = ?k" using c(2) by (subst unat_sub) (simp_all add: e8 word_le_nat_alt)
    have "102 \<le> v div 2 ^ 23" using div_le_mono [OF c(1), of "2 ^ 23"] by simp
    then have k24: "14 \<le> ?k" "?k \<le> 24" using c(2) by linarith+
    have mm: "unat (?m OR 0x800000) = 2 ^ 23 + v mod 2 ^ 23"
      using unat_or_disjoint [of ?m 23 "1 :: u32"] by (simp add: m or.commute)
    have "(2 :: nat) ^ 14 \<le> 2 ^ ?k" using k24(1) by (intro power_increasing) simp_all
    then have "(2 ^ 23 + v mod 2 ^ 23) div 2 ^ ?k \<le> (2 ^ 23 + v mod 2 ^ 23) div 2 ^ 14" by (intro div_le_mono2) simp_all
    also have "\<dots> < 1024" by (rule less_mult_imp_div_less) simp
    finally have q: "unat (?m OR 0x800000) div 2 ^ ?k < 1024" unfolding mm .
    have "float_to_fp16 x = narrow ?S 0 (?m OR 0x800000) ?k"
      using c up big k by (simp add: def lt)
    then show ?thesis using narrow_nat [OF _ k24(2) q, of 0 sg] k24(1) sg by (simp add: mm)
  qed
qed

section \<open>Widening\<close>

lemma normalize_nat:
  "0 < unat m \<Longrightarrow> unat m < 2 ^ 23 \<Longrightarrow> 2 ^ 23 \<le> unat m * 2 ^ unat e \<Longrightarrow>
    \<exists>e' m' k. normalize e m = Some (e', m') \<and> 1 \<le> k \<and> k \<le> unat e \<and> unat e' = unat e - k \<and> unat m' = unat m * 2 ^ k \<and>
      2 ^ 23 \<le> unat m * 2 ^ k \<and> unat m * 2 ^ k < 2 ^ 24"
proof (induction "2 ^ 23 - unat m" arbitrary: e m rule: less_induct)
  case less
  have e0: "unat e \<noteq> 0" using less.prems(2,3) by (auto intro: ccontr)
  have e1: "unat (e - 1) = unat e - 1" using e0 by (subst unat_sub) (auto simp: word_le_nat_alt)
  have m2: "unat (push_bit 1 m) = unat m * 2 ^ 1" using less.prems(2) by (intro unat_push) simp
  have "unat (m AND 2 ^ 22) = unat m div 2 ^ 22 mod 2 * 2 ^ 22" by (rule and_exp_unat) simp
  moreover have "unat m div 2 ^ 22 < 2" using less.prems(2) by (intro less_mult_imp_div_less) simp
  ultimately have msb: "m AND 0x400000 = 0 \<longleftrightarrow> unat m < 2 ^ 22" by (simp add: unat_eq_0 [symmetric] div_eq_0_iff)
  show ?case
  proof (cases "unat m < 2 ^ 22")
    case True
    have "2 ^ unat e = (2 :: nat) ^ 1 * 2 ^ (unat e - 1)" using e0 by (simp flip: power_add power_Suc)
    then have big: "2 ^ 23 \<le> unat (push_bit 1 m) * 2 ^ unat (e - 1)" using less.prems(3) unfolding m2 e1 by (simp add: mult.assoc)
    have "2 ^ 23 - unat (push_bit 1 m) < 2 ^ 23 - unat m" "0 < unat (push_bit 1 m)" "unat (push_bit 1 m) < 2 ^ 23"
      using True less.prems(1) unfolding m2 by simp_all
    from less.hyps [OF this big] obtain e' m' k where
      r: "normalize (e - 1) (push_bit 1 m) = Some (e', m')" "1 \<le> k" "k \<le> unat e - 1" "unat e' = unat e - 1 - k"
        "unat m' = unat m * 2 ^ 1 * 2 ^ k" "2 ^ 23 \<le> unat m * 2 ^ 1 * 2 ^ k" "unat m * 2 ^ 1 * 2 ^ k < 2 ^ 24"
      unfolding m2 e1 by blast
    have "normalize e m = Some (e', m')" by (simp only: normalize.simps [of e m] Let_def msb True if_True r(1))
    moreover have "unat m * 2 ^ 1 * 2 ^ k = unat m * 2 ^ (k + 1)" by simp
    ultimately show ?thesis using r e0 by (intro exI [of _ e'] exI [of _ m'] exI [of _ "k + 1"]) simp
  next
    case False
    have "normalize e m = Some (e - 1, push_bit 1 m)" by (simp only: normalize.simps [of e m] Let_def msb False if_False)
    then show ?thesis using False less.prems(2) e0 m2 e1
      by (intro exI [of _ "e - 1"] exI [of _ "push_bit 1 m"] exI [of _ 1]) simp
  qed
qed

abbreviation h_sign :: "u16 \<Rightarrow> nat" where
  "h_sign h \<equiv> unat h div 2 ^ 15"

abbreviation h_exp :: "u16 \<Rightarrow> nat" where
  "h_exp h \<equiv> unat h div 2 ^ 10 mod 2 ^ 5"

abbreviation h_man :: "u16 \<Rightarrow> nat" where
  "h_man h \<equiv> unat h mod 2 ^ 10"

text \<open>The magnitude of a half in the units of \<open>f_mag\<close>; NaN and infinity are left out.\<close>

definition half_mag :: "u16 \<Rightarrow> nat" where
  "half_mag h = (if h_exp h = 0 then h_man h * 2 ^ 126 else (2 ^ 10 + h_man h) * 2 ^ (h_exp h + 125))"

definition half_nan :: "u16 \<Rightarrow> bool" where
  "half_nan h \<longleftrightarrow> h_exp h = 31 \<and> h_man h \<noteq> 0"

lemma unat_pack32:
  assumes "unat m < 2 ^ 23" "unat e < 2 ^ 8" "unat s < 2"
  shows "unat (push_bit 31 s OR push_bit 23 e OR m :: u32) = unat s * 2 ^ 31 + (unat e * 2 ^ 23 + unat m)"
proof -
  have i: "unat (push_bit 23 e OR m :: u32) = unat e * 2 ^ 23 + unat m" using assms(1,2) by (intro unat_or_disjoint) simp_all
  show ?thesis using assms unfolding i [symmetric] by (subst unat_or_disjoint) (simp_all add: i)
qed

lemma half_fields:
  fixes h :: u16
  shows "unat (ucast (drop_bit 15 h AND 1) :: u32) = h_sign h" "unat (ucast (drop_bit 10 h AND 0x1f) :: u32) = h_exp h"
    "unat (push_bit 13 (ucast (h AND 0x3ff)) :: u32) = h_man h * 2 ^ 13" "h_sign h < 2" "unat h = h_sign h * 2 ^ 15 + (h_exp h * 2 ^ 10 + h_man h)"
proof -
  have "unat h < 2 ^ LENGTH(16)" by (rule unsigned_less)
  then have lt: "unat h < 2 ^ 16" by simp
  then show s: "h_sign h < 2" by (simp add: less_mult_imp_div_less)
  have cast: "unat (ucast w :: u32) = unat (w :: u16)" for w
  proof -
    have "unat w < 2 ^ LENGTH(16)" by (rule unsigned_less)
    then show ?thesis by (simp add: unsigned_ucast_eq take_bit_nat_eq_self)
  qed
  show "unat (ucast (drop_bit 15 h AND 1) :: u32) = h_sign h"
    using s unfolding cast small_masks(8) and_mask_unat unat_drop by simp
  show "unat (ucast (drop_bit 10 h AND 0x1f) :: u32) = h_exp h" unfolding cast small_masks(7) and_mask_unat unat_drop ..
  show "unat (push_bit 13 (ucast (h AND 0x3ff)) :: u32) = h_man h * 2 ^ 13"
    by (subst unat_push) (simp_all only: cast small_masks(6) and_mask_unat, simp)
  define q r where "q = unat h div 2 ^ 10" and "r = h_man h"
  have "unat h = q * 2 ^ 10 + r" unfolding q_def r_def by (simp only: div_mult_mod_eq)
  moreover have "q = q div 2 ^ 5 * 2 ^ 5 + q mod 2 ^ 5" by (simp only: div_mult_mod_eq)
  moreover have "q div 2 ^ 5 = h_sign h" by (simp add: q_def div_mult2_eq [symmetric])
  ultimately have "unat h = (h_sign h * 2 ^ 5 + q mod 2 ^ 5) * 2 ^ 10 + r" by metis
  then show "unat h = h_sign h * 2 ^ 15 + (h_exp h * 2 ^ 10 + h_man h)" unfolding q_def r_def by (simp only: add_mult_distrib mult.assoc power_add [symmetric]) simp
qed

lemma fp16_to_float_nat:
  fixes h :: u16
  shows "h_exp h = 31 \<Longrightarrow> h_man h = 0 \<Longrightarrow> \<exists>w. fp16_to_float h = Some w \<and> unat w = h_sign h * 2 ^ 31 + 0xff * 2 ^ 23"
    and "h_exp h = 0 \<Longrightarrow> h_man h = 0 \<Longrightarrow> \<exists>w. fp16_to_float h = Some w \<and> unat w = h_sign h * 2 ^ 31"
    and "0 < h_exp h \<Longrightarrow> h_exp h < 31 \<Longrightarrow>
      \<exists>w. fp16_to_float h = Some w \<and> unat w = h_sign h * 2 ^ 31 + ((h_exp h + 0x70) * 2 ^ 23 + h_man h * 2 ^ 13)"
    and "h_exp h = 0 \<Longrightarrow> 0 < h_man h \<Longrightarrow>
      \<exists>w k. fp16_to_float h = Some w \<and> 1 \<le> k \<and> k \<le> 10 \<and> 2 ^ 23 \<le> h_man h * 2 ^ (13 + k) \<and> h_man h * 2 ^ (13 + k) < 2 ^ 24 \<and>
        unat w = h_sign h * 2 ^ 31 + ((0x71 - k) * 2 ^ 23 + (h_man h * 2 ^ (13 + k) - 2 ^ 23))"
proof -
  define S E M where "S = (ucast (drop_bit 15 h AND 1) :: u32)" and "E = (ucast (drop_bit 10 h AND 0x1f) :: u32)"
    and "M = (push_bit 13 (ucast (h AND 0x3ff)) :: u32)"
  have f: "unat S = h_sign h" "unat E = h_exp h" "unat M = h_man h * 2 ^ 13" "unat S < 2"
    unfolding S_def E_def M_def using half_fields [of h] by simp_all
  have def: "fp16_to_float h = do { (s, e, m) \<leftarrow>
      (if E = 0x1f then Some (if M \<noteq> 0 then (0, 0xff, 0x7fffff) else (S, 0xff, 0))
       else if E = 0 then (if M \<noteq> 0 then do { (e, m) \<leftarrow> normalize 0x71 M; Some (S, e, m AND 0x7fffff) } else Some (S, E, M))
       else Some (S, E + 0x70, M)); Some (push_bit 31 s OR push_bit 23 e OR m) }"
    unfolding fp16_to_float_def Let_def S_def E_def M_def ..
  have E: "E = 0x1f \<longleftrightarrow> h_exp h = 31" "E = 0 \<longleftrightarrow> h_exp h = 0" and M: "M = 0 \<longleftrightarrow> h_man h = 0"
    unfolding word_unat_eq_iff f by simp_all
  have man: "h_man h < 2 ^ 10" by simp
  show "\<exists>w. fp16_to_float h = Some w \<and> unat w = h_sign h * 2 ^ 31 + 0xff * 2 ^ 23" if "h_exp h = 31" "h_man h = 0"
  proof -
    have "fp16_to_float h = Some (push_bit 31 S OR push_bit 23 0xff OR 0)" unfolding def E M using that by simp
    then show ?thesis using unat_pack32 [of 0 "0xff" S] f(1,4) by (intro exI conjI) (assumption, simp)
  qed
  show "\<exists>w. fp16_to_float h = Some w \<and> unat w = h_sign h * 2 ^ 31" if "h_exp h = 0" "h_man h = 0"
  proof -
    have "E = 0" "M = 0" using that E M by simp_all
    then have "fp16_to_float h = Some (push_bit 31 S OR push_bit 23 0 OR 0)" unfolding def by simp
    then show ?thesis using unat_pack32 [of 0 0 S] f(1,4) by (intro exI conjI) (assumption, simp)
  qed
  show "\<exists>w. fp16_to_float h = Some w \<and> unat w = h_sign h * 2 ^ 31 + ((h_exp h + 0x70) * 2 ^ 23 + h_man h * 2 ^ 13)"
    if c: "0 < h_exp h" "h_exp h < 31"
  proof -
    have e: "unat (E + 0x70) = h_exp h + 0x70" using c(2) by (subst unat_add_lem [THEN iffD1]) (simp_all add: f(2))
    have r: "fp16_to_float h = Some (push_bit 31 S OR push_bit 23 (E + 0x70) OR M)" unfolding def E using c by simp
    have "unat (push_bit 31 S OR push_bit 23 (E + 0x70) OR M) = h_sign h * 2 ^ 31 + ((h_exp h + 0x70) * 2 ^ 23 + h_man h * 2 ^ 13)"
      unfolding f(1,3) [symmetric] e [symmetric] by (rule unat_pack32) (use c man f(4) in \<open>simp_all add: f(2,3) e\<close>)
    then show ?thesis using r by blast
  qed
  show "\<exists>w k. fp16_to_float h = Some w \<and> 1 \<le> k \<and> k \<le> 10 \<and> 2 ^ 23 \<le> h_man h * 2 ^ (13 + k) \<and> h_man h * 2 ^ (13 + k) < 2 ^ 24 \<and>
      unat w = h_sign h * 2 ^ 31 + ((0x71 - k) * 2 ^ 23 + (h_man h * 2 ^ (13 + k) - 2 ^ 23))" if c: "h_exp h = 0" "0 < h_man h"
  proof -
    have lt: "unat M < 2 ^ 23" using man unfolding f(3) by simp
    have "(2 :: nat) ^ 13 * 2 ^ 10 \<le> unat M * 2 ^ unat (0x71 :: u32)" using c(2) unfolding f(3) by (intro mult_le_mono power_increasing) simp_all
    then have "2 ^ 23 \<le> unat M * 2 ^ unat (0x71 :: u32)" by (simp only: power_add [symmetric]) simp
    then obtain e m k where n: "normalize 0x71 M = Some (e, m)" "1 \<le> k" "k \<le> 0x71" "unat e = 0x71 - k" "unat m = unat M * 2 ^ k"
      "2 ^ 23 \<le> unat M * 2 ^ k" "unat M * 2 ^ k < 2 ^ 24" using normalize_nat [of M "0x71"] c(2) lt f(3) by auto
    have mk: "unat M * 2 ^ k = h_man h * 2 ^ (13 + k)" unfolding f(3) by (simp add: power_add)
    have "(2 :: nat) ^ (13 + k) \<le> h_man h * 2 ^ (13 + k)" using c(2) by simp
    then have "(2 :: nat) ^ (13 + k) < 2 ^ 24" using n(7) mk by linarith
    then have k10: "k \<le> 10" using power_less_imp_less_exp [of "2 :: nat" "13 + k" 24] by simp
    have mm: "unat (m AND mask 23) = unat M * 2 ^ k - 2 ^ 23"
    proof -
      have "unat m mod 2 ^ 23 = (unat m - 2 ^ 23) mod 2 ^ 23" using n(5,6) by (simp add: le_mod_geq)
      then show ?thesis using n(5,7) unfolding and_mask_unat by (simp add: n(5))
    qed
    have r: "fp16_to_float h = Some (push_bit 31 S OR push_bit 23 e OR (m AND mask 23))"
      unfolding def small_masks(2) E M using c n(1) by simp
    have "unat (push_bit 31 S OR push_bit 23 e OR (m AND mask 23)) = h_sign h * 2 ^ 31 + ((0x71 - k) * 2 ^ 23 + (unat M * 2 ^ k - 2 ^ 23))"
      unfolding f(1) [symmetric] n(4) [symmetric] mm [symmetric] by (rule unat_pack32) (use n(4,7) mm f(4) in simp_all)
    then show ?thesis using r n(2,6,7) k10 unfolding mk by blast
  qed
qed

section \<open>Round trip and rounding\<close>

lemma parts:
  assumes "unat (w :: float32) = s * 2 ^ 31 + (e * 2 ^ 23 + m)" "m < 2 ^ 23" "e < 2 ^ 8" "s < 2"
  shows "unat w mod 2 ^ 31 = e * 2 ^ 23 + m" "unat w div 2 ^ 31 = s" "(e * 2 ^ 23 + m) div 2 ^ 23 = e" "(e * 2 ^ 23 + m) mod 2 ^ 23 = m"
    "f_sign w \<longleftrightarrow> s = 1" "f_exp w = e" "f_man w = m"
proof -
  have lt: "e * 2 ^ 23 + m < 2 ^ 31" using assms(2,3) by simp
  have "(s * 2 ^ 31 + (e * 2 ^ 23 + m)) mod 2 ^ 31 = (e * 2 ^ 23 + m) mod 2 ^ 31" by (rule mod_mult_self3)
  then show "unat w mod 2 ^ 31 = e * 2 ^ 23 + m" unfolding assms(1) using lt by simp
  have "(s * 2 ^ 31 + (e * 2 ^ 23 + m)) div 2 ^ 31 = s + (e * 2 ^ 23 + m) div 2 ^ 31" by (rule div_mult_self3) simp
  then show d: "unat w div 2 ^ 31 = s" unfolding assms(1) using lt by simp
  have sp: "s * 2 ^ 31 + (e * 2 ^ 23 + m) = (s * 2 ^ 8 + e) * 2 ^ 23 + m" by (simp add: algebra_simps)
  have q: "unat w div 2 ^ 23 = s * 2 ^ 8 + e"
    unfolding assms(1) sp using assms(2) by (subst div_mult_self3) simp_all
  show "(e * 2 ^ 23 + m) div 2 ^ 23 = e" using assms(2) by (subst div_mult_self3) simp_all
  show "(e * 2 ^ 23 + m) mod 2 ^ 23 = m" using assms(2) by (subst mod_mult_self3) simp
  show "f_sign w \<longleftrightarrow> s = 1" unfolding f_sign_def d ..
  show "f_exp w = e" unfolding f_exp_def q using assms(3) by (subst mod_mult_self3) simp
  show "f_man w = m" unfolding f_man_def assms(1) sp using assms(2) by (subst mod_mult_self3) simp
qed

definition widens_exactly :: "u16 \<Rightarrow> float32 \<Rightarrow> bool" where
  "widens_exactly h w \<longleftrightarrow> float_to_fp16 w = h \<and> (f_sign w \<longleftrightarrow> h_sign h = 1) \<and> (h_exp h < 31 \<longrightarrow> f_mag w = half_mag h)"

lemma half_eqI: "unat (h' :: u16) = h_sign h * 2 ^ 15 + (h_exp h * 2 ^ 10 + h_man h) \<Longrightarrow> h' = h"
  unfolding word_unat_eq_iff half_fields(5) [of h, symmetric] .

lemma widen_normal:
  assumes "0 < h_exp h" "h_exp h < 31" "unat w = h_sign h * 2 ^ 31 + ((h_exp h + 0x70) * 2 ^ 23 + h_man h * 2 ^ 13)"
  shows "widens_exactly h w"
proof -
  have man: "h_man h < 2 ^ 10" by (rule mod_less_divisor) simp
  have "h_man h * 2 ^ 13 < 2 ^ 23" "h_exp h + 0x70 < 2 ^ 8" using man assms(2) by simp_all
  note P = parts [OF assms(3) this half_fields(4)]
  define v where "v = (h_exp h + 0x70) * 2 ^ 23 + h_man h * 2 ^ 13"
  have v: "0x33000001 \<le> v" "v \<le> 0x477fefff" using assms(1,2) man by (simp_all add: v_def)
  have "unat (float_to_fp16 w) = h_sign h * 2 ^ 15 + ((h_exp h + 0x70 - 0x70) * 2 ^ 10 + rne (h_man h * 2 ^ 13) 13)"
    using float_to_fp16_nat(4) [of w] v assms(1) unfolding P(1,2) v_def P(3,4) by simp
  also have "rne (h_man h * 2 ^ 13) 13 = h_man h" by (rule rne_exact) simp
  finally have "float_to_fp16 w = h" by (intro half_eqI) simp
  moreover have "f_mag w = half_mag h"
  proof -
    have "(2 ^ 23 + h_man h * 2 ^ 13) * 2 ^ (h_exp h + 0x70) = (2 ^ 10 + h_man h) * (2 ^ 13 * 2 ^ (h_exp h + 0x70))"
      by (simp add: algebra_simps)
    also have "(2 :: nat) ^ 13 * 2 ^ (h_exp h + 0x70) = 2 ^ (h_exp h + 125)" by (simp only: power_add [symmetric]) (simp add: add.commute)
    finally show ?thesis using assms(1) unfolding f_mag_def mag_of_def P(6,7) half_mag_def by simp
  qed
  ultimately show ?thesis using P(5) by (simp add: widens_exactly_def)
qed

lemma widen_subnormal:
  assumes "h_exp h = 0" "1 \<le> k" "k \<le> 10" "2 ^ 23 \<le> h_man h * 2 ^ (13 + k)" "h_man h * 2 ^ (13 + k) < 2 ^ 24"
    and w: "unat w = h_sign h * 2 ^ 31 + ((0x71 - k) * 2 ^ 23 + (h_man h * 2 ^ (13 + k) - 2 ^ 23))"
  shows "widens_exactly h w"
proof -
  define M where "M = h_man h * 2 ^ (13 + k)"
  have M: "M - 2 ^ 23 < 2 ^ 23" "0x71 - k < 2 ^ 8" "2 ^ 23 + (M - 2 ^ 23) = M" using assms(4,5) by (simp_all add: M_def)
  note P = parts [OF w [folded M_def] M(1,2) half_fields(4)]
  define v where "v = (0x71 - k) * 2 ^ 23 + (M - 2 ^ 23)"
  have "(0x71 - 10) * 2 ^ 23 \<le> (0x71 - k) * (2 :: nat) ^ 23" using assms(3) by (intro mult_le_mono1) simp
  then have v: "0x33000001 \<le> v" by (simp add: v_def)
  have "unat (float_to_fp16 w) = h_sign h * 2 ^ 15 + rne (2 ^ 23 + (M - 2 ^ 23)) (0x7e - (0x71 - k))"
    using float_to_fp16_nat(5) [of w] v assms(2) unfolding P(1,2) v_def P(3,4) by simp
  also have "0x7e - (0x71 - k) = 13 + k" using assms(3) by simp
  also have "rne (2 ^ 23 + (M - 2 ^ 23)) (13 + k) = h_man h" unfolding M(3) unfolding M_def by (rule rne_exact) simp
  finally have "float_to_fp16 w = h" using assms(1) by (intro half_eqI) simp
  moreover have "f_mag w = half_mag h"
  proof -
    have "M * 2 ^ (0x71 - k) = h_man h * (2 ^ (13 + k) * 2 ^ (0x71 - k))" unfolding M_def by (simp only: mult.assoc)
    also have "(2 :: nat) ^ (13 + k) * 2 ^ (0x71 - k) = 2 ^ 126" using assms(3) by (simp only: power_add [symmetric]) simp
    finally have "M * 2 ^ (0x71 - k) = h_man h * 2 ^ 126" .
    moreover have "0x71 - k \<noteq> 0" using assms(3) by simp
    ultimately show ?thesis using assms(1) unfolding f_mag_def mag_of_def P(6,7) M(3) half_mag_def by simp
  qed
  ultimately show ?thesis using P(5) by (simp add: widens_exactly_def)
qed

text \<open>C28. Widening a half that is not a NaN always returns; the result has the same sign and, when it is finite, exactly the same
  magnitude; and narrowing it gives the half back, subnormals, zeros and infinities included.\<close>

theorem fp16_round_trip:
  assumes "\<not> half_nan h"
  shows "\<exists>w. fp16_to_float h = Some w \<and> widens_exactly h w"
proof -
  consider (inf) "h_exp h = 31" "h_man h = 0" | (zero) "h_exp h = 0" "h_man h = 0" | (normal) "0 < h_exp h" "h_exp h < 31"
    | (sub) "h_exp h = 0" "0 < h_man h"
  proof -
    have "h_exp h < 2 ^ 5" by (rule mod_less_divisor) simp
    then have "h_exp h = 31 \<or> h_exp h < 31" by auto
    then show thesis using that assms unfolding half_nan_def by (metis bot_nat_0.not_eq_extremum)
  qed
  then show ?thesis
  proof cases
    case inf
    obtain w where w: "fp16_to_float h = Some w" "unat w = h_sign h * 2 ^ 31 + (0xff * 2 ^ 23 + 0)"
      using fp16_to_float_nat(1) [OF inf] unfolding add_0_right by blast
    note P = parts [OF w(2) _ _ half_fields(4)]
    have "unat (float_to_fp16 w) = h_sign h * 2 ^ 15 + 0x7c00"
      using float_to_fp16_nat(2) [of w] P(1,2) by simp
    then have "float_to_fp16 w = h" using inf by (intro half_eqI) simp
    then show ?thesis using w(1) P(5) inf by (simp add: widens_exactly_def)
  next
    case zero
    obtain w where w: "fp16_to_float h = Some w" "unat w = h_sign h * 2 ^ 31 + (0 * 2 ^ 23 + 0)"
      using fp16_to_float_nat(2) [OF zero] unfolding add_0_right mult_0 by blast
    note P = parts [OF w(2) _ _ half_fields(4)]
    have "unat (float_to_fp16 w) = h_sign h * 2 ^ 15" using float_to_fp16_nat(3) [of w] P(1,2) by simp
    then have "float_to_fp16 w = h" using zero by (intro half_eqI) simp
    then show ?thesis using w(1) P zero by (simp add: widens_exactly_def f_mag_def mag_of_def half_mag_def)
  next
    case normal then show ?thesis using fp16_to_float_nat(3) [of h] widen_normal by blast
  next
    case sub
    from fp16_to_float_nat(4) [OF sub] obtain w k where "fp16_to_float h = Some w" and k: "1 \<le> k" "k \<le> 10"
      "2 ^ 23 \<le> h_man h * 2 ^ (13 + k)" "h_man h * 2 ^ (13 + k) < 2 ^ 24"
      "unat w = h_sign h * 2 ^ 31 + ((0x71 - k) * 2 ^ 23 + (h_man h * 2 ^ (13 + k) - 2 ^ 23))"
      by (elim exE conjE)
    then show ?thesis using widen_subnormal [OF sub(1) k] by (intro exI conjI)
  qed
qed

theorem fp16_round_trip_witness:
  "\<not> half_nan 0x8001 \<and> (\<exists>w. fp16_to_float 0x8001 = Some w \<and> float_to_fp16 w = 0x8001 \<and> f_mag w = 2 ^ 126)"
proof -
  have n: "\<not> half_nan 0x8001" by (simp add: half_nan_def)
  then obtain w where "fp16_to_float 0x8001 = Some w" "widens_exactly 0x8001 w" using fp16_round_trip by blast
  then show ?thesis using n by (auto simp: widens_exactly_def half_mag_def)
qed

lemma half_mag_pack:
  assumes "unat (h :: u16) = s * 2 ^ 15 + (E * 2 ^ 10 + R)" "R \<le> 2 ^ 10" "E < 31"
  shows "half_mag h = (if E = 0 then R * 2 ^ 126 else (2 ^ 10 + R) * 2 ^ (E + 125))"
proof -
  have fields: "h_exp h = E'" "h_man h = R'" if "unat h = s * 2 ^ 15 + (E' * 2 ^ 10 + R')" "R' < 2 ^ 10" "E' < 32" for E' R'
  proof -
    have sp: "s * 2 ^ 15 + (E' * 2 ^ 10 + R') = (s * 2 ^ 5 + E') * 2 ^ 10 + R'" by (simp add: algebra_simps)
    have "unat h div 2 ^ 10 = s * 2 ^ 5 + E'" unfolding that(1) sp using that(2) by (subst div_mult_self3) simp_all
    then show "h_exp h = E'" using that(3) by (simp only:) (subst mod_mult_self3, simp)
    show "h_man h = R'" unfolding that(1) sp using that(2) by (subst mod_mult_self3) simp
  qed
  show ?thesis
  proof (cases "R = 2 ^ 10")
    case True
    have "unat h = s * 2 ^ 15 + ((E + 1) * 2 ^ 10 + 0)" unfolding assms(1) True by simp
    note F = fields [OF this]
    show ?thesis unfolding half_mag_def using F assms(3) True by (simp add: power_add)
  next
    case False
    then show ?thesis unfolding half_mag_def using fields [OF assms(1)] assms(2,3) by simp
  qed
qed

lemma scaled_error: "2 * \<bar>int (a * 2 ^ k) - int b\<bar> \<le> 2 ^ k \<Longrightarrow> 2 * \<bar>int (a * 2 ^ k * 2 ^ e) - int (b * 2 ^ e)\<bar> \<le> 2 ^ (k + e)"
proof -
  assume "2 * \<bar>int (a * 2 ^ k) - int b\<bar> \<le> 2 ^ k"
  then have "2 * \<bar>int (a * 2 ^ k) - int b\<bar> * 2 ^ e \<le> 2 ^ k * 2 ^ e" by (rule mult_right_mono) simp
  also have "2 * \<bar>int (a * 2 ^ k) - int b\<bar> * 2 ^ e = 2 * \<bar>(int (a * 2 ^ k) - int b) * 2 ^ e\<bar>" by (simp add: abs_mult)
  finally show ?thesis by (simp add: left_diff_distrib power_add)
qed

lemma float_fields: "unat (w :: float32) = unat w div 2 ^ 31 * 2 ^ 31 + (f_exp w * 2 ^ 23 + f_man w)" "f_man w < 2 ^ 23" "f_exp w < 2 ^ 8"
  "unat w div 2 ^ 31 < 2"
proof -
  have "unat w div 2 ^ 23 = unat w div 2 ^ 31 * 2 ^ 8 + f_exp w"
    unfolding f_exp_def using div_mult_mod_eq [of "unat w div 2 ^ 23" "2 ^ 8"] by (simp add: div_mult2_eq [symmetric])
  then show "unat w = unat w div 2 ^ 31 * 2 ^ 31 + (f_exp w * 2 ^ 23 + f_man w)"
    unfolding f_man_def using div_mult_mod_eq [of "unat w" "2 ^ 23"] by simp
  show "f_man w < 2 ^ 23" "f_exp w < 2 ^ 8" by (simp_all add: f_man_def f_exp_def)
  show "unat w div 2 ^ 31 < 2" using unat_u32_less [of w] by (simp add: less_mult_imp_div_less)
qed

text \<open>Narrowing rounds to nearest: below the overflow threshold the error is at most half a unit of the last place of the half.\<close>

lemma float_to_fp16_nearest:
  assumes "unat w mod 2 ^ 31 \<le> 0x477fefff"
  shows "2 * \<bar>int (half_mag (float_to_fp16 w)) - int (f_mag w)\<bar> \<le> 2 ^ (13 + max (f_exp w) 0x71)"
proof -
  obtain s e m where U: "unat w = s * 2 ^ 31 + (e * 2 ^ 23 + m)" and m: "m < 2 ^ 23" and es: "e < 2 ^ 8" "s < 2"
    using float_fields [of w] by blast
  note P = parts [OF U m es]
  have v: "e * 2 ^ 23 + m \<le> 0x477fefff" using assms unfolding P(1) .
  consider (normal) "0x70 < e" | (sub) "e \<le> 0x70" "0x33000001 \<le> e * 2 ^ 23 + m" | (tiny) "e * 2 ^ 23 + m < 0x33000001" by linarith
  then show ?thesis
  proof cases
    case normal
    then have "unat (float_to_fp16 w) = s * 2 ^ 15 + ((e - 0x70) * 2 ^ 10 + rne m 13)"
      using float_to_fp16_nat(4) [of w] v unfolding P(1-4) by simp
    moreover have "rne m 13 \<le> 2 ^ 10" using m by (intro rne_bound) (simp add: less_mult_imp_div_less)
    moreover have "e - 0x70 < 31" using v by simp
    ultimately have "half_mag (float_to_fp16 w) = (if e - 0x70 = 0 then rne m 13 * 2 ^ 126 else (2 ^ 10 + rne m 13) * 2 ^ (e - 0x70 + 125))"
      by (rule half_mag_pack)
    moreover have "e - 0x70 + 125 = 13 + e" "e - 0x70 \<noteq> 0" using normal by simp_all
    ultimately have h: "half_mag (float_to_fp16 w) = (2 ^ 10 + rne m 13) * 2 ^ 13 * 2 ^ e" by (simp only: power_add if_False mult.assoc)
    have "2 * \<bar>int ((2 ^ 10 + rne m 13) * 2 ^ 13) - int (2 ^ 23 + m)\<bar> \<le> 2 ^ 13" using rne_nearest [of 13 m] by (simp add: algebra_simps)
    note bound = scaled_error [OF this, of e]
    have "max e 0x71 = e" "e \<noteq> 0" using normal by simp_all
    then show ?thesis using bound unfolding h f_mag_def mag_of_def P(6,7) by simp
  next
    case sub
    have e: "0x66 \<le> e" "e \<noteq> 0" using sub(2) m by simp_all
    define r where "r = rne (2 ^ 23 + m) (0x7e - e)"
    have "unat (float_to_fp16 w) = s * 2 ^ 15 + (0 * 2 ^ 10 + r)"
      using float_to_fp16_nat(5) [of w] sub unfolding P(1-4) r_def by simp
    moreover have "r \<le> 2 ^ 10" unfolding r_def
    proof (rule rne_bound)
      have "(2 :: nat) ^ 14 \<le> 2 ^ (0x7e - e)" using sub(1) by (intro power_increasing) simp_all
      then have "2 ^ 23 + m < 2 ^ 10 * 2 ^ (0x7e - e)" using m by simp
      then show "(2 ^ 23 + m) div 2 ^ (0x7e - e) < 2 ^ 10" by (rule less_mult_imp_div_less)
    qed
    ultimately have "half_mag (float_to_fp16 w) = (if 0 = (0 :: nat) then r * 2 ^ 126 else (2 ^ 10 + r) * 2 ^ (0 + 125))"
      by (rule half_mag_pack) simp
    moreover have "0x7e - e + e = 126" using sub(1) by simp
    ultimately have h: "half_mag (float_to_fp16 w) = r * 2 ^ (0x7e - e) * 2 ^ e" by (simp only: power_add [symmetric] mult.assoc if_True simp_thms)
    have "2 * \<bar>int (r * 2 ^ (0x7e - e)) - int (2 ^ 23 + m)\<bar> \<le> 2 ^ (0x7e - e)" unfolding r_def using sub(1) by (intro rne_nearest) simp
    from scaled_error [OF this, of e] show ?thesis unfolding h f_mag_def mag_of_def P(6,7) using sub(1) e(2) by (simp add: max_def)
  next
    case tiny
    then have "unat (float_to_fp16 w) = s * 2 ^ 15 + (0 * 2 ^ 10 + 0)" using float_to_fp16_nat(3) [of w] unfolding P(1,2) by simp
    from half_mag_pack [OF this] have h: "half_mag (float_to_fp16 w) = 0" by simp
    have "e \<le> 0x66" using tiny by simp
    then consider "e = 0x66" "m = 0" | "e \<le> 0x65" using tiny by fastforce
    then have "(if e = 0 then 2 * m else (2 ^ 23 + m) * 2 ^ e) \<le> 2 ^ 125"
    proof cases
      case 2
      then have "(2 :: nat) ^ e \<le> 2 ^ 0x65" by (intro power_increasing) simp_all
      then have "(2 ^ 23 + m) * 2 ^ e \<le> 2 ^ 24 * 2 ^ 0x65" using m by (intro mult_le_mono) simp_all
      then show ?thesis using m by simp
    qed simp
    then show ?thesis unfolding h f_mag_def mag_of_def P(6,7) using \<open>e \<le> 0x66\<close> by (simp add: max_def)
  qed
qed

lemma bf16_round_trip: "float_to_bf16 (bf16_to_float b) = b"
  unfolding float_to_bf16_def bf16_to_float_def
  by (rule bit_word_eqI) (auto simp: bit_simps)

end
