(* ===== verification/Float64.thy ===== *)
theory Float64
  imports Complex_Main Prelude
begin

text \<open>
  The part of \<open>double\<close> arithmetic that a timeout needs.

  A finite double is the rational number it stands for.  Each operation computes exactly and rounds its result to 53
  significant bits, to nearest with ties to even (\<open>rnd53\<close>).  The exponent is not bounded: the values a timeout computation
  meets stay far inside the range of \<open>double\<close>.  The lemmas show that rounding is monotone and keeps the integers below
  \<open>2 ^ 53\<close>.
\<close>

section \<open>Rounding\<close>

fun lg :: "nat \<Rightarrow> nat" where
  "lg n = (if n < 2 then 0 else Suc (lg (n div 2)))"

declare lg.simps [simp del]

definition expo :: "rat \<Rightarrow> int" where
  "expo q = (if 1 \<le> q then int (lg (nat \<lfloor>q\<rfloor>)) else - int (Suc (lg (nat (\<lceil>1 / q\<rceil> - 1)))))"

definition half_even :: "rat \<Rightarrow> int" where
  "half_even q = (let f = \<lfloor>q\<rfloor>; r = q - of_int f in if 1 / 2 < r \<or> r = 1 / 2 \<and> odd f then f + 1 else f)"

definition rnd_pos :: "rat \<Rightarrow> rat" where
  "rnd_pos q = (let e = expo q in of_int (half_even (q * 2 powi (52 - e))) * 2 powi (e - 52))"

definition rnd53 :: "rat \<Rightarrow> rat" where
  "rnd53 q = (if q = 0 then 0 else if 0 < q then rnd_pos q else - rnd_pos (- q))"

section \<open>Doubles with their special values\<close>

datatype double = Fin rat | PInf | NInf | NaN

fun dgt :: "double \<Rightarrow> rat \<Rightarrow> bool" where
  "dgt (Fin t) q \<longleftrightarrow> q < t"
| "dgt PInf q \<longleftrightarrow> True"
| "dgt NInf q \<longleftrightarrow> False"
| "dgt NaN q \<longleftrightarrow> False"

fun dge :: "rat \<Rightarrow> double \<Rightarrow> bool" where
  "dge q (Fin t) \<longleftrightarrow> t \<le> q"
| "dge q PInf \<longleftrightarrow> False"
| "dge q NInf \<longleftrightarrow> True"
| "dge q NaN \<longleftrightarrow> False"

section \<open>Monotonicity\<close>

lemma lg_bounds: "0 < n \<Longrightarrow> 2 ^ lg n \<le> n \<and> n < 2 ^ Suc (lg n)"
proof (induction n rule: lg.induct)
  case (1 n)
  show ?case
  proof (cases "n < 2")
    case True
    then have "n = 1" using 1(2) by simp
    then show ?thesis by (simp add: lg.simps)
  next
    case False
    then have "2 ^ lg (n div 2) \<le> n div 2 \<and> n div 2 < 2 ^ Suc (lg (n div 2))" using 1(1) by simp
    then have "2 ^ Suc (lg (n div 2)) \<le> n \<and> n < 2 ^ Suc (Suc (lg (n div 2)))" by auto
    then show ?thesis using False by (subst (1 2) lg.simps) simp
  qed
qed

lemma expo_bounds:
  assumes "0 < q"
  shows "2 powi expo q \<le> q" "q < 2 powi (expo q + 1)"
proof -
  have "2 powi expo q \<le> q \<and> q < 2 powi (expo q + 1)"
  proof (cases "1 \<le> q")
    case True
    define n where "n = nat \<lfloor>q\<rfloor>"
    have f: "1 \<le> \<lfloor>q\<rfloor>" using True by (simp add: le_floor_iff)
    have n: "of_nat n \<le> q" "q < of_nat (Suc n)"
    proof -
      have "of_nat n = (of_int \<lfloor>q\<rfloor> :: rat)" using f by (simp add: n_def)
      then show "of_nat n \<le> q" "q < of_nat (Suc n)" using of_int_floor_le [of q] floor_correct [of q] by simp_all
    qed
    have "0 < n" using f by (simp add: n_def)
    from lg_bounds [OF this] have "2 ^ lg n \<le> n" "Suc n \<le> 2 ^ Suc (lg n)" by simp_all
    then have "(of_nat (2 ^ lg n) :: rat) \<le> of_nat n" "(of_nat (Suc n) :: rat) \<le> of_nat (2 ^ Suc (lg n))" by (simp_all only: of_nat_le_iff)
    then have "2 ^ lg n \<le> q" "q < 2 ^ Suc (lg n)" using n unfolding of_nat_power of_nat_numeral by linarith+
    moreover have "expo q = int (lg n)" "expo q + 1 = int (Suc (lg n))" using True by (simp_all add: expo_def n_def)
    ultimately show ?thesis by (simp only: power_int_of_nat)
  next
    case False
    define m where "m = nat (\<lceil>1 / q\<rceil> - 1)"
    have big: "1 < 1 / q" using False assms by simp
    then have c: "2 \<le> \<lceil>1 / q\<rceil>" by (simp add: less_ceiling_iff flip: zle_add1_eq_le)
    have "int m = \<lceil>1 / q\<rceil> - 1" using c by (simp only: m_def)
    then have "of_nat m = (of_int \<lceil>1 / q\<rceil> - 1 :: rat)" by (metis of_int_1 of_int_diff of_int_of_nat_eq)
    then have m: "of_nat m < 1 / q" "1 / q \<le> of_nat (Suc m)" using ceiling_correct [of "1 / q"] by simp_all
    have "0 < m" using c by (simp add: m_def)
    from lg_bounds [OF this] have "2 ^ lg m \<le> m" "Suc m \<le> 2 ^ Suc (lg m)" by simp_all
    then have "(of_nat (2 ^ lg m) :: rat) \<le> of_nat m" "(of_nat (Suc m) :: rat) \<le> of_nat (2 ^ Suc (lg m))" by (simp_all only: of_nat_le_iff)
    then have b: "2 ^ lg m < 1 / q" "1 / q \<le> 2 ^ Suc (lg m)" using m unfolding of_nat_power of_nat_numeral by linarith+
    have "expo q = - int (Suc (lg m))" "expo q + 1 = - int (lg m)" using False by (simp_all add: expo_def m_def)
    moreover have "1 / 2 ^ Suc (lg m) \<le> q" "q < 1 / 2 ^ lg m" using b assms by (simp_all add: field_simps)
    ultimately show ?thesis by (simp only: power_int_minus power_int_of_nat inverse_eq_divide)
  qed
  then show "2 powi expo q \<le> q" "q < 2 powi (expo q + 1)" by simp_all
qed

lemma half_even_mono: "x \<le> y \<Longrightarrow> half_even x \<le> half_even y"
proof (cases "\<lfloor>x\<rfloor> = \<lfloor>y\<rfloor>")
  case True
  assume "x \<le> y"
  then show ?thesis using True by (auto simp: half_even_def Let_def)
next
  case False
  assume "x \<le> y"
  then have "\<lfloor>x\<rfloor> + 1 \<le> \<lfloor>y\<rfloor>" using False floor_mono by fastforce
  moreover have "half_even x \<le> \<lfloor>x\<rfloor> + 1" "\<lfloor>y\<rfloor> \<le> half_even y" by (simp_all add: half_even_def Let_def)
  ultimately show ?thesis by linarith
qed

lemma half_even_of_int [simp]: "half_even (of_int n) = n"
  by (simp add: half_even_def)

lemma rnd_pos_bounds:
  assumes "0 < q"
  shows "2 powi expo q \<le> rnd_pos q" "rnd_pos q \<le> 2 powi (expo q + 1)"
proof -
  define e where "e = expo q"
  note b = expo_bounds [OF assms, folded e_def]
  have s: "(2 :: rat) powi a * 2 powi b = 2 powi (a + b)" for a b :: int by (simp add: power_int_add)
  have "2 powi e * 2 powi (52 - e) \<le> q * 2 powi (52 - e)" "q * 2 powi (52 - e) \<le> 2 powi (e + 1) * 2 powi (52 - e)"
    using b by (simp_all add: mult_right_mono)
  then have "of_int (2 ^ 52) \<le> q * 2 powi (52 - e)" "q * 2 powi (52 - e) \<le> of_int (2 ^ 53)" unfolding s by simp_all
  then have "2 ^ 52 \<le> half_even (q * 2 powi (52 - e))" "half_even (q * 2 powi (52 - e)) \<le> 2 ^ 53"
    using half_even_mono half_even_of_int by metis+
  then have r: "of_int (2 ^ 52) \<le> (of_int (half_even (q * 2 powi (52 - e))) :: rat)"
    "(of_int (half_even (q * 2 powi (52 - e))) :: rat) \<le> of_int (2 ^ 53)" by (simp_all only: of_int_le_iff)
  have "2 powi 52 * 2 powi (e - 52) \<le> rnd_pos q" "rnd_pos q \<le> 2 powi 53 * 2 powi (e - 52)"
    unfolding rnd_pos_def Let_def e_def [symmetric] using r by (auto intro!: mult_right_mono)
  then show "2 powi expo q \<le> rnd_pos q" "rnd_pos q \<le> 2 powi (expo q + 1)" unfolding s by (simp_all add: e_def add.commute)
qed

lemma powi_less_cancel: "(2 :: rat) powi a < 2 powi b \<Longrightarrow> a < b"
  by (metis linorder_not_less one_le_numeral power_int_increasing)

lemma expo_eqI: "2 powi e \<le> q \<Longrightarrow> q < 2 powi (e + 1) \<Longrightarrow> expo q = e"
proof -
  assume e: "2 powi e \<le> q" "q < 2 powi (e + 1)"
  have "0 < (2 :: rat) powi e" by (rule zero_less_power_int) simp
  then have "0 < q" using e(1) by linarith
  note b = expo_bounds [OF this]
  have "2 powi e < (2 :: rat) powi (expo q + 1)" "2 powi expo q < (2 :: rat) powi (e + 1)" using e b by linarith+
  then have "e < expo q + 1" "expo q < e + 1" by (blast intro: powi_less_cancel)+
  then show ?thesis by simp
qed

lemma half_even_eqI: "of_int n - 1 / 2 < q \<Longrightarrow> q < of_int n + 1 / 2 \<Longrightarrow> half_even q = n"
proof -
  assume q: "of_int n - 1 / 2 < q" "q < of_int n + 1 / 2"
  consider "\<lfloor>q\<rfloor> = n" | "\<lfloor>q\<rfloor> = n - 1"
  proof -
    have "n - 1 \<le> \<lfloor>q\<rfloor>" using q(1) by (simp add: le_floor_iff)
    moreover have "\<lfloor>q\<rfloor> < n + 1" using q(2) by (simp only: floor_less_iff of_int_add of_int_1)
    ultimately show thesis using that by linarith
  qed
  then show ?thesis using q by cases (auto simp: half_even_def Let_def)
qed

lemma rnd_pos_eqI: "expo q = e \<Longrightarrow> half_even (q * 2 powi (52 - e)) = n \<Longrightarrow> rnd_pos q = of_int n * 2 powi (e - 52)"
  by (simp add: rnd_pos_def)

lemma rnd_pos_mono:
  assumes "0 < x" "x \<le> y"
  shows "rnd_pos x \<le> rnd_pos y"
proof -
  have y: "0 < y" using assms by simp
  have "2 powi expo x < (2 :: rat) powi (expo y + 1)" using expo_bounds(1) [OF assms(1)] expo_bounds(2) [OF y] assms(2) by linarith
  then have "expo x < expo y + 1" by (rule powi_less_cancel)
  then consider "expo x = expo y" | "expo x + 1 \<le> expo y" by linarith
  then show ?thesis
  proof cases
    case 1
    have "half_even (x * 2 powi (52 - expo y)) \<le> half_even (y * 2 powi (52 - expo y))"
      using assms(2) by (intro half_even_mono mult_right_mono) simp_all
    then show ?thesis unfolding rnd_pos_def Let_def 1 by (intro mult_right_mono) simp_all
  next
    case 2
    then have "(2 :: rat) powi (expo x + 1) \<le> 2 powi expo y" by (intro power_int_increasing) simp_all
    then show ?thesis using rnd_pos_bounds(2) [OF assms(1)] rnd_pos_bounds(1) [OF y] by linarith
  qed
qed

lemma rnd_pos_positive: "0 < q \<Longrightarrow> 0 < rnd_pos q"
  using rnd_pos_bounds(1) [of q] by (meson less_le_trans zero_less_numeral zero_less_power_int)

lemma rnd53_mono: "x \<le> y \<Longrightarrow> rnd53 x \<le> rnd53 y"
proof -
  assume le: "x \<le> y"
  consider "0 < x" | "y < 0" | "x \<le> 0" "0 \<le> y" by linarith
  then show ?thesis
  proof cases
    case 1 then show ?thesis using le rnd_pos_mono by (simp add: rnd53_def)
  next
    case 2 then show ?thesis using le rnd_pos_mono [of "- y" "- x"] by (simp add: rnd53_def)
  next
    case 3
    then have "rnd53 x \<le> 0" "0 \<le> rnd53 y" using rnd_pos_positive [of "- x"] rnd_pos_positive [of y] by (auto simp: rnd53_def)
    then show ?thesis by linarith
  qed
qed

lemma rnd53_of_int:
  assumes "0 \<le> n" "n < 2 ^ 53"
  shows "rnd53 (of_int n) = of_int n"
proof (cases "n = 0")
  case False
  then have pos: "0 < (of_int n :: rat)" using assms(1) by simp
  define e where "e = expo (of_int n)"
  have "2 powi e \<le> (of_int n :: rat)" unfolding e_def by (rule expo_bounds [OF pos])
  also have "of_int n < (of_int (2 ^ 53) :: rat)" using assms(2) by (simp only: of_int_less_iff)
  also have "of_int (2 ^ 53) = (2 :: rat) powi 53" by simp
  finally have "e < 53" by (rule powi_less_cancel)
  then have "52 - e = int (nat (52 - e))" by simp
  then have p: "(2 :: rat) powi (52 - e) = of_int (2 ^ nat (52 - e))" by (metis of_int_numeral of_int_power power_int_of_nat)
  have "rnd_pos (of_int n) = of_int n * 2 powi (52 - e) * 2 powi (e - 52)"
    unfolding rnd_pos_def Let_def e_def [symmetric] unfolding p of_int_mult [symmetric] half_even_of_int ..
  also have "\<dots> = of_int n" by (simp add: mult.assoc flip: power_int_add)
  finally show ?thesis using pos by (simp add: rnd53_def)
qed (simp add: rnd53_def)

end
