(* ===== verification/Spinloop.thy ===== *)
theory Spinloop
  imports Float64
begin

text \<open>
  Waiting for a store, \<open>src/csrc/spinloop.cpp\<close>: a callback is polled until it returns \<open>True\<close>, it raises, or a timeout passes.

  The world outside (the Python callback, the clock, the hardware waits, all of which let time pass and other threads run) is
  a record of functions on an abstract state.  The calls that are made are logged, so that the theorem can speak of their
  order.  The loop may run forever when there is no timeout, so that it is a \<open>partial_function\<close>; with a timeout it is proved
  to return, within an explicit number of rounds, from laws about time alone (\<open>time_passes\<close>).
\<close>

section \<open>Processor support\<close>

record spinloop_state =
  cpu_support :: u32
  max_monitor_line_size :: u32

definition CPU_SUPPORT_NONE :: u32 where
  "CPU_SUPPORT_NONE = 0"

definition CPU_SUPPORT_MONITORX :: u32 where
  "CPU_SUPPORT_MONITORX = 1"

text \<open>\<open>__get_cpuid\<close>: the registers \<open>eax\<close>, \<open>ebx\<close>, \<open>ecx\<close>, \<open>edx\<close> of a leaf, or nothing when the leaf is not supported.\<close>

type_synonym cpuid = "u32 \<Rightarrow> (u32 \<times> u32 \<times> u32 \<times> u32) option"

definition amd_monitorx :: "cpuid \<Rightarrow> bool" where
  "amd_monitorx cpuid =
     (case cpuid 0 of None \<Rightarrow> False
      | Some (eax, ebx, ecx, edx) \<Rightarrow>
          if ebx = 0x68747541 \<and> edx = 0x69746e65 \<and> ecx = 0x444d4163 then
            (case cpuid 0x80000000 of None \<Rightarrow> False
             | Some (eax, ebx, ecx, edx) \<Rightarrow>
                 if eax \<ge> 0x80000001 then
                   (case cpuid 0x80000001 of None \<Rightarrow> False | Some (eax, ebx, ecx, edx) \<Rightarrow> ecx AND push_bit 29 1 \<noteq> 0)
                 else False)
          else False)"

definition determine_cpu_support :: "bool \<Rightarrow> cpuid \<Rightarrow> spinloop_state" where
  "determine_cpu_support x86 cpuid =
     (let support = (if x86 \<and> amd_monitorx cpuid then CPU_SUPPORT_MONITORX else CPU_SUPPORT_NONE) in
      \<lparr>cpu_support = support,
       max_monitor_line_size =
         (if support = CPU_SUPPORT_MONITORX then (case cpuid 5 of None \<Rightarrow> 0 | Some (eax, ebx, ecx, edx) \<Rightarrow> ebx AND 0xff) else 0)\<rparr>)"

section \<open>The loop\<close>

type_synonym timespec = "int \<times> int"

datatype py_res = ResNull | ResTrue | ResOther

datatype event = Acquired | Called py_res | Clock "timespec option" | Monitorx | Mwaitx | Pause | Released

datatype py_exc = TypeError string | RuntimeError string | Propagated

datatype py_ret = PyTrue | PyFalse | PyNull py_exc

record 'w env =
  callback :: "'w \<Rightarrow> py_res \<times> 'w"
  clock_gettime :: "'w \<Rightarrow> timespec option \<times> 'w"
  mm_monitorx :: "'w \<Rightarrow> 'w"
  mm_mwaitx :: "'w \<Rightarrow> 'w"
  cpu_pause :: "'w \<Rightarrow> 'w"

definition elapsed :: "timespec \<Rightarrow> timespec \<Rightarrow> rat" where
  "elapsed t_now t_start =
     rnd53 (rnd53 (of_int (fst t_now - fst t_start)) + rnd53 (rnd53 (of_int (snd t_now - snd t_start)) * rnd53 (1 / 10 ^ 9)))"

text \<open>What a round does: it leaves the loop with a return value, or goes on with the world, the log and the counter.\<close>

datatype 'w round = Break py_ret 'w "event list" | Continue 'w "event list" u32

definition wait_step :: "'w env \<Rightarrow> bool \<Rightarrow> spinloop_state \<Rightarrow> bool \<Rightarrow> 'w \<Rightarrow> event list \<Rightarrow> u32 \<Rightarrow> 'w round" where
  "wait_step env x86 state buffer_qualifies w tr iteration =
     (if x86 \<and> buffer_qualifies \<and> cpu_support state = CPU_SUPPORT_MONITORX then
        (let w1 = mm_monitorx env w; (res, w2) = callback env w1; tr1 = tr @ [Monitorx, Called res] in
         case res of ResNull \<Rightarrow> Break (PyNull Propagated) w2 tr1
         | ResTrue \<Rightarrow> Break PyTrue w2 tr1
         | ResOther \<Rightarrow> Continue (mm_mwaitx env w2) (tr1 @ [Mwaitx]) iteration)
      else Continue (cpu_pause env w) (tr @ [Pause]) iteration)"

definition spin_round ::
  "'w env \<Rightarrow> bool \<Rightarrow> spinloop_state \<Rightarrow> bool \<Rightarrow> double \<Rightarrow> timespec \<Rightarrow> 'w \<Rightarrow> event list \<Rightarrow> u32 \<Rightarrow> 'w round" where
  "spin_round env x86 state buffer_qualifies timeout t_start w tr iteration =
     (let have_timeout = dgt timeout (rnd53 (1 / 10 ^ 9)); (res, w1) = callback env w; tr1 = tr @ [Called res] in
      case res of ResNull \<Rightarrow> Break (PyNull Propagated) w1 tr1
      | ResTrue \<Rightarrow> Break PyTrue w1 tr1
      | ResOther \<Rightarrow>
          if have_timeout \<and> iteration AND 15 = 0 then
            (let (t, w2) = clock_gettime env w1; tr2 = tr1 @ [Clock t] in
             case t of None \<Rightarrow> Break (PyNull (RuntimeError ''clock_gettime() failed!'')) w2 tr2
             | Some t_now \<Rightarrow>
                 if dge (elapsed t_now t_start) timeout then Break PyFalse w2 tr2
                 else wait_step env x86 state buffer_qualifies w2 tr2 (iteration + 1))
          else wait_step env x86 state buffer_qualifies w1 tr1 (iteration + 1))"

partial_function (option) spin ::
  "'w env \<Rightarrow> bool \<Rightarrow> spinloop_state \<Rightarrow> bool \<Rightarrow> double \<Rightarrow> timespec \<Rightarrow> 'w \<Rightarrow> event list \<Rightarrow> u32 \<Rightarrow> (py_ret \<times> 'w \<times> event list) option" where
  "spin env x86 state buffer_qualifies timeout t_start w tr iteration =
     (case spin_round env x86 state buffer_qualifies timeout t_start w tr iteration of
        Break r w' tr' \<Rightarrow> Some (r, w', tr')
      | Continue w' tr' iteration' \<Rightarrow> spin env x86 state buffer_qualifies timeout t_start w' tr' iteration')"

text \<open>The parsed arguments: the length of the buffer, whether the callback is callable, and the optional timeout.\<close>

record spin_args =
  buffer_len :: int
  is_callable :: bool
  arg_timeout :: "double option"

definition method_spinloop ::
  "'w env \<Rightarrow> bool \<Rightarrow> spinloop_state option \<Rightarrow> spin_args option \<Rightarrow> 'w \<Rightarrow> (py_ret \<times> 'w \<times> event list) option" where
  "method_spinloop env x86 mstate parsed w =
     (case mstate of None \<Rightarrow> Some (PyNull (TypeError ''Failed to retrieve module state!''), w, [])
      | Some state \<Rightarrow>
     (case parsed of None \<Rightarrow> Some (PyNull Propagated, w, [])
      | Some args \<Rightarrow>
        let timeout = (case arg_timeout args of None \<Rightarrow> Fin 0 | Some t \<Rightarrow> t) in
        if \<not> is_callable args then Some (PyNull (TypeError ''callback parameter must be callable!''), w, [Acquired, Released])
        else let (t, w1) = clock_gettime env w in
        (case t of None \<Rightarrow> Some (PyNull (RuntimeError ''clock_gettime() failed!''), w1, [Acquired, Clock None, Released])
         | Some t_start \<Rightarrow> do {
             let buffer_qualifies = (buffer_len args \<le> uint (max_monitor_line_size state));
             (r, w2, tr) \<leftarrow> spin env x86 state buffer_qualifies timeout t_start w1 [Acquired, Clock (Some t_start)] 0;
             Some (r, w2, tr @ [Released]) })))"

text \<open>Module initialisation: a module is created with its state, unless an allocation fails.\<close>

definition PyInit_spinloop :: "bool \<Rightarrow> cpuid \<Rightarrow> bool \<Rightarrow> bool \<Rightarrow> spinloop_state option option" where
  "PyInit_spinloop x86 cpuid created has_state =
     (if created then Some (if has_state then Some (determine_cpu_support x86 cpuid) else None) else None)"

section \<open>What the log says\<close>

text \<open>An event after which the loop goes on.\<close>

fun pending :: "double \<Rightarrow> timespec \<Rightarrow> event \<Rightarrow> bool" where
  "pending timeout t0 (Called r) \<longleftrightarrow> r = ResOther"
| "pending timeout t0 (Clock t) \<longleftrightarrow> (case t of None \<Rightarrow> False | Some t1 \<Rightarrow> \<not> dge (elapsed t1 t0) timeout)"
| "pending timeout t0 Acquired \<longleftrightarrow> False"
| "pending timeout t0 Released \<longleftrightarrow> False"
| "pending timeout t0 e \<longleftrightarrow> True"

text \<open>The event that ends the loop with a given return value.\<close>

fun final :: "double \<Rightarrow> timespec \<Rightarrow> py_ret \<Rightarrow> event \<Rightarrow> bool" where
  "final timeout t0 PyTrue e \<longleftrightarrow> e = Called ResTrue"
| "final timeout t0 PyFalse e \<longleftrightarrow> (\<exists>t. e = Clock (Some t) \<and> dge (elapsed t t0) timeout)"
| "final timeout t0 (PyNull x) e \<longleftrightarrow>
     x = Propagated \<and> e = Called ResNull \<or> x = RuntimeError ''clock_gettime() failed!'' \<and> e = Clock None"

definition waits :: "event list \<Rightarrow> nat" where
  "waits tr = length (filter (\<lambda>e. e = Mwaitx \<or> e = Pause) tr)"

text \<open>No lost wake-up: the monitor is armed, and the callback asked again, right before every hardware wait.\<close>

definition armed :: "event list \<Rightarrow> bool" where
  "armed tr \<longleftrightarrow> (\<forall>pre post. tr = pre @ Mwaitx # post \<longrightarrow> (\<exists>p. pre = p @ [Monitorx, Called ResOther]))"

text \<open>The laws of time.  True time, in any unit, is \<open>now\<close>: no call turns it back, and every hardware wait takes at least one unit.  The
  clock shows \<open>shown a\<close> nanoseconds at the time \<open>a\<close>.  What it shows never decreases, but it may be coarse: it is only known to have
  moved on when \<open>K\<close> units have passed, so that readings may repeat.  A reading is taken at some time during the call, or the call fails.\<close>

definition reading :: "int \<Rightarrow> timespec" where
  "reading ns = (ns div 10 ^ 9, ns mod 10 ^ 9)"

definition steady :: "(int \<Rightarrow> int) \<Rightarrow> int \<Rightarrow> bool" where
  "steady shown K \<longleftrightarrow> 0 < K \<and> mono shown \<and> (\<forall>a. shown a < shown (a + K))"

definition time_passes :: "'w env \<Rightarrow> ('w \<Rightarrow> int) \<Rightarrow> (int \<Rightarrow> int) \<Rightarrow> bool" where
  "time_passes env now shown \<longleftrightarrow>
     (\<forall>w. now w \<le> now (snd (callback env w)) \<and> now w \<le> now (snd (clock_gettime env w)) \<and> now w \<le> now (mm_monitorx env w)
        \<and> now w < now (mm_mwaitx env w) \<and> now w < now (cpu_pause env w)
        \<and> (\<forall>x. fst (clock_gettime env w) = Some x \<longrightarrow>
             (\<exists>a \<in> {now w..now (snd (clock_gettime env w))}. x = reading (shown a))))"

lemma steady_advances: "steady shown K \<Longrightarrow> shown a + int n \<le> shown (a + K * int n)"
proof (induction n)
  case (Suc n)
  then have "shown (a + K * int n) < shown (a + K * int n + K)" by (simp add: steady_def)
  then show ?case using Suc by (simp add: algebra_simps)
qed simp

section \<open>The loop keeps its log in order\<close>

lemma waits_append [simp]: "waits (xs @ ys) = waits xs + waits ys"
  by (simp add: waits_def)

lemma waits_Nil [simp]: "waits [] = 0"
  by (simp add: waits_def)

lemma waits_Cons [simp]: "waits (e # es) = (if e = Mwaitx \<or> e = Pause then 1 else 0) + waits es"
  by (simp add: waits_def)

lemma armed_Nil [simp]: "armed []"
  by (simp add: armed_def)

lemma armed_snoc:
  assumes "armed tr" "e = Mwaitx \<Longrightarrow> \<exists>p. tr = p @ [Monitorx, Called ResOther]"
  shows "armed (tr @ [e])"
  unfolding armed_def
proof (intro allI impI)
  fix pre post assume eq: "tr @ [e] = pre @ Mwaitx # post"
  show "\<exists>p. pre = p @ [Monitorx, Called ResOther]"
  proof (cases post rule: rev_cases)
    case Nil
    then show ?thesis using eq assms(2) by simp
  next
    case (snoc ys y)
    then have "tr = pre @ Mwaitx # ys" using eq by simp
    then show ?thesis using assms(1) unfolding armed_def by blast
  qed
qed

lemma armed_wait: "armed tr \<Longrightarrow> armed (tr @ [Monitorx, Called ResOther, Mwaitx])"
proof -
  assume "armed tr"
  then have "armed (tr @ [Monitorx])" by (rule armed_snoc) simp
  then have "armed ((tr @ [Monitorx]) @ [Called ResOther])" by (rule armed_snoc) simp
  then have "armed (((tr @ [Monitorx]) @ [Called ResOther]) @ [Mwaitx])" by (rule armed_snoc) simp
  then show ?thesis by simp
qed

definition on_course :: "('w \<Rightarrow> int) \<Rightarrow> double \<Rightarrow> timespec \<Rightarrow> int \<Rightarrow> 'w \<Rightarrow> event list \<Rightarrow> nat \<Rightarrow> bool" where
  "on_course now timeout t0 n0 w mid n \<longleftrightarrow>
     list_all (pending timeout t0) mid \<and> armed mid \<and> waits mid = n \<and> n0 + int n \<le> now w"

text \<open>A round that starts on course after \<open>n\<close> waits leaves with the event that its return value stands for, or goes on with one
  more wait.\<close>

definition round_ok :: "('w \<Rightarrow> int) \<Rightarrow> double \<Rightarrow> timespec \<Rightarrow> int \<Rightarrow> event list \<Rightarrow> nat \<Rightarrow> 'w round \<Rightarrow> bool" where
  "round_ok now timeout t0 n0 tr0 n outcome =
     (case outcome of
        Break r w tr \<Rightarrow> \<exists>mid e. tr = tr0 @ mid @ [e] \<and> on_course now timeout t0 n0 w mid n \<and> final timeout t0 r e
      | Continue w tr i \<Rightarrow> \<exists>mid. tr = tr0 @ mid \<and> on_course now timeout t0 n0 w mid (Suc n) \<and> i = word_of_nat (Suc n))"

lemma on_course_snoc:
  "on_course now timeout t0 n0 w mid n \<Longrightarrow> pending timeout t0 e \<Longrightarrow> e \<noteq> Mwaitx \<Longrightarrow> now w \<le> now w' \<Longrightarrow>
     (if e = Pause then now w < now w' else True) \<Longrightarrow> on_course now timeout t0 n0 w' (mid @ [e]) (if e = Pause then Suc n else n)"
  using armed_snoc [of mid e] by (auto simp: on_course_def)

lemma on_course_later: "on_course now timeout t0 n0 w mid n \<Longrightarrow> now w \<le> now w' \<Longrightarrow> on_course now timeout t0 n0 w' mid n"
  by (auto simp: on_course_def)

lemma on_course_mwaitx:
  "on_course now timeout t0 n0 w mid n \<Longrightarrow> now w < now w' \<Longrightarrow>
     on_course now timeout t0 n0 w' (mid @ [Monitorx, Called ResOther, Mwaitx]) (Suc n)"
  by (auto simp: on_course_def armed_wait)

lemma time_passesD:
  assumes "time_passes env now shown"
  shows "callback env w = (r, w') \<Longrightarrow> now w \<le> now w'" "clock_gettime env w = (t, w') \<Longrightarrow> now w \<le> now w'"
    "now w \<le> now (mm_monitorx env w)" "now w < now (mm_mwaitx env w)" "now w < now (cpu_pause env w)"
    "clock_gettime env w = (Some x, w') \<Longrightarrow> \<exists>a. now w \<le> a \<and> a \<le> now w' \<and> x = reading (shown a)"
  using assms [unfolded time_passes_def, rule_format, of w] by (auto simp del: zle_diff1_eq)

lemma wait_step_ok:
  assumes T: "time_passes env now shown" and c: "on_course now timeout t0 n0 w mid n"
  shows "round_ok now timeout t0 n0 tr0 n (wait_step env x86 state q w (tr0 @ mid) (word_of_nat (Suc n)))"
proof (cases "x86 \<and> q \<and> cpu_support state = CPU_SUPPORT_MONITORX")
  case True
  obtain res w2 where cb: "callback env (mm_monitorx env w) = (res, w2)" by fastforce
  have le: "now w \<le> now w2" using time_passesD(1) [OF T cb] time_passesD(3) [OF T, of w] by simp
  have c1: "on_course now timeout t0 n0 w2 (mid @ [Monitorx]) n" using on_course_snoc [OF c, of Monitorx w2] le by simp
  have c2: "on_course now timeout t0 n0 (mm_mwaitx env w2) (mid @ [Monitorx, Called ResOther, Mwaitx]) (Suc n)"
    using on_course_mwaitx [OF on_course_later [OF c le]] time_passesD(4) [OF T, of w2] by simp
  show ?thesis
    using True cb c1 c2 by (cases res) (auto simp: wait_step_def round_ok_def intro: exI [of _ "mid @ [Monitorx]"])
next
  case False
  have "on_course now timeout t0 n0 (cpu_pause env w) (mid @ [Pause]) (Suc n)"
    using on_course_snoc [OF c, of Pause "cpu_pause env w"] time_passesD(5) [OF T, of w] by simp
  then show ?thesis unfolding wait_step_def if_not_P [OF False] by (simp add: round_ok_def)
qed

lemma spin_round_ok:
  assumes T: "time_passes env now shown" and c: "on_course now timeout t0 n0 w mid n"
  shows "round_ok now timeout t0 n0 tr0 n (spin_round env x86 state q timeout t0 w (tr0 @ mid) (word_of_nat n))"
proof -
  obtain res w1 where cb: "callback env w = (res, w1)" by fastforce
  have c0: "on_course now timeout t0 n0 w1 mid n" using c time_passesD(1) [OF T cb] by (rule on_course_later)
  show ?thesis
  proof (cases "res = ResOther")
    case False
    then show ?thesis using cb c0 by (cases res) (auto simp: spin_round_def round_ok_def)
  next
    case True
    have c1: "on_course now timeout t0 n0 w1 (mid @ [Called ResOther]) n" using on_course_snoc [OF c0, of "Called ResOther" w1] by simp
    obtain t w2 where cl: "clock_gettime env w1 = (t, w2)" by fastforce
    have c2: "on_course now timeout t0 n0 w2 (mid @ [Called ResOther]) n" using c1 time_passesD(2) [OF T cl] by (rule on_course_later)
    have i: "word_of_nat n + 1 = (word_of_nat (Suc n) :: u32)" by simp
    show ?thesis
    proof (cases "dgt timeout (rnd53 (1 / 10 ^ 9)) \<and> (word_of_nat n :: u32) AND 15 = 0")
      case check: True
      show ?thesis
      proof (cases t)
        case None
        then show ?thesis using cb cl c2 check True by (simp add: spin_round_def round_ok_def)
      next
        case (Some t1)
        have "on_course now timeout t0 n0 w2 (mid @ [Called ResOther, Clock t]) n" if "\<not> dge (elapsed t1 t0) timeout"
          using on_course_snoc [OF c2, of "Clock t" w2] that Some by simp
        from wait_step_ok [OF T this] show ?thesis using cb cl c2 check True Some
          by (cases t1; cases "dge (elapsed t1 t0) timeout") (simp_all add: spin_round_def round_ok_def i)
      qed
    next
      case False
      from cb True have "spin_round env x86 state q timeout t0 w (tr0 @ mid) (word_of_nat n) =
          wait_step env x86 state q w1 (tr0 @ mid @ [Called ResOther]) (word_of_nat n + 1)"
        unfolding spin_round_def Let_def if_not_P [OF False] by simp
      then show ?thesis using wait_step_ok [OF T c1] by (simp only: i append_assoc)
    qed
  qed
qed

section \<open>A timeout ends the loop\<close>

lemma nano: "rnd53 (1 / 10 ^ 9) = 4835703278458517 / 2 ^ 82"
proof -
  have p: "(2 :: rat) powi - 30 = 1 / 2 ^ 30" "(2 :: rat) powi - 82 = 1 / 2 ^ 82" "(2 :: rat) powi (- 30 + 1) = 1 / 2 ^ 29"
    by (simp_all add: power_int_minus inverse_eq_divide)
  have e: "expo (1 / 10 ^ 9) = - 30" by (rule expo_eqI) (simp_all only: p, simp_all)
  have "half_even (1 / 10 ^ 9 * 2 powi (52 - - 30)) = 4835703278458517" by (rule half_even_eqI) simp_all
  from rnd_pos_eqI [OF e this] show ?thesis by (simp add: rnd53_def p)
qed

lemma nano_bounds: "0 \<le> rnd53 (1 / 10 ^ 9)" "rnd53 (- (10 ^ 9) * rnd53 (1 / 10 ^ 9)) = - 1"
proof -
  show "0 \<le> rnd53 (1 / 10 ^ 9)" unfolding nano by simp
  have e: "expo (10 ^ 9 * (4835703278458517 / 2 ^ 82)) = 0" by (rule expo_eqI) simp_all
  have "half_even (10 ^ 9 * (4835703278458517 / 2 ^ 82) * 2 powi (52 - 0)) = 2 ^ 52" by (rule half_even_eqI) simp_all
  from rnd_pos_eqI [OF e this] have "rnd_pos (10 ^ 9 * (4835703278458517 / 2 ^ 82)) = 1" by (simp add: power_int_minus)
  then show "rnd53 (- (10 ^ 9) * rnd53 (1 / 10 ^ 9)) = - 1" unfolding nano by (simp add: rnd53_def)
qed

lemma elapsed_reaches:
  assumes "rnd53 T = T" "0 \<le> T" "T < 2 ^ 52" and N: "N0 + (\<lceil>T\<rceil> + 1) * 10 ^ 9 \<le> N1"
  shows "T \<le> elapsed (reading N1) (reading N0)"
proof -
  define ds dn where "ds = fst (reading N1) - fst (reading N0)" and "dn = snd (reading N1) - snd (reading N0)"
  have c: "0 \<le> \<lceil>T\<rceil> + 1" "\<lceil>T\<rceil> + 1 < 2 ^ 53"
  proof -
    show "0 \<le> \<lceil>T\<rceil> + 1" using assms(2) by (simp add: le_ceiling_iff add_increasing)
    have "\<lceil>T\<rceil> \<le> 2 ^ 52" using assms(3) by (simp add: ceiling_le_iff)
    then show "\<lceil>T\<rceil> + 1 < 2 ^ 53" by simp
  qed
  have "(N0 + (\<lceil>T\<rceil> + 1) * 10 ^ 9) div 10 ^ 9 \<le> N1 div 10 ^ 9" using N by (rule zdiv_mono1) simp
  then have "\<lceil>T\<rceil> + 1 \<le> ds" unfolding ds_def reading_def by simp
  then have "rnd53 (of_int (\<lceil>T\<rceil> + 1)) \<le> rnd53 (of_int ds)" by (intro rnd53_mono) (simp only: of_int_le_iff)
  then have s: "of_int (\<lceil>T\<rceil> + 1) \<le> rnd53 (of_int ds)" unfolding rnd53_of_int [OF c] .
  have "- (10 ^ 9) \<le> dn" unfolding dn_def reading_def snd_conv
    using pos_mod_bound [of "10 ^ 9" N0] pos_mod_sign [of "10 ^ 9" N1] by simp
  then have "rnd53 (of_int (- (10 ^ 9))) \<le> rnd53 (of_int dn)" by (intro rnd53_mono) (simp only: of_int_le_iff)
  moreover have "rnd53 (of_int (- (10 ^ 9))) = - (10 ^ 9)" using rnd53_of_int [of "10 ^ 9"] by (simp add: rnd53_def)
  ultimately have "- (10 ^ 9) * rnd53 (1 / 10 ^ 9) \<le> rnd53 (of_int dn) * rnd53 (1 / 10 ^ 9)"
    using nano_bounds(1) by (intro mult_right_mono) simp_all
  then have "rnd53 (- (10 ^ 9) * rnd53 (1 / 10 ^ 9)) \<le> rnd53 (rnd53 (of_int dn) * rnd53 (1 / 10 ^ 9))" by (rule rnd53_mono)
  then have "- 1 \<le> rnd53 (rnd53 (of_int dn) * rnd53 (1 / 10 ^ 9))" by (simp only: nano_bounds(2))
  moreover have "T \<le> of_int \<lceil>T\<rceil>" by (rule le_of_int_ceiling)
  ultimately have "T \<le> rnd53 (of_int ds) + rnd53 (rnd53 (of_int dn) * rnd53 (1 / 10 ^ 9))"
    using s unfolding of_int_add of_int_1 by linarith
  then show ?thesis using rnd53_mono assms(1) unfolding elapsed_def ds_def [symmetric] dn_def [symmetric] by metis
qed

lemma every_16: "(word_of_nat (16 * k) :: u32) AND 15 = 0"
proof -
  have "(word_of_nat (16 * k) :: u32) = push_bit 4 (word_of_nat k)" by (simp add: push_bit_eq_mult)
  moreover have "(15 :: u32) = mask 4" by (simp add: mask_eq_exp_minus_1)
  ultimately show ?thesis by (simp only: take_bit_eq_mask [symmetric] take_bit_push_bit) simp
qed

lemma expired_breaks:
  assumes T: "time_passes env now shown" "steady shown K" and t: "rnd53 t = t" "rnd53 (1 / 10 ^ 9) < t" "t < 2 ^ 52"
    and w: "a0 + K * ((\<lceil>t\<rceil> + 1) * 10 ^ 9) \<le> now w"
  shows "\<exists>r w' tr'. spin_round env x86 state q (Fin t) (reading (shown a0)) w tr (word_of_nat (16 * k)) = Break r w' tr'"
proof -
  obtain res w1 where cb: "callback env w = (res, w1)" by fastforce
  obtain c w2 where cl: "clock_gettime env w1 = (c, w2)" by fastforce
  have late: "dge (elapsed t1 (reading (shown a0))) (Fin t)" if c: "c = Some t1" for t1
  proof -
    obtain a where a: "now w1 \<le> a" "t1 = reading (shown a)" using time_passesD(6) [OF T(1)] cl c by blast
    have "0 \<le> (\<lceil>t\<rceil> + 1) * 10 ^ 9" using t(2) nano_bounds(1) by (simp add: le_ceiling_iff add_increasing)
    then have "shown a0 + (\<lceil>t\<rceil> + 1) * 10 ^ 9 \<le> shown (a0 + K * ((\<lceil>t\<rceil> + 1) * 10 ^ 9))"
      using steady_advances [OF T(2), of a0 "nat ((\<lceil>t\<rceil> + 1) * 10 ^ 9)"] by simp
    also have "\<dots> \<le> shown a" using T(2) w time_passesD(1) [OF T(1) cb] a(1) by (simp add: steady_def monoD)
    finally have "t \<le> elapsed t1 (reading (shown a0))"
      unfolding a(2) using elapsed_reaches [OF t(1) _ t(3)] nano_bounds(1) t(2) by simp
    then show ?thesis by simp
  qed
  then show ?thesis using cb cl t(2) every_16 [of k]
    by (cases res; cases c) (auto simp: spin_round_def simp del: of_nat_mult)
qed

lemma spin_returns:
  assumes T: "time_passes env now shown" "steady shown K" and t: "rnd53 t = t" "rnd53 (1 / 10 ^ 9) < t" "t < 2 ^ 52"
    and B: "K * ((\<lceil>t\<rceil> + 1) * 10 ^ 9) \<le> int (16 * k)"
  shows "n \<le> 16 * k \<Longrightarrow> on_course now (Fin t) (reading (shown a0)) a0 w mid n \<Longrightarrow>
    \<exists>r w' mid' e n'. spin env x86 state q (Fin t) (reading (shown a0)) w (tr0 @ mid) (word_of_nat n) = Some (r, w', tr0 @ mid' @ [e])
      \<and> n' \<le> 16 * k \<and> on_course now (Fin t) (reading (shown a0)) a0 w' mid' n' \<and> final (Fin t) (reading (shown a0)) r e"
proof (induction n arbitrary: w mid rule: inc_induct)
  case base
  have "a0 + K * ((\<lceil>t\<rceil> + 1) * 10 ^ 9) \<le> now w" using base B by (simp add: on_course_def)
  then obtain r w' tr' where "spin_round env x86 state q (Fin t) (reading (shown a0)) w (tr0 @ mid) (word_of_nat (16 * k)) = Break r w' tr'"
    using expired_breaks [OF T t] by blast
  then show ?case using spin_round_ok [OF T(1) base, of tr0 x86 state q] by (subst spin.simps) (auto simp: round_ok_def simp del: of_nat_mult)
next
  case (step n)
  note ok = spin_round_ok [OF T(1) step.prems, of tr0 x86 state q]
  show ?case
  proof (cases "spin_round env x86 state q (Fin t) (reading (shown a0)) w (tr0 @ mid) (word_of_nat n)")
    case (Break r w' tr')
    then show ?thesis using ok step.hyps by (subst spin.simps) (auto simp: round_ok_def intro: less_imp_le)
  next
    case (Continue w' tr' i)
    then obtain mid' where "tr' = tr0 @ mid'" "on_course now (Fin t) (reading (shown a0)) a0 w' mid' (Suc n)" "i = word_of_nat (Suc n)"
      using ok by (auto simp: round_ok_def simp del: of_nat_Suc)
    then show ?thesis using step.IH [of w' mid'] Continue by (subst spin.simps) simp
  qed
qed

text \<open>C19. With a timeout above one nanosecond and below \<open>2 ^ 52\<close> seconds, waiting always returns, provided that no call turns time
  back, every pause and every hardware wait takes at least one unit of time, and the clock never goes backwards and moves on at least once
  in every \<open>K\<close> units.  It does so after at most \<open>K\<close> times the timeout, rounded up, plus one second in nanoseconds, and fifteen more
  waits.  The buffer is acquired and released exactly once.  The call returns \<open>True\<close> exactly when the last thing that happened is the
  callback returning \<open>True\<close>, \<open>False\<close> exactly when the clock showed the timeout to have passed, and raises exactly when the callback raised
  or the clock failed; nothing of this kind happened before, and every hardware wait follows an armed monitor and a fresh look at the
  callback.\<close>

theorem spinloop_returns:
  assumes "time_passes env now shown" "steady shown K" "is_callable args" "arg_timeout args = Some (Fin t)"
    and "rnd53 t = t" "rnd53 (1 / 10 ^ 9) < t" "t < 2 ^ 52"
  shows "\<exists>r w' tr. method_spinloop env x86 (Some state) (Some args) w = Some (r, w', tr) \<and>
    (tr = [Acquired, Clock None, Released] \<and> r = PyNull (RuntimeError ''clock_gettime() failed!'') \<or>
     (\<exists>t0 mid e. tr = [Acquired, Clock (Some t0)] @ mid @ [e, Released] \<and> list_all (pending (Fin t) t0) mid \<and>
        final (Fin t) t0 r e \<and> armed mid \<and> int (waits mid) \<le> K * ((\<lceil>t\<rceil> + 1) * 10 ^ 9) + 15))"
proof -
  obtain c w1 where cl: "clock_gettime env w = (c, w1)" by fastforce
  show ?thesis
  proof (cases c)
    case None
    then show ?thesis using cl assms(3) by (simp add: method_spinloop_def)
  next
    case (Some t0)
    then obtain a0 where a0: "a0 \<le> now w1" and t0: "t0 = reading (shown a0)" using time_passesD(6) [OF assms(1)] cl by blast
    define X where "X = nat (K * ((\<lceil>t\<rceil> + 1) * 10 ^ 9))"
    define k where "k = (X + 15) div 16"
    have "0 \<le> \<lceil>t\<rceil>" "0 < K" using assms(2,6) nano_bounds(1) by (simp_all add: le_ceiling_iff steady_def)
    then have X: "int X = K * ((\<lceil>t\<rceil> + 1) * 10 ^ 9)" unfolding X_def by simp
    have k: "X \<le> 16 * k" "16 * k \<le> X + 15" unfolding k_def by linarith+
    have "on_course now (Fin t) (reading (shown a0)) a0 w1 [] 0"
      using a0 by (simp add: on_course_def)
    from spin_returns [OF assms(1,2,5,6,7) _ _ this, of k x86 state "buffer_len args \<le> uint (max_monitor_line_size state)" "[Acquired, Clock (Some t0)]"]
    obtain r w' mid e n' where s: "spin env x86 state (buffer_len args \<le> uint (max_monitor_line_size state)) (Fin t) t0 w1 [Acquired, Clock (Some t0)] 0 =
        Some (r, w', [Acquired, Clock (Some t0)] @ mid @ [e])"
      and n: "n' \<le> 16 * k" "on_course now (Fin t) t0 a0 w' mid n'" "final (Fin t) t0 r e"
      using X k unfolding t0 by auto
    have "int (waits mid) \<le> K * ((\<lceil>t\<rceil> + 1) * 10 ^ 9) + 15" using n k X by (simp add: on_course_def)
    then show ?thesis using cl Some assms(3,4) s n by (cases t0) (auto simp: method_spinloop_def on_course_def)
  qed
qed

text \<open>A clock with ticks of four milliseconds: most readings repeat the one before.\<close>

definition coarse :: "int \<Rightarrow> int" where
  "coarse a = 4000000 * (a div 4000000)"

definition demo_env :: "int env" where
  "demo_env = \<lparr>callback = (\<lambda>w. (ResOther, w)), clock_gettime = (\<lambda>w. (Some (reading (coarse w)), w + 20)), mm_monitorx = (\<lambda>w. w),
     mm_mwaitx = (\<lambda>w. w + 1000), cpu_pause = (\<lambda>w. w + 100)\<rparr>"

definition demo_args :: spin_args where
  "demo_args = \<lparr>buffer_len = 64, is_callable = True, arg_timeout = Some (Fin (1 / 2))\<rparr>"

lemma coarse_steady: "steady coarse 4000000"
proof -
  have "(a + 4000000) div 4000000 = a div 4000000 + 1" for a :: int by simp
  then show ?thesis by (auto simp: steady_def coarse_def intro!: monoI zdiv_mono1)
qed

theorem spinloop_returns_witness:
  "rnd53 (1 / 2) = 1 / 2 \<and> time_passes demo_env (\<lambda>w. w) coarse \<and> steady coarse 4000000 \<and>
   (\<exists>r w' tr. method_spinloop demo_env True (Some \<lparr>cpu_support = 1, max_monitor_line_size = 64\<rparr>) (Some demo_args) 0 = Some (r, w', tr))"
proof -
  have p: "(2 :: rat) powi - 1 = 1 / 2" "(2 :: rat) powi - 53 = 1 / 2 ^ 53" by (simp_all add: power_int_minus inverse_eq_divide)
  have e: "expo (1 / 2) = - 1" by (rule expo_eqI) (simp_all add: p)
  have "half_even (1 / 2 * 2 powi (52 - - 1)) = 2 ^ 52" by (rule half_even_eqI) simp_all
  from rnd_pos_eqI [OF e this] have half: "rnd53 (1 / 2) = 1 / 2" by (simp add: rnd53_def p)
  have T: "time_passes demo_env (\<lambda>w. w) coarse" by (auto simp: time_passes_def demo_env_def)
  have "rnd53 (1 / 10 ^ 9) < 1 / 2" unfolding nano by simp
  then show ?thesis using half T coarse_steady
    spinloop_returns [OF T coarse_steady _ _ half, of demo_args True "\<lparr>cpu_support = 1, max_monitor_line_size = 64\<rparr>" 0]
    by (simp add: demo_args_def) blast
qed

end
