(* ===== verification/Cumem.thy ===== *)
theory Cumem
  imports Vmm_Safety
begin

text \<open>
  The sleep-mode allocator, \<open>src/csrc/cumem_allocator.cpp\<close>, for both of its builds: CUDA, where an allocation has one physical
  handle, and ROCm, where it has a list of chunks.

  The driver is an argument of every operation: a record of functions on an abstract state that return a status, \<open>0\<close> for success.
  The Python callbacks are functions on an abstract interpreter state.  The state \<open>cumem\<close> holds both, the globals of the file
  (\<open>error_code\<close> is not reset by \<open>my_malloc\<close> and \<open>my_free\<close>), the depth of the held interpreter lock, and the C heap cells that hold physical
  handles: \<open>malloc\<close> gives a new cell or fails, as \<open>malloc_ok\<close> says.  An access to a cell that is not allocated and a division by a zero
  granularity are undefined behaviour, and make the operation \<open>None\<close>.  The printed messages and the Python reference counts are
  left out; objects of the interpreter are always built.
\<close>

section \<open>Driver, interpreter and state\<close>

datatype handle_type = Default_handle | Fabric | Posix_fd

datatype attribute = Rdma_supported | Fabric_supported

record alloc_prop =
  prop_device :: nat
  prop_rdma :: bool
  prop_handle :: handle_type

record 'd cu =
  ctx_get_current :: "'d \<Rightarrow> nat \<times> nat \<times> 'd"
  ctx_retain :: "nat \<Rightarrow> 'd \<Rightarrow> nat \<times> nat \<times> 'd"
  ctx_set_current :: "nat \<Rightarrow> 'd \<Rightarrow> nat \<times> 'd"
  device_attribute :: "attribute \<Rightarrow> nat \<Rightarrow> 'd \<Rightarrow> nat \<times> int"
  granularity :: "alloc_prop \<Rightarrow> 'd \<Rightarrow> nat \<times> nat"
  mem_create :: "alloc_prop \<Rightarrow> nat \<Rightarrow> 'd \<Rightarrow> nat \<times> nat \<times> 'd"
  mem_release :: "nat \<Rightarrow> 'd \<Rightarrow> nat \<times> 'd"
  mem_map :: "nat \<Rightarrow> nat \<Rightarrow> nat \<Rightarrow> 'd \<Rightarrow> nat \<times> 'd"
  mem_unmap :: "nat \<Rightarrow> nat \<Rightarrow> 'd \<Rightarrow> nat \<times> 'd"
  mem_set_access :: "nat \<Rightarrow> nat \<Rightarrow> nat \<Rightarrow> nat \<Rightarrow> 'd \<Rightarrow> nat \<times> 'd"
  address_reserve :: "nat \<Rightarrow> nat \<Rightarrow> nat \<Rightarrow> 'd \<Rightarrow> nat \<times> nat \<times> 'd"
  address_free :: "nat \<Rightarrow> nat \<Rightarrow> 'd \<Rightarrow> nat \<times> 'd"

text \<open>The fourth member of a handle tuple: the address of a handle cell, or the list of the cells and sizes of the chunks.\<close>

datatype mem_arg = Handle nat | Chunks "(nat \<times> nat) list"

type_synonym handle_tuple = "nat \<times> nat \<times> nat \<times> mem_arg"

text \<open>What Python passes or returns: not a tuple of size four (or nothing), a tuple that does not parse, a handle tuple, or a handle tuple whose list
  has an item that is not a pair of integers.\<close>

datatype py_obj = Not_a_tuple | Unparsable | Tuple handle_tuple | Bad_chunks nat nat nat

record ('c, 'p) interp =
  call_malloc :: "'c \<Rightarrow> handle_tuple \<Rightarrow> 'p \<Rightarrow> bool \<times> 'p"
  call_free :: "'c \<Rightarrow> nat \<Rightarrow> 'p \<Rightarrow> py_obj \<times> 'p"

datatype cu_msg = No_message | Cuda_error nat | Re_reserve nat nat

record ('d, 'c, 'p) cumem =
  dev_state :: 'd
  py_state :: 'p
  error_code :: nat
  error_msg :: cu_msg
  malloc_callback :: "'c option"
  free_callback :: "'c option"
  cells :: "nat \<Rightarrow> nat option"
  requests :: nat
  malloc_ok :: "nat \<Rightarrow> bool"
  gil :: nat

text \<open>Results of the functions that Python calls.\<close>

datatype py_error = Type_error string | Memory_error string | Runtime_error cu_msg | Parse_error

type_synonym py_status = "py_error option"

section \<open>The C heap\<close>

definition new_cell :: "('d, 'c, 'p) cumem \<Rightarrow> nat option \<times> ('d, 'c, 'p) cumem" where
  "new_cell s =
     (let s1 = s\<lparr>requests := Suc (requests s)\<rparr> in
      if malloc_ok s (requests s) then (Some (Suc (requests s)), s1\<lparr>cells := (cells s)(Suc (requests s) \<mapsto> 0)\<rparr>) else (None, s1))"

definition new_array :: "('d, 'c, 'p) cumem \<Rightarrow> bool \<times> ('d, 'c, 'p) cumem" where
  "new_array s = (malloc_ok s (requests s), s\<lparr>requests := Suc (requests s)\<rparr>)"

definition load_cell :: "nat \<Rightarrow> ('d, 'c, 'p) cumem \<Rightarrow> nat option" where
  "load_cell p s = cells s p"

definition store_cell :: "nat \<Rightarrow> nat \<Rightarrow> ('d, 'c, 'p) cumem \<Rightarrow> ('d, 'c, 'p) cumem option" where
  "store_cell p h s = (if cells s p = None then None else Some (s\<lparr>cells := (cells s)(p \<mapsto> h)\<rparr>))"

definition free_cell :: "nat \<Rightarrow> ('d, 'c, 'p) cumem \<Rightarrow> ('d, 'c, 'p) cumem option" where
  "free_cell p s = (if p = 0 then Some s else if cells s p = None then None else Some (s\<lparr>cells := (cells s)(p := None)\<rparr>))"

primrec free_cells :: "nat list \<Rightarrow> ('d, 'c, 'p) cumem \<Rightarrow> ('d, 'c, 'p) cumem option" where
  "free_cells [] s = Some s"
| "free_cells (p # ps) s = do { s1 \<leftarrow> free_cell p s; free_cells ps s1 }"

section \<open>Helpers\<close>

definition DEFAULT_MEMCREATE_CHUNK_SIZE :: nat where
  "DEFAULT_MEMCREATE_CHUNK_SIZE = 256 * 1024 * 1024"

definition CUDA_ERROR_NOT_PERMITTED :: nat where
  "CUDA_ERROR_NOT_PERMITTED = 800"

definition CUDA_ERROR_NOT_SUPPORTED :: nat where
  "CUDA_ERROR_NOT_SUPPORTED = 801"

text \<open>\<open>strtoull\<close> with base zero: spaces, a sign, and the digits of a hexadecimal, octal or decimal number.  Nothing is returned when there are
  no digits (\<open>endptr == env\<close>) or the value does not fit (\<open>errno\<close> is set); a negated value wraps around.\<close>

definition is_space :: "char \<Rightarrow> bool" where
  "is_space c \<longleftrightarrow> c = CHR '' '' \<or> 9 \<le> (of_char c :: nat) \<and> (of_char c :: nat) \<le> 13"

definition digit_value :: "char \<Rightarrow> nat" where
  "digit_value c =
     (let n = of_char c in
      if 48 \<le> n \<and> n \<le> 57 then n - 48 else if 97 \<le> n \<and> n \<le> 122 then n - 87 else if 65 \<le> n \<and> n \<le> 90 then n - 55 else 99)"

definition base_and_digits :: "string \<Rightarrow> nat \<times> string" where
  "base_and_digits s =
     (case s of
        c # x # d # r \<Rightarrow>
          if c = CHR ''0'' \<and> (x = CHR ''x'' \<or> x = CHR ''X'') \<and> digit_value d < 16 then (16, d # r)
          else if c = CHR ''0'' then (8, s) else (10, s)
      | c # r \<Rightarrow> if c = CHR ''0'' then (8, s) else (10, s)
      | [] \<Rightarrow> (10, s))"

definition strtoull :: "string \<Rightarrow> nat option" where
  "strtoull s =
     (let s1 = dropWhile is_space s;
          neg = (s1 \<noteq> [] \<and> hd s1 = CHR ''-'');
          s2 = (if s1 \<noteq> [] \<and> (hd s1 = CHR ''-'' \<or> hd s1 = CHR ''+'') then tl s1 else s1);
          (base, s3) = base_and_digits s2;
          digits = takeWhile (\<lambda>c. digit_value c < base) s3;
          v = foldl (\<lambda>acc c. acc * base + digit_value c) 0 digits
      in if digits = [] \<or> v \<ge> 2 ^ 64 then None else Some (if neg then wrap64 (2 ^ 64 - v) else v))"

text \<open>The argument is the value of the environment variable, if it is set.\<close>

definition get_memcreate_chunk_size :: "string option \<Rightarrow> nat" where
  "get_memcreate_chunk_size env =
     (case env of None \<Rightarrow> DEFAULT_MEMCREATE_CHUNK_SIZE
      | Some text \<Rightarrow>
        (case strtoull text of None \<Rightarrow> DEFAULT_MEMCREATE_CHUNK_SIZE
         | Some val_mb \<Rightarrow>
             if val_mb = 0 then DEFAULT_MEMCREATE_CHUNK_SIZE
             else let MB = 1024 * 1024 in
               if val_mb > (2 ^ 64 - 1) div MB then DEFAULT_MEMCREATE_CHUNK_SIZE else val_mb * MB))"

definition my_min :: "nat \<Rightarrow> nat \<Rightarrow> nat" where
  "my_min a b = (if a < b then a else b)"

definition cuda_check :: "nat \<Rightarrow> ('d, 'c, 'p) cumem \<Rightarrow> ('d, 'c, 'p) cumem" where
  "cuda_check error s = (if error \<noteq> 0 then s\<lparr>error_code := error, error_msg := Cuda_error error\<rparr> else s)"

text \<open>A driver call that returns only a status.\<close>

definition drv :: "('d \<Rightarrow> nat \<times> 'd) \<Rightarrow> ('d, 'c, 'p) cumem \<Rightarrow> nat \<times> ('d, 'c, 'p) cumem" where
  "drv f s = (let (e, d) = f (dev_state s) in (e, s\<lparr>dev_state := d\<rparr>))"

definition check_drv :: "('d \<Rightarrow> nat \<times> 'd) \<Rightarrow> ('d, 'c, 'p) cumem \<Rightarrow> ('d, 'c, 'p) cumem" where
  "check_drv f s = (let (e, s1) = drv f s in cuda_check e s1)"

definition ignore_drv :: "('d \<Rightarrow> nat \<times> 'd) \<Rightarrow> ('d, 'c, 'p) cumem \<Rightarrow> ('d, 'c, 'p) cumem" where
  "ignore_drv f s = snd (drv f s)"

definition reserve_rocm_address ::
  "'d cu \<Rightarrow> nat \<Rightarrow> nat \<Rightarrow> nat \<Rightarrow> ('d, 'c, 'p) cumem \<Rightarrow> nat \<times> nat \<times> ('d, 'c, 'p) cumem" where
  "reserve_rocm_address cu sz alignment addr s =
     (let (status, d_mem, d) = address_reserve cu sz alignment addr (dev_state s); s1 = s\<lparr>dev_state := d\<rparr> in
      if status = 0 \<or> alignment = 0 then (status, d_mem, s1)
      else let (status, d_mem, d) = address_reserve cu sz 0 addr (dev_state s1); s2 = s1\<lparr>dev_state := d\<rparr> in
        if status \<noteq> 0 then (status, d_mem, s2)
        else if d_mem mod alignment = 0 then (status, d_mem, s2)
        else (CUDA_ERROR_NOT_SUPPORTED, d_mem, ignore_drv (address_free cu d_mem sz) s2))"

definition ensure_context :: "'d cu \<Rightarrow> nat \<Rightarrow> ('d, 'c, 'p) cumem \<Rightarrow> ('d, 'c, 'p) cumem" where
  "ensure_context cu device s =
     (let (e, pctx, d) = ctx_get_current cu (dev_state s); s1 = cuda_check e (s\<lparr>dev_state := d\<rparr>) in
      if pctx = 0 then
        (let (e, pctx, d) = ctx_retain cu device (dev_state s1); s2 = cuda_check e (s1\<lparr>dev_state := d\<rparr>) in
         check_drv (ctx_set_current cu pctx) s2)
      else s1)"

text \<open>\<open>cuMemCreate(p_memHandle, ...)\<close>: the handle is stored when the call succeeds.\<close>

definition create_into :: "'d cu \<Rightarrow> alloc_prop \<Rightarrow> nat \<Rightarrow> nat \<Rightarrow> ('d, 'c, 'p) cumem \<Rightarrow> (nat \<times> ('d, 'c, 'p) cumem) option" where
  "create_into cu prop sz p s =
     (let (ret, h, d) = mem_create cu prop sz (dev_state s); s1 = s\<lparr>dev_state := d\<rparr> in
      if ret = 0 then map_option (\<lambda>s2. (ret, s2)) (store_cell p h s1) else Some (ret, s1))"

section \<open>Mapping and unmapping, CUDA build\<close>

definition base_prop :: "nat \<Rightarrow> alloc_prop" where
  "base_prop device = \<lparr>prop_device = device, prop_rdma = False, prop_handle = Default_handle\<rparr>"

text \<open>Creation of the handle, with the fallback from a fabric handle to a file descriptor.\<close>

definition create_handle :: "'d cu \<Rightarrow> nat \<Rightarrow> nat \<Rightarrow> nat \<Rightarrow> ('d, 'c, 'p) cumem \<Rightarrow> ('d, 'c, 'p) cumem option" where
  "create_handle cu device sz p_memHandle s = do {
     let (rdma_result, flag) = device_attribute cu Rdma_supported device (dev_state s);
     let prop1 = (base_prop device)\<lparr>prop_rdma := (rdma_result = 0 \<and> flag \<noteq> 0)\<rparr>;
     let (fab_result, fab_flag) = device_attribute cu Fabric_supported device (dev_state s);
     let prop2 = (if fab_result = 0 \<and> fab_flag \<noteq> 0 then prop1\<lparr>prop_handle := Fabric\<rparr> else prop1);
     (ret, s1) \<leftarrow> create_into cu prop2 sz p_memHandle s;
     if ret \<noteq> 0 then
       if fab_flag \<noteq> 0 \<and> (ret = CUDA_ERROR_NOT_PERMITTED \<or> ret = CUDA_ERROR_NOT_SUPPORTED) then do {
         (ret2, s2) \<leftarrow> create_into cu (prop2\<lparr>prop_handle := Posix_fd\<rparr>) sz p_memHandle s1;
         Some (cuda_check ret2 s2) }
       else Some (cuda_check ret s1)
     else Some s1 }"

definition create_and_map :: "'d cu \<Rightarrow> nat \<Rightarrow> nat \<Rightarrow> nat \<Rightarrow> nat \<Rightarrow> ('d, 'c, 'p) cumem \<Rightarrow> ('d, 'c, 'p) cumem option" where
  "create_and_map cu device sz d_mem p_memHandle s0 = do {
     s \<leftarrow> create_handle cu device sz p_memHandle (ensure_context cu device s0);
     if error_code s \<noteq> 0 then Some s
     else do {
       h \<leftarrow> load_cell p_memHandle s;
       let s1 = check_drv (mem_map cu d_mem sz h) s;
       if error_code s1 \<noteq> 0 then Some s1 else Some (check_drv (mem_set_access cu d_mem sz device 1) s1) } }"

definition unmap_and_release :: "'d cu \<Rightarrow> nat \<Rightarrow> nat \<Rightarrow> nat \<Rightarrow> nat \<Rightarrow> ('d, 'c, 'p) cumem \<Rightarrow> ('d, 'c, 'p) cumem option" where
  "unmap_and_release cu device sz d_mem p_memHandle s0 = do {
     let s = ensure_context cu device s0;
     let s1 = check_drv (mem_unmap cu d_mem sz) s;
     if error_code s1 \<noteq> 0 then Some s1
     else do { h \<leftarrow> load_cell p_memHandle s1; Some (check_drv (mem_release cu h) s1) } }"

section \<open>Mapping and unmapping, ROCm build\<close>

primrec release_chunks :: "'d cu \<Rightarrow> (nat \<times> nat) list \<Rightarrow> ('d, 'c, 'p) cumem \<Rightarrow> ('d, 'c, 'p) cumem option" where
  "release_chunks cu [] s = Some s"
| "release_chunks cu (c # cs) s = do { h \<leftarrow> load_cell (fst c) s; release_chunks cu cs (ignore_drv (mem_release cu h) s) }"

primrec unmap_chunks :: "'d cu \<Rightarrow> nat \<Rightarrow> nat \<Rightarrow> (nat \<times> nat) list \<Rightarrow> ('d, 'c, 'p) cumem \<Rightarrow> ('d, 'c, 'p) cumem" where
  "unmap_chunks cu d_mem unmapped_size [] s = s"
| "unmap_chunks cu d_mem unmapped_size (c # cs) s =
     unmap_chunks cu d_mem (wrap64 (unmapped_size + snd c)) cs (ignore_drv (mem_unmap cu (wrap64 (d_mem + unmapped_size)) (snd c)) s)"

text \<open>The two loops of \<open>create_and_map\<close>: the chunks that are done, and the ones to come.  The result says whether the loop ran through.\<close>

primrec create_chunks ::
  "'d cu \<Rightarrow> alloc_prop \<Rightarrow> (nat \<times> nat) list \<Rightarrow> (nat \<times> nat) list \<Rightarrow> ('d, 'c, 'p) cumem \<Rightarrow> (bool \<times> ('d, 'c, 'p) cumem) option" where
  "create_chunks cu prop cs_done [] s = Some (True, s)"
| "create_chunks cu prop cs_done (c # cs) s = do {
     (ret, s1) \<leftarrow> create_into cu prop (snd c) (fst c) s;
     let s2 = cuda_check ret s1;
     if error_code s2 \<noteq> 0 then map_option (\<lambda>s3. (False, s3)) (release_chunks cu cs_done s2)
     else create_chunks cu prop (cs_done @ [c]) cs s2 }"

primrec map_chunks ::
  "'d cu \<Rightarrow> nat \<Rightarrow> nat \<Rightarrow> (nat \<times> nat) list \<Rightarrow> (nat \<times> nat) list \<Rightarrow> ('d, 'c, 'p) cumem \<Rightarrow> (bool \<times> ('d, 'c, 'p) cumem) option" where
  "map_chunks cu d_mem allocated_size cs_done [] s = Some (True, s)"
| "map_chunks cu d_mem allocated_size cs_done (c # cs) s = do {
     h \<leftarrow> load_cell (fst c) s;
     let s1 = check_drv (mem_map cu (wrap64 (d_mem + allocated_size)) (snd c) h) s;
     if error_code s1 \<noteq> 0 then
       map_option (\<lambda>s3. (False, s3)) (release_chunks cu (cs_done @ c # cs) (unmap_chunks cu d_mem 0 cs_done s1))
     else map_chunks cu d_mem (wrap64 (allocated_size + snd c)) (cs_done @ [c]) cs s1 }"

definition create_and_map_rocm ::
  "'d cu \<Rightarrow> nat \<Rightarrow> nat \<Rightarrow> nat \<Rightarrow> nat \<Rightarrow> (nat \<times> nat) list \<Rightarrow> ('d, 'c, 'p) cumem \<Rightarrow> ('d, 'c, 'p) cumem option" where
  "create_and_map_rocm cu num_desc device sz d_mem chunks s0 = do {
     let s = ensure_context cu device s0;
     (created, s1) \<leftarrow> create_chunks cu (base_prop device) [] chunks s;
     if \<not> created then Some s1
     else do {
       (mapped, s2) \<leftarrow> map_chunks cu d_mem 0 [] chunks s1;
       if \<not> mapped then Some s2 else Some (check_drv (mem_set_access cu d_mem sz device num_desc) s2) } }"

text \<open>The loops of \<open>unmap_and_release\<close> keep the first error.\<close>

definition keep_first :: "nat \<Rightarrow> nat \<Rightarrow> nat" where
  "keep_first first_error status = (if status \<noteq> 0 \<and> first_error = 0 then status else first_error)"

primrec unmap_all ::
  "'d cu \<Rightarrow> nat \<Rightarrow> nat \<Rightarrow> nat \<Rightarrow> (nat \<times> nat) list \<Rightarrow> ('d, 'c, 'p) cumem \<Rightarrow> nat \<times> ('d, 'c, 'p) cumem" where
  "unmap_all cu d_mem allocated_size first_error [] s = (first_error, s)"
| "unmap_all cu d_mem allocated_size first_error (c # cs) s =
     (let (status, s1) = drv (mem_unmap cu (wrap64 (d_mem + allocated_size)) (snd c)) s in
      unmap_all cu d_mem (wrap64 (allocated_size + snd c)) (keep_first first_error status) cs s1)"

primrec release_all ::
  "'d cu \<Rightarrow> nat \<Rightarrow> (nat \<times> nat) list \<Rightarrow> ('d, 'c, 'p) cumem \<Rightarrow> (nat \<times> ('d, 'c, 'p) cumem) option" where
  "release_all cu first_error [] s = Some (first_error, s)"
| "release_all cu first_error (c # cs) s = do {
     h \<leftarrow> load_cell (fst c) s;
     let (status, s1) = drv (mem_release cu h) s;
     release_all cu (keep_first first_error status) cs s1 }"

definition unmap_and_release_rocm ::
  "'d cu \<Rightarrow> nat \<Rightarrow> nat \<Rightarrow> nat \<Rightarrow> (nat \<times> nat) list \<Rightarrow> ('d, 'c, 'p) cumem \<Rightarrow> ('d, 'c, 'p) cumem option" where
  "unmap_and_release_rocm cu device sz d_mem chunks s0 = do {
     let s = ensure_context cu device s0;
     let (first_error, s1) = unmap_all cu d_mem 0 0 chunks s;
     (first_error, s2) \<leftarrow> release_all cu first_error chunks s1;
     Some (if first_error \<noteq> 0 then cuda_check first_error s2 else s2) }"

section \<open>Allocation\<close>

definition create_tuple_from_c_integers :: "nat \<Rightarrow> nat \<Rightarrow> nat \<Rightarrow> nat \<Rightarrow> handle_tuple" where
  "create_tuple_from_c_integers a b c d = (a, b, c, Handle d)"

definition create_tuple_from_c_mixed :: "nat \<Rightarrow> nat \<Rightarrow> nat \<Rightarrow> nat list \<Rightarrow> nat list \<Rightarrow> handle_tuple" where
  "create_tuple_from_c_mixed a b c vec chunk_sizes = (a, b, c, Chunks (zip vec chunk_sizes))"

definition gil_ensure :: "('d, 'c, 'p) cumem \<Rightarrow> ('d, 'c, 'p) cumem" where
  "gil_ensure s = s\<lparr>gil := gil s + 1\<rparr>"

definition gil_release :: "('d, 'c, 'p) cumem \<Rightarrow> ('d, 'c, 'p) cumem" where
  "gil_release s = s\<lparr>gil := gil s - 1\<rparr>"

text \<open>\<open>((n + granularity - 1) / granularity) * granularity\<close> on \<open>size_t\<close>.\<close>

definition round_up :: "nat \<Rightarrow> nat \<Rightarrow> nat" where
  "round_up n g = wrap64 (n + g + (2 ^ 64 - 1)) div g * g"

text \<open>The call of the malloc callback; the result says whether it returned an object.\<close>

definition tell_python ::
  "('c, 'p) interp \<Rightarrow> 'c \<Rightarrow> handle_tuple \<Rightarrow> ('d, 'c, 'p) cumem \<Rightarrow> bool \<times> ('d, 'c, 'p) cumem" where
  "tell_python it cb arg_tuple s =
     (let s1 = gil_ensure s; (ok, py) = call_malloc it cb arg_tuple (py_state s1) in (ok, gil_release (s1\<lparr>py_state := py\<rparr>)))"

definition my_malloc ::
  "'d cu \<Rightarrow> ('c, 'p) interp \<Rightarrow> int \<Rightarrow> int \<Rightarrow> ('d, 'c, 'p) cumem \<Rightarrow> (nat option \<times> ('d, 'c, 'p) cumem) option" where
  "my_malloc cu it sz device s0 = do {
     let dev = as_size device;
     let s = ensure_context cu dev s0;
     let (e, gran) = granularity cu (base_prop dev) (dev_state s);
     let s1 = cuda_check e s;
     if error_code s1 \<noteq> 0 then Some (None, s1)
     else do {
       ensure (gran \<noteq> 0);
       let alignedSize = round_up (as_size sz) gran;
       let (e, d_mem, d) = address_reserve cu alignedSize 0 0 (dev_state s1);
       let s2 = cuda_check e (s1\<lparr>dev_state := d\<rparr>);
       if error_code s2 \<noteq> 0 then Some (None, s2)
       else do {
         let (cell, s3) = new_cell s2;
         let p_memHandle = (case cell of None \<Rightarrow> 0 | Some p \<Rightarrow> p);
         case malloc_callback s3 of None \<Rightarrow> Some (None, s3)
         | Some cb \<Rightarrow> do {
             let (ok, s4) = tell_python it cb (create_tuple_from_c_integers dev alignedSize d_mem p_memHandle) s3;
             if \<not> ok then Some (None, s4)
             else do {
               s5 \<leftarrow> create_and_map cu dev alignedSize d_mem p_memHandle s4;
               if error_code s5 \<noteq> 0 then
                 map_option (\<lambda>s6. (None, s6)) (free_cell p_memHandle (check_drv (address_free cu d_mem alignedSize) s5))
               else Some (Some d_mem, s5) } } } } }"

text \<open>The loop that allocates a handle cell per chunk; when \<open>malloc\<close> fails, the cells before are freed.\<close>

primrec alloc_chunks ::
  "nat \<Rightarrow> nat \<Rightarrow> nat list \<Rightarrow> (nat \<times> nat) list \<Rightarrow> ('d, 'c, 'p) cumem \<Rightarrow> ((nat \<times> nat) list option \<times> ('d, 'c, 'p) cumem) option" where
  "alloc_chunks alignedSize aligned_chunk_size [] cs s = Some (Some cs, s)"
| "alloc_chunks alignedSize aligned_chunk_size (i # is) cs s =
     (case new_cell s of
        (None, s1) \<Rightarrow> map_option (\<lambda>s2. (None, s2)) (free_cells (map fst cs) s1)
      | (Some p, s1) \<Rightarrow>
          alloc_chunks alignedSize aligned_chunk_size is
            (cs @ [(p, my_min (wrap64 (alignedSize + (2 ^ 64 - wrap64 (i * aligned_chunk_size)))) aligned_chunk_size)]) s1)"

text \<open>\<open>my_malloc\<close> after the address is reserved: the chunks, the callback and the mapping.\<close>

definition malloc_chunks ::
  "'d cu \<Rightarrow> ('c, 'p) interp \<Rightarrow> string option \<Rightarrow> nat \<Rightarrow> nat \<Rightarrow> nat \<Rightarrow> nat \<Rightarrow> nat \<Rightarrow> ('d, 'c, 'p) cumem
     \<Rightarrow> (nat option \<times> ('d, 'c, 'p) cumem) option" where
  "malloc_chunks cu it env num_desc dev gran alignedSize d_mem s = do {
     let base_chunk = get_memcreate_chunk_size env;
     let aligned_chunk_size = round_up base_chunk gran;
     ensure (aligned_chunk_size \<noteq> 0);
     let num_chunks = wrap64 (alignedSize + aligned_chunk_size + (2 ^ 64 - 1)) div aligned_chunk_size;
     let (ok1, s1) = new_array s;
     let (ok2, s2) = new_array s1;
     ensure (num_chunks = 0 \<or> ok1 \<and> ok2);
     (allocated, s3) \<leftarrow> alloc_chunks alignedSize aligned_chunk_size [0..<num_chunks] [] s2;
     case allocated of None \<Rightarrow> Some (None, s3)
     | Some chunks \<Rightarrow>
     (case malloc_callback s3 of None \<Rightarrow> Some (None, s3)
      | Some cb \<Rightarrow> do {
         let (ok, s4) = tell_python it cb (create_tuple_from_c_mixed dev alignedSize d_mem (map fst chunks) (map snd chunks)) s3;
         if \<not> ok then Some (None, s4)
         else do {
           s5 \<leftarrow> create_and_map_rocm cu num_desc dev alignedSize d_mem chunks s4;
           if error_code s5 \<noteq> 0 then
             map_option (\<lambda>s6. (None, s6)) (free_cells (map fst chunks) (check_drv (address_free cu d_mem alignedSize) s5))
           else Some (Some d_mem, s5) } }) }"

definition my_malloc_rocm ::
  "'d cu \<Rightarrow> ('c, 'p) interp \<Rightarrow> string option \<Rightarrow> nat \<Rightarrow> int \<Rightarrow> int \<Rightarrow> ('d, 'c, 'p) cumem \<Rightarrow> (nat option \<times> ('d, 'c, 'p) cumem) option" where
  "my_malloc_rocm cu it env num_desc sz device s0 = do {
     let dev = as_size device;
     let s = ensure_context cu dev s0;
     let (e, gran) = granularity cu (base_prop dev) (dev_state s);
     let s1 = cuda_check e s;
     if error_code s1 \<noteq> 0 then Some (None, s1)
     else do {
       ensure (gran \<noteq> 0);
       let alignedSize = round_up (as_size sz) gran;
       let (e, d_mem, s') = reserve_rocm_address cu alignedSize gran 0 s1;
       let s2 = cuda_check e s';
       if error_code s2 \<noteq> 0 then Some (None, s2) else malloc_chunks cu it env num_desc dev gran alignedSize d_mem s2 } }"

section \<open>Freeing\<close>

definition my_free :: "'d cu \<Rightarrow> ('c, 'p) interp \<Rightarrow> nat \<Rightarrow> int \<Rightarrow> int \<Rightarrow> ('d, 'c, 'p) cumem \<Rightarrow> ('d, 'c, 'p) cumem option" where
  "my_free cu it ptr sz device s0 =
     (case free_callback s0 of None \<Rightarrow> Some s0
      | Some cb \<Rightarrow>
        let s = gil_ensure s0; (res, py) = call_free it cb ptr (py_state s); s1 = s\<lparr>py_state := py\<rparr> in
        case res of
          Tuple (recv_device, recv_size, d_mem, Handle p_memHandle) \<Rightarrow> do {
            s2 \<leftarrow> unmap_and_release cu (as_size device) (as_size sz) d_mem p_memHandle (gil_release s1);
            free_cell p_memHandle (check_drv (address_free cu d_mem (as_size sz)) s2) }
        | _ \<Rightarrow> Some s1)"

definition my_free_rocm :: "'d cu \<Rightarrow> ('c, 'p) interp \<Rightarrow> nat \<Rightarrow> int \<Rightarrow> int \<Rightarrow> ('d, 'c, 'p) cumem \<Rightarrow> ('d, 'c, 'p) cumem option" where
  "my_free_rocm cu it ptr sz device s0 =
     (case free_callback s0 of None \<Rightarrow> Some s0
      | Some cb \<Rightarrow>
        let s = gil_ensure s0; (res, py) = call_free it cb ptr (py_state s); s1 = s\<lparr>py_state := py\<rparr> in
        case res of
          Not_a_tuple \<Rightarrow> Some s1
        | Unparsable \<Rightarrow> Some s1
        | Bad_chunks _ _ _ \<Rightarrow> None
        | Tuple (recv_device, recv_size, d_mem, Handle _) \<Rightarrow> Some (gil_release (s1\<lparr>requests := Suc (requests s1)\<rparr>))
        | Tuple (recv_device, recv_size, d_mem, Chunks chunks) \<Rightarrow>
            (let (ok1, s2) = new_array s1 in
             if \<not> ok1 then Some (gil_release s2)
             else let (ok2, s3) = new_array s2 in
             if \<not> ok2 then Some (gil_release s3)
             else do {
               let s4 = gil_release s3;
               s5 \<leftarrow> (if chunks \<noteq> [] then unmap_and_release_rocm cu (as_size device) (as_size sz) d_mem chunks s4 else Some s4);
               free_cells (map fst chunks) (check_drv (address_free cu d_mem (as_size sz)) s5) }))"

section \<open>Functions called from Python\<close>

definition py_init_module ::
  "(('c \<times> bool) \<times> ('c \<times> bool)) option \<Rightarrow> ('d, 'c, 'p) cumem \<Rightarrow> py_status \<times> ('d, 'c, 'p) cumem" where
  "py_init_module args s =
     (case args of None \<Rightarrow> (Some Parse_error, s)
      | Some ((m, m_callable), (f, f_callable)) \<Rightarrow>
          if \<not> m_callable \<or> \<not> f_callable then (Some (Type_error ''Both arguments must be callables''), s)
          else (None, s\<lparr>malloc_callback := Some m, free_callback := Some f\<rparr>))"

text \<open>An error is raised and forgotten.\<close>

definition raise_error :: "('d, 'c, 'p) cumem \<Rightarrow> py_status \<times> ('d, 'c, 'p) cumem" where
  "raise_error s = (if error_code s \<noteq> 0 then (Some (Runtime_error (error_msg s)), s\<lparr>error_code := 0\<rparr>) else (None, s))"

definition python_unmap_and_release ::
  "'d cu \<Rightarrow> py_obj \<Rightarrow> ('d, 'c, 'p) cumem \<Rightarrow> (py_status \<times> ('d, 'c, 'p) cumem) option" where
  "python_unmap_and_release cu args s =
     (case args of
        Not_a_tuple \<Rightarrow> Some (Some (Type_error ''Expected a tuple of size 4''), s)
      | Tuple (recv_device, recv_size, d_mem, Handle p_memHandle) \<Rightarrow>
          map_option raise_error (unmap_and_release cu recv_device recv_size d_mem p_memHandle s)
      | _ \<Rightarrow> Some (Some Parse_error, s))"

text \<open>Freeing the address and reserving it again, so that the physical memory is given back.\<close>

definition re_reserve :: "'d cu \<Rightarrow> nat \<Rightarrow> nat \<Rightarrow> ('d, 'c, 'p) cumem \<Rightarrow> ('d, 'c, 'p) cumem" where
  "re_reserve cu d_mem sz s =
     (if error_code s = 0 then
        (let s1 = check_drv (address_free cu d_mem sz) s in
         if error_code s1 = 0 then
           (let (e, new_addr, s2) = reserve_rocm_address cu sz 0 d_mem s1; s3 = cuda_check e s2 in
            if error_code s3 = 0 \<and> new_addr \<noteq> d_mem then
              (ignore_drv (address_free cu new_addr sz) s3)\<lparr>error_msg := Re_reserve d_mem new_addr, error_code := 1\<rparr>
            else s3)
         else s1)
      else s)"

definition python_unmap_and_release_rocm ::
  "'d cu \<Rightarrow> py_obj \<Rightarrow> ('d, 'c, 'p) cumem \<Rightarrow> (py_status \<times> ('d, 'c, 'p) cumem) option" where
  "python_unmap_and_release_rocm cu args s =
     (case args of
        Not_a_tuple \<Rightarrow> Some (Some (Type_error ''Expected a tuple of size 4''), s)
      | Unparsable \<Rightarrow> Some (Some Parse_error, s)
      | Tuple (_, _, _, Handle _) \<Rightarrow> Some (Some (Type_error ''Expected a list for the 4th argument on ROCm''), s)
      | _ \<Rightarrow>
          (let (ok1, s1) = new_array s in
           if \<not> ok1 then Some (Some (Memory_error ''malloc failed for p_memHandle''), s1)
           else let (ok2, s2) = new_array s1 in
           if \<not> ok2 then Some (Some (Memory_error ''malloc failed for chunk_sizes''), s2)
           else case args of
             Tuple (recv_device, recv_size, d_mem, Chunks chunks) \<Rightarrow> do {
               s3 \<leftarrow> unmap_and_release_rocm cu recv_device recv_size d_mem chunks s2;
               Some (raise_error (re_reserve cu d_mem recv_size s3)) }
           | _ \<Rightarrow> Some (Some (Type_error ''List items must be tuples of size 2 (handle_addr, size)''), s2)))"

definition python_create_and_map ::
  "'d cu \<Rightarrow> py_obj \<Rightarrow> ('d, 'c, 'p) cumem \<Rightarrow> (py_status \<times> ('d, 'c, 'p) cumem) option" where
  "python_create_and_map cu args s =
     (case args of
        Not_a_tuple \<Rightarrow> Some (Some (Type_error ''Expected a tuple of size 4''), s)
      | Tuple (recv_device, recv_size, d_mem, Handle p_memHandle) \<Rightarrow>
          map_option raise_error (create_and_map cu recv_device recv_size d_mem p_memHandle s)
      | _ \<Rightarrow> Some (Some Parse_error, s))"

definition python_create_and_map_rocm ::
  "'d cu \<Rightarrow> nat \<Rightarrow> py_obj \<Rightarrow> ('d, 'c, 'p) cumem \<Rightarrow> (py_status \<times> ('d, 'c, 'p) cumem) option" where
  "python_create_and_map_rocm cu num_desc args s =
     (case args of
        Not_a_tuple \<Rightarrow> Some (Some (Type_error ''Expected a tuple of size 4''), s)
      | Unparsable \<Rightarrow> Some (Some Parse_error, s)
      | Bad_chunks _ _ _ \<Rightarrow> None
      | Tuple (_, _, _, Handle _) \<Rightarrow> Some (Some (Memory_error ''malloc failed for p_memHandle''), s\<lparr>requests := Suc (requests s)\<rparr>)
      | Tuple (recv_device, recv_size, d_mem, Chunks chunks) \<Rightarrow>
          (let (ok1, s1) = new_array s in
           if \<not> ok1 then Some (Some (Memory_error ''malloc failed for p_memHandle''), s1)
           else let (ok2, s2) = new_array s1 in
           if \<not> ok2 then Some (Some (Memory_error ''malloc failed for chunk_sizes''), s2)
           else map_option raise_error (create_and_map_rocm cu num_desc recv_device recv_size d_mem chunks s2)))"

end
