(* ===== verification/Cumem_Cycle.thy ===== *)
theory Cumem_Cycle
  imports Cumem
begin

text \<open>
  Sleeping and waking of an allocation, over the model of \<open>cumem_allocator.cpp\<close> in \<open>Cumem\<close> and the registry that
  \<open>src/sonar/device_allocator/cumem.py\<close> keeps through its callbacks.

  The documented effects of the driver calls are the hypothesis \<open>cu_laws b cu V g\<close>, over the view of a driver state of \<open>Vmm_Safety\<close> (live
  handles, reserved addresses, backing) with the addresses whose physical memory is resident, which the two builds give back differently.  \<open>awake\<close> and \<open>asleep\<close> say what an allocation holds; the locale \<open>sleepable\<close> is the contract between
  the two functions that Python calls and the registry, and both builds provide it.
\<close>

section \<open>The registry\<close>

record alloc_data =
  ad_handle :: handle_tuple
  is_asleep :: bool

type_synonym registry = "nat \<Rightarrow> alloc_data option"

datatype build = CUDA | ROCm

definition python_malloc_callback :: "handle_tuple \<Rightarrow> registry \<Rightarrow> registry" where
  "python_malloc_callback h reg = reg(fst (snd (snd h)) \<mapsto> \<lparr>ad_handle = h, is_asleep = False\<rparr>)"

definition python_free_callback :: "build \<Rightarrow> nat \<Rightarrow> registry \<Rightarrow> py_obj \<times> registry" where
  "python_free_callback b ptr reg =
     (case reg ptr of None \<Rightarrow> (Not_a_tuple, reg)
      | Some data \<Rightarrow>
          (case ad_handle data of (device, sz, d_mem, arg) \<Rightarrow>
             (Tuple (if is_asleep data \<and> b = ROCm then (device, sz, d_mem, Chunks []) else (device, sz, d_mem, arg)), reg(ptr := None))))"

definition sonar_interp :: "build \<Rightarrow> ('c, registry) interp" where
  "sonar_interp b = \<lparr>call_malloc = (\<lambda>_ h reg. (True, python_malloc_callback h reg)), call_free = (\<lambda>_ ptr reg. python_free_callback b ptr reg)\<rparr>"

type_synonym ('d, 'c) state = "('d, 'c, registry) cumem"

definition put_to_sleep ::
  "(py_obj \<Rightarrow> ('d, 'c) state \<Rightarrow> (py_status \<times> ('d, 'c) state) option) \<Rightarrow> nat \<Rightarrow> ('d, 'c) state \<Rightarrow> (py_status \<times> ('d, 'c) state) option" where
  "put_to_sleep unmap ptr s = do {
     data \<leftarrow> py_state s ptr;
     (st, s1) \<leftarrow> unmap (Tuple (ad_handle data)) s;
     Some (st, s1\<lparr>py_state := (py_state s1)(ptr \<mapsto> data\<lparr>is_asleep := True\<rparr>)\<rparr>) }"

definition wake_up ::
  "(py_obj \<Rightarrow> ('d, 'c) state \<Rightarrow> (py_status \<times> ('d, 'c) state) option) \<Rightarrow> nat \<Rightarrow> ('d, 'c) state \<Rightarrow> (py_status \<times> ('d, 'c) state) option" where
  "wake_up remap ptr s = do {
     data \<leftarrow> py_state s ptr;
     (st, s1) \<leftarrow> remap (Tuple (ad_handle data)) s;
     Some (st, if st = None then s1\<lparr>py_state := (py_state s1)(ptr \<mapsto> data\<lparr>is_asleep := False\<rparr>)\<rparr> else s1) }"

text \<open>The functions of each build.\<close>

definition unmap_op :: "build \<Rightarrow> 'd cu \<Rightarrow> py_obj \<Rightarrow> ('d, 'c, 'p) cumem \<Rightarrow> (py_status \<times> ('d, 'c, 'p) cumem) option" where
  "unmap_op b cu = (case b of CUDA \<Rightarrow> python_unmap_and_release cu | ROCm \<Rightarrow> python_unmap_and_release_rocm cu)"

definition remap_op :: "build \<Rightarrow> 'd cu \<Rightarrow> nat \<Rightarrow> py_obj \<Rightarrow> ('d, 'c, 'p) cumem \<Rightarrow> (py_status \<times> ('d, 'c, 'p) cumem) option" where
  "remap_op b cu num_desc = (case b of CUDA \<Rightarrow> python_create_and_map cu | ROCm \<Rightarrow> python_create_and_map_rocm cu num_desc)"

definition malloc_op ::
  "build \<Rightarrow> 'd cu \<Rightarrow> string option \<Rightarrow> nat \<Rightarrow> int \<Rightarrow> int \<Rightarrow> ('d, 'c) state \<Rightarrow> (nat option \<times> ('d, 'c) state) option" where
  "malloc_op b cu env num_desc sz device s =
     (case b of CUDA \<Rightarrow> my_malloc cu (sonar_interp b) sz device s | ROCm \<Rightarrow> my_malloc_rocm cu (sonar_interp b) env num_desc sz device s)"

definition free_op :: "build \<Rightarrow> 'd cu \<Rightarrow> nat \<Rightarrow> int \<Rightarrow> int \<Rightarrow> ('d, 'c) state \<Rightarrow> ('d, 'c) state option" where
  "free_op b cu ptr sz device s =
     (case b of CUDA \<Rightarrow> my_free cu (sonar_interp b) ptr sz device s | ROCm \<Rightarrow> my_free_rocm cu (sonar_interp b) ptr sz device s)"

text \<open>Any number of sleeps and wakes of one allocation that raise no error.\<close>

inductive sleep_cycle ::
  "(py_obj \<Rightarrow> ('d, 'c) state \<Rightarrow> (py_status \<times> ('d, 'c) state) option) \<Rightarrow> (py_obj \<Rightarrow> ('d, 'c) state \<Rightarrow> (py_status \<times> ('d, 'c) state) option)
     \<Rightarrow> nat \<Rightarrow> ('d, 'c) state \<Rightarrow> ('d, 'c) state \<Rightarrow> bool"
  for unmap remap ptr s0 where
  Start: "sleep_cycle unmap remap ptr s0 s0"
| Sleep: "sleep_cycle unmap remap ptr s0 s \<Longrightarrow> py_state s ptr = Some data \<Longrightarrow> \<not> is_asleep data \<Longrightarrow>
    put_to_sleep unmap ptr s = Some (None, s') \<Longrightarrow> sleep_cycle unmap remap ptr s0 s'"
| Wake: "sleep_cycle unmap remap ptr s0 s \<Longrightarrow> py_state s ptr = Some data \<Longrightarrow> is_asleep data \<Longrightarrow>
    wake_up remap ptr s = Some (None, s') \<Longrightarrow> sleep_cycle unmap remap ptr s0 s'"

section \<open>The contract of the two operations\<close>

locale sleepable =
  fixes unmap remap :: "py_obj \<Rightarrow> ('d, 'c) state \<Rightarrow> (py_status \<times> ('d, 'c) state) option"
    and up down :: "('d, 'c) state \<Rightarrow> handle_tuple \<Rightarrow> bool"
  assumes unmap_down: "up s h \<Longrightarrow> unmap (Tuple h) s = Some (None, s') \<Longrightarrow> down s' h"
    and remap_up: "down s h \<Longrightarrow> remap (Tuple h) s = Some (None, s') \<Longrightarrow> up s' h"
    and up_reg: "up (s\<lparr>py_state := reg\<rparr>) h = up s h"
    and down_reg: "down (s\<lparr>py_state := reg\<rparr>) h = down s h"
begin

lemma cycle_phase:
  assumes "sleep_cycle unmap remap ptr s0 s" "py_state s0 ptr = Some \<lparr>ad_handle = h, is_asleep = False\<rparr>" "up s0 h"
  shows "\<exists>a. py_state s ptr = Some \<lparr>ad_handle = h, is_asleep = a\<rparr> \<and> (if a then down s h else up s h)"
  using assms
proof (induction rule: sleep_cycle.induct)
  case Start then show ?case by auto
next
  case (Sleep s data s')
  then have d: "data = \<lparr>ad_handle = h, is_asleep = False\<rparr>" "up s h" by auto
  obtain s1 where s1: "unmap (Tuple h) s = Some (None, s1)" "s' = s1\<lparr>py_state := (py_state s1)(ptr \<mapsto> data\<lparr>is_asleep := True\<rparr>)\<rparr>"
    using Sleep.hyps(2,4) d(1) by (auto simp: put_to_sleep_def split: Option.bind_splits)
  have "down s' h" unfolding s1(2) down_reg by (rule unmap_down [OF d(2) s1(1)])
  then show ?case using d(1) s1(2) by auto
next
  case (Wake s data s')
  then have d: "data = \<lparr>ad_handle = h, is_asleep = True\<rparr>" "down s h" by auto
  obtain s1 where s1: "remap (Tuple h) s = Some (None, s1)" "s' = s1\<lparr>py_state := (py_state s1)(ptr \<mapsto> data\<lparr>is_asleep := False\<rparr>)\<rparr>"
    using Wake.hyps(2,4) d(1) by (auto simp: wake_up_def split: Option.bind_splits)
  have "up s' h" unfolding s1(2) up_reg by (rule remap_up [OF d(2) s1(1)])
  then show ?case using d(1) s1(2) by auto
qed

end

section \<open>Driver laws and what an allocation holds\<close>

text \<open>Besides the live handles, the reserved addresses and the backing, the view of a driver has the addresses whose range occupies physical
  memory.  With CUDA an address is resident while it is mapped.  With ROCm the memory that has been mapped into a range stays resident when it
  is unmapped and its handle is released, until the address range is freed.\<close>

record cu_view = view +
  resident :: "nat set"

definition cu_laws :: "build \<Rightarrow> 'd cu \<Rightarrow> ('d \<Rightarrow> cu_view) \<Rightarrow> nat \<Rightarrow> bool" where
  "cu_laws b cu V g \<longleftrightarrow>
     (\<forall>d e x d'. ctx_get_current cu d = (e, x, d') \<longrightarrow> V d' = V d) \<and>
     (\<forall>i d e x d'. ctx_retain cu i d = (e, x, d') \<longrightarrow> V d' = V d) \<and>
     (\<forall>x d e d'. ctx_set_current cu x d = (e, d') \<longrightarrow> V d' = V d) \<and>
     (\<forall>q d e n. granularity cu q d = (e, n) \<longrightarrow> e = 0 \<longrightarrow> n = g) \<and>
     (\<forall>q n d e h d'. mem_create cu q n d = (e, h, d') \<longrightarrow>
        (if e = 0 then h \<notin> live (V d) \<and> V d' = (V d)\<lparr>live := insert h (live (V d))\<rparr> else V d' = V d)) \<and>
     (\<forall>h d e d'. mem_release cu h d = (e, d') \<longrightarrow> V d' = (if e = 0 then (V d)\<lparr>live := live (V d) - {h}\<rparr> else V d)) \<and>
     (\<forall>a n h d e d'. mem_map cu a n h d = (e, d') \<longrightarrow>
        V d' = (if e = 0 then (V d)\<lparr>backing := set_span a n (Some h) (backing (V d)), resident := resident (V d) \<union> span a n\<rparr> else V d)) \<and>
     (\<forall>a n d e d'. mem_unmap cu a n d = (e, d') \<longrightarrow>
        V d' = (if e = 0 then (V d)\<lparr>backing := set_span a n None (backing (V d)),
            resident := (case b of CUDA \<Rightarrow> resident (V d) - span a n | ROCm \<Rightarrow> resident (V d))\<rparr> else V d)) \<and>
     (\<forall>a n i k d e d'. mem_set_access cu a n i k d = (e, d') \<longrightarrow> V d' = V d) \<and>
     (\<forall>n al hint d e a d'. address_reserve cu n al hint d = (e, a, d') \<longrightarrow>
        (if e = 0 then a + n \<le> 2 ^ 64 \<and> span a n \<inter> reserved (V d) = {} \<and> V d' = (V d)\<lparr>reserved := reserved (V d) \<union> span a n\<rparr> else V d' = V d)) \<and>
     (\<forall>a n d e d'. address_free cu a n d = (e, d') \<longrightarrow>
        V d' = (if e = 0 then (V d)\<lparr>reserved := reserved (V d) - span a n, resident := resident (V d) - span a n\<rparr> else V d))"

text \<open>The pieces of physical memory of an allocation: the cell that holds the handle, and the size.\<close>

fun pieces :: "handle_tuple \<Rightarrow> (nat \<times> nat) list" where
  "pieces (device, sz, d_mem, Handle p) = [(p, sz)]"
| "pieces (device, sz, d_mem, Chunks cs) = cs"

definition handles :: "('d, 'c, 'p) cumem \<Rightarrow> (nat \<times> nat) list \<Rightarrow> nat list" where
  "handles s cs = map (\<lambda>c. the (cells s (fst c))) cs"

primrec layout :: "nat \<Rightarrow> (nat \<times> nat) list \<Rightarrow> (nat \<Rightarrow> nat option) \<Rightarrow> (nat \<Rightarrow> nat option) \<Rightarrow> nat \<Rightarrow> nat option" where
  "layout a [] hs b = b"
| "layout a (c # cs) hs b = layout (a + snd c) cs hs (set_span a (snd c) (hs (fst c)) b)"

definition total_size :: "(nat \<times> nat) list \<Rightarrow> nat" where
  "total_size cs = sum_list (map snd cs)"

text \<open>The parts common to all phases: the tuple fits the build, its pieces cover the range exactly, every piece has its cell, and the range is
  reserved on top of what was reserved before.  An allocation is idle when it holds nothing else; asleep, when its cells also hold
  handles of its own.\<close>

definition well_placed :: "build \<Rightarrow> ('d \<Rightarrow> cu_view) \<Rightarrow> cu_view \<Rightarrow> ('d, 'c, 'p) cumem \<Rightarrow> handle_tuple \<Rightarrow> bool" where
  "well_placed b V v0 s h =
     (case h of (device, sz, d_mem, arg) \<Rightarrow>
        (case arg of Handle p \<Rightarrow> b = CUDA | Chunks cs \<Rightarrow> b = ROCm) \<and> error_code s = 0 \<and>
        d_mem + sz \<le> 2 ^ 64 \<and> sz < 2 ^ 64 \<and> total_size (pieces h) = sz \<and> distinct (map fst (pieces h)) \<and>
        (\<forall>c \<in> set (pieces h). cells s (fst c) \<noteq> None) \<and>
        span d_mem sz \<inter> reserved v0 = {} \<and> reserved (V (dev_state s)) = reserved v0 \<union> span d_mem sz \<and>
        (\<forall>x. x \<notin> reserved v0 \<longrightarrow> backing v0 x = None) \<and> resident v0 \<subseteq> reserved v0)"

definition idle :: "build \<Rightarrow> 'd cu \<Rightarrow> ('d \<Rightarrow> cu_view) \<Rightarrow> nat \<Rightarrow> cu_view \<Rightarrow> ('d, 'c, 'p) cumem \<Rightarrow> handle_tuple \<Rightarrow> bool" where
  "idle b cu V g v0 s h \<longleftrightarrow> cu_laws b cu V g \<and> well_placed b V v0 s h \<and> live (V (dev_state s)) = live v0 \<and>
     backing (V (dev_state s)) = backing v0 \<and> resident (V (dev_state s)) = resident v0"

definition asleep :: "build \<Rightarrow> 'd cu \<Rightarrow> ('d \<Rightarrow> cu_view) \<Rightarrow> nat \<Rightarrow> cu_view \<Rightarrow> ('d, 'c, 'p) cumem \<Rightarrow> handle_tuple \<Rightarrow> bool" where
  "asleep b cu V g v0 s h \<longleftrightarrow> idle b cu V g v0 s h \<and> set (handles s (pieces h)) \<inter> live v0 = {}"

definition awake :: "build \<Rightarrow> 'd cu \<Rightarrow> ('d \<Rightarrow> cu_view) \<Rightarrow> nat \<Rightarrow> cu_view \<Rightarrow> ('d, 'c, 'p) cumem \<Rightarrow> handle_tuple \<Rightarrow> bool" where
  "awake b cu V g v0 s h \<longleftrightarrow> cu_laws b cu V g \<and> well_placed b V v0 s h \<and> distinct (handles s (pieces h)) \<and>
     set (handles s (pieces h)) \<inter> live v0 = {} \<and> live (V (dev_state s)) = live v0 \<union> set (handles s (pieces h)) \<and>
     backing (V (dev_state s)) = layout (fst (snd (snd h))) (pieces h) (cells s) (backing v0) \<and>
     resident (V (dev_state s)) = resident v0 \<union> span (fst (snd (snd h))) (fst (snd h))"

text \<open>Between the unmapping and the freeing of its addresses, an allocation of the ROCm build has given back its handles but not its memory.\<close>

definition unmapped :: "'d cu \<Rightarrow> ('d \<Rightarrow> cu_view) \<Rightarrow> nat \<Rightarrow> cu_view \<Rightarrow> ('d, 'c, 'p) cumem \<Rightarrow> handle_tuple \<Rightarrow> bool" where
  "unmapped cu V g v0 s h \<longleftrightarrow> cu_laws ROCm cu V g \<and> well_placed ROCm V v0 s h \<and> live (V (dev_state s)) = live v0 \<and>
     backing (V (dev_state s)) = backing v0 \<and> resident (V (dev_state s)) = resident v0 \<union> span (fst (snd (snd h))) (fst (snd h)) \<and>
     set (handles s (pieces h)) \<inter> live v0 = {}"

section \<open>Basic facts\<close>

lemma error_check [simp]: "error_code (cuda_check e s) = 0 \<longleftrightarrow> e = 0 \<and> error_code s = 0"
  by (simp add: cuda_check_def)

lemma cuda_check_0 [simp]: "cuda_check 0 s = s"
  by (simp add: cuda_check_def)

lemma check_fields [simp]: "dev_state (cuda_check e s) = dev_state s" "cells (cuda_check e s) = cells s" "py_state (cuda_check e s) = py_state s"
  "malloc_callback (cuda_check e s) = malloc_callback s"
  by (simp_all add: cuda_check_def)

lemma drv_fields: "drv f s = (e, s') \<Longrightarrow> cells s' = cells s \<and> error_code s' = error_code s \<and> py_state s' = py_state s \<and> f (dev_state s) = (e, dev_state s')"
  by (auto simp: drv_def split: prod.splits)

lemma check_drv_ok: "error_code (check_drv f s) = 0 \<Longrightarrow>
  error_code s = 0 \<and> f (dev_state s) = (0, dev_state (check_drv f s)) \<and> cells (check_drv f s) = cells s \<and> py_state (check_drv f s) = py_state s"
  using drv_fields [of f s] by (auto simp: check_drv_def split: prod.splits)

lemma ignore_drv_fields [simp]: "error_code (ignore_drv f s) = error_code s"
  by (simp add: ignore_drv_def drv_def split: prod.splits)

lemma layout_out: "x \<notin> span a (total_size cs) \<Longrightarrow> layout a cs hs b x = b x"
proof (induction cs arbitrary: a b)
  case (Cons c cs)
  then have "x \<notin> span (a + snd c) (total_size cs)" "x \<notin> span a (snd c)" by (auto simp: span_def total_size_def)
  then show ?case using Cons.IH by (simp add: set_span_def)
qed simp

lemma layout_none: "layout a cs (\<lambda>_. None) b = set_span a (total_size cs) None b"
proof (induction cs arbitrary: a b)
  case (Cons c cs)
  show ?case unfolding layout.simps Cons.IH by (auto simp: set_span_def span_def total_size_def)
qed (simp add: total_size_def set_span_def span_def)

lemma layout_cong: "(\<And>c. c \<in> set cs \<Longrightarrow> hs (fst c) = hs' (fst c)) \<Longrightarrow> layout a cs hs b = layout a cs hs' b"
  by (induction cs arbitrary: a b) simp_all

lemma layout_at:
  assumes "k < length cs" "x \<in> span (a + total_size (take k cs)) (snd (cs ! k))"
  shows "layout a cs hs b x = hs (fst (cs ! k))"
  using assms
proof (induction cs arbitrary: a b k)
  case (Cons c cs)
  show ?case
  proof (cases k)
    case 0
    then have x: "x \<in> span a (snd c)" using Cons.prems(2) by (simp add: total_size_def)
    then have "x \<notin> span (a + snd c) (total_size cs)" by (simp add: span_def)
    then show ?thesis using x 0 by (simp add: layout_out set_span_def)
  next
    case (Suc k')
    then show ?thesis using Cons.IH [of k' "a + snd c"] Cons.prems by (simp add: total_size_def add.assoc)
  qed
qed simp

lemma cu:
  assumes "cu_laws b cu V g"
  shows "ctx_get_current cu d = (e, x, d') \<Longrightarrow> V d' = V d" "ctx_retain cu i d = (e, x, d') \<Longrightarrow> V d' = V d"
    "ctx_set_current cu x d = (e, d') \<Longrightarrow> V d' = V d" "granularity cu q d = (0, n) \<Longrightarrow> n = g"
    "mem_create cu q n d = (0, h, d') \<Longrightarrow> h \<notin> live (V d) \<and> V d' = (V d)\<lparr>live := insert h (live (V d))\<rparr>"
    "mem_create cu q n d = (e, h, d') \<Longrightarrow> e \<noteq> 0 \<Longrightarrow> V d' = V d"
    "mem_release cu h d = (0, d') \<Longrightarrow> V d' = (V d)\<lparr>live := live (V d) - {h}\<rparr>"
    "mem_map cu a n h d = (0, d') \<Longrightarrow> V d' = (V d)\<lparr>backing := set_span a n (Some h) (backing (V d)), resident := resident (V d) \<union> span a n\<rparr>"
    "mem_unmap cu a n d = (0, d') \<Longrightarrow> V d' = (V d)\<lparr>backing := set_span a n None (backing (V d)),
       resident := (case b of CUDA \<Rightarrow> resident (V d) - span a n | ROCm \<Rightarrow> resident (V d))\<rparr>"
    "mem_set_access cu a n i k d = (e, d') \<Longrightarrow> V d' = V d"
    "address_reserve cu n al hint d = (0, a, d') \<Longrightarrow>
       a + n \<le> 2 ^ 64 \<and> span a n \<inter> reserved (V d) = {} \<and> V d' = (V d)\<lparr>reserved := reserved (V d) \<union> span a n\<rparr>"
    "address_reserve cu n al hint d = (e, a, d') \<Longrightarrow> e \<noteq> 0 \<Longrightarrow> V d' = V d"
    "address_free cu a n d = (0, d') \<Longrightarrow> V d' = (V d)\<lparr>reserved := reserved (V d) - span a n, resident := resident (V d) - span a n\<rparr>"
proof -
  note L = assms [unfolded cu_laws_def]
  note L1 = L [THEN conjunct1] and M1 = L [THEN conjunct2]
  note L2 = M1 [THEN conjunct1] and M2 = M1 [THEN conjunct2]
  note L3 = M2 [THEN conjunct1] and M3 = M2 [THEN conjunct2]
  note L4 = M3 [THEN conjunct1] and M4 = M3 [THEN conjunct2]
  note L5 = M4 [THEN conjunct1] and M5 = M4 [THEN conjunct2]
  note L6 = M5 [THEN conjunct1] and M6 = M5 [THEN conjunct2]
  note L7 = M6 [THEN conjunct1] and M7 = M6 [THEN conjunct2]
  note L8 = M7 [THEN conjunct1] and M8 = M7 [THEN conjunct2]
  note L9 = M8 [THEN conjunct1] and M9 = M8 [THEN conjunct2]
  note L10 = M9 [THEN conjunct1] and L11 = M9 [THEN conjunct2]
  show "ctx_get_current cu d = (e, x, d') \<Longrightarrow> V d' = V d" by (rule L1 [rule_format])
  show "ctx_retain cu i d = (e, x, d') \<Longrightarrow> V d' = V d" by (rule L2 [rule_format])
  show "ctx_set_current cu x d = (e, d') \<Longrightarrow> V d' = V d" by (rule L3 [rule_format])
  show "granularity cu q d = (0, n) \<Longrightarrow> n = g" by (rule L4 [rule_format]) auto
  show "mem_create cu q n d = (0, h, d') \<Longrightarrow> h \<notin> live (V d) \<and> V d' = (V d)\<lparr>live := insert h (live (V d))\<rparr>"
    using L5 [rule_format, of q n d 0 h d'] by simp
  show "mem_create cu q n d = (e, h, d') \<Longrightarrow> e \<noteq> 0 \<Longrightarrow> V d' = V d" using L5 [rule_format, of q n d e h d'] by simp
  show "mem_release cu h d = (0, d') \<Longrightarrow> V d' = (V d)\<lparr>live := live (V d) - {h}\<rparr>" using L6 [rule_format, of h d 0 d'] by simp
  show "mem_map cu a n h d = (0, d') \<Longrightarrow> V d' = (V d)\<lparr>backing := set_span a n (Some h) (backing (V d)), resident := resident (V d) \<union> span a n\<rparr>"
    using L7 [rule_format, of a n h d 0 d'] by simp
  show "mem_unmap cu a n d = (0, d') \<Longrightarrow> V d' = (V d)\<lparr>backing := set_span a n None (backing (V d)),
       resident := (case b of CUDA \<Rightarrow> resident (V d) - span a n | ROCm \<Rightarrow> resident (V d))\<rparr>"
    using L8 [rule_format, of a n d 0 d'] by simp
  show "mem_set_access cu a n i k d = (e, d') \<Longrightarrow> V d' = V d" by (rule L9 [rule_format])
  show "address_reserve cu n al hint d = (0, a, d') \<Longrightarrow>
       a + n \<le> 2 ^ 64 \<and> span a n \<inter> reserved (V d) = {} \<and> V d' = (V d)\<lparr>reserved := reserved (V d) \<union> span a n\<rparr>"
    using L10 [rule_format, of n al hint d 0 a d'] by simp
  show "address_reserve cu n al hint d = (e, a, d') \<Longrightarrow> e \<noteq> 0 \<Longrightarrow> V d' = V d" using L10 [rule_format, of n al hint d e a d'] by simp
  show "address_free cu a n d = (0, d') \<Longrightarrow> V d' = (V d)\<lparr>reserved := reserved (V d) - span a n, resident := resident (V d) - span a n\<rparr>"
    using L11 [rule_format, of a n d 0 d'] by simp
qed

text \<open>The parts of the state that the driver calls leave alone.\<close>

definition same :: "('d, 'c, 'p) cumem \<Rightarrow> ('d, 'c, 'p) cumem \<Rightarrow> bool" where
  "same s s' \<longleftrightarrow> cells s' = cells s \<and> py_state s' = py_state s \<and> malloc_callback s' = malloc_callback s"

lemma same_refl [simp]: "same s s"
  by (simp add: same_def)

lemma same_trans: "same s s1 \<Longrightarrow> same s1 s2 \<Longrightarrow> same s s2"
  by (simp add: same_def)

lemma same_updates [simp]: "same s (s1\<lparr>dev_state := d\<rparr>) = same s s1" "same s (cuda_check e s1) = same s s1" "same s (gil_release s1) = same s s1"
  "same s (gil_ensure s1) = same s s1" "same s (s1\<lparr>requests := n\<rparr>) = same s s1" "same s (s1\<lparr>error_code := n\<rparr>) = same s s1" "same s (s1\<lparr>error_msg := m\<rparr>) = same s s1"
  by (simp_all add: same_def gil_release_def gil_ensure_def)

lemma same_drv: "same s (snd (drv f s))" "same s (check_drv f s)" "same s (ignore_drv f s)"
  by (simp_all add: drv_def check_drv_def ignore_drv_def split: prod.splits)

lemma checkE:
  assumes "error_code (check_drv f s) = 0"
  obtains d where "error_code s = 0" "f (dev_state s) = (0, d)" "dev_state (check_drv f s) = d"
  using check_drv_ok [OF assms] by blast

lemma ensure_context_ok:
  assumes "cu_laws b cu V g"
  shows "V (dev_state (ensure_context cu i s)) = V (dev_state s)" "same s (ensure_context cu i s)"
    "error_code (ensure_context cu i s) = 0 \<Longrightarrow> error_code s = 0"
proof -
  obtain e x d where 1: "ctx_get_current cu (dev_state s) = (e, x, d)" by (metis prod_cases3)
  define s1 where "s1 = cuda_check e (s\<lparr>dev_state := d\<rparr>)"
  obtain e2 y d2 where 2: "ctx_retain cu i (dev_state s1) = (e2, y, d2)" by (metis prod_cases3)
  define s2 where "s2 = cuda_check e2 (s1\<lparr>dev_state := d2\<rparr>)"
  obtain e3 d3 where 3: "ctx_set_current cu y (dev_state s2) = (e3, d3)" by fastforce
  have eq: "ensure_context cu i s = (if x = 0 then cuda_check e3 (s2\<lparr>dev_state := d3\<rparr>) else s1)"
    using 1 2 3 by (simp add: ensure_context_def s1_def s2_def check_drv_def drv_def)
  have "V d = V (dev_state s)" "V d2 = V (dev_state s1)" "V d3 = V (dev_state s2)" using cu(1-3) [OF assms] 1 2 3 by blast+
  then show "V (dev_state (ensure_context cu i s)) = V (dev_state s)" by (simp add: eq s1_def s2_def)
  show "same s (ensure_context cu i s)" by (simp add: eq s1_def s2_def)
  show "error_code (ensure_context cu i s) = 0 \<Longrightarrow> error_code s = 0" by (simp add: eq s1_def s2_def split: if_splits)
qed

section \<open>One physical handle\<close>

lemma create_into_ok:
  assumes "cu_laws b cu V g" "create_into cu q n p s = Some (0, s')"
  shows "\<exists>h. cells s p \<noteq> None \<and> h \<notin> live (V (dev_state s)) \<and> V (dev_state s') = (V (dev_state s))\<lparr>live := insert h (live (V (dev_state s)))\<rparr> \<and>
    s' = s\<lparr>dev_state := dev_state s', cells := (cells s)(p \<mapsto> h)\<rparr>"
proof -
  obtain e h d where c: "mem_create cu q n (dev_state s) = (e, h, d)" by (metis prod_cases3)
  then have e: "e = 0" and s': "store_cell p h (s\<lparr>dev_state := d\<rparr>) = Some s'" using assms(2) by (auto simp: create_into_def Let_def split: if_splits)
  then have "cells s p \<noteq> None" "s' = s\<lparr>dev_state := d, cells := (cells s)(p \<mapsto> h)\<rparr>" by (auto simp: store_cell_def split: if_splits)
  then show ?thesis using cu(5) [OF assms(1), of q n "dev_state s" h d] c e by auto
qed

lemma create_into_fail:
  assumes "cu_laws b cu V g" "create_into cu q n p s = Some (e, s')" "e \<noteq> 0"
  shows "V (dev_state s') = V (dev_state s)" "same s s'" "error_code s' = error_code s"
proof -
  obtain e' h d where c: "mem_create cu q n (dev_state s) = (e', h, d)" by (metis prod_cases3)
  then have "e' = e" "s' = s\<lparr>dev_state := d\<rparr>" using assms(2,3) by (auto simp: create_into_def Let_def split: if_splits)
  then show "V (dev_state s') = V (dev_state s)" "same s s'" "error_code s' = error_code s"
    using cu(6) [OF assms(1), of q n "dev_state s" e' h d] c assms(3) by simp_all
qed

lemma create_handle_ok:
  assumes L: "cu_laws b cu V g" and run: "create_handle cu i n p s = Some s'" and ok: "error_code s' = 0"
  shows "error_code s = 0 \<and> (\<exists>h. cells s p \<noteq> None \<and> h \<notin> live (V (dev_state s)) \<and>
    V (dev_state s') = (V (dev_state s))\<lparr>live := insert h (live (V (dev_state s)))\<rparr> \<and>
    s' = s\<lparr>dev_state := dev_state s', cells := (cells s)(p \<mapsto> h)\<rparr>)"
proof -
  obtain q ff ret s1 where c: "create_into cu q n p s = Some (ret, s1)"
    and r: "(if ret \<noteq> 0 then
       if ff \<noteq> (0 :: int) \<and> (ret = CUDA_ERROR_NOT_PERMITTED \<or> ret = CUDA_ERROR_NOT_SUPPORTED) then do {
         (ret2, s2) \<leftarrow> create_into cu (q\<lparr>prop_handle := Posix_fd\<rparr>) n p s1; Some (cuda_check ret2 s2) }
       else Some (cuda_check ret s1)
     else Some s1) = Some s'"
    using run unfolding create_handle_def Let_def by (auto split: prod.splits Option.bind_splits)
  show ?thesis
  proof (cases "ret = 0")
    case True
    then have s': "s' = s1" using r by simp
    from create_into_ok [OF L c [unfolded True]] obtain h where h: "cells s p \<noteq> None" "h \<notin> live (V (dev_state s))"
      "V (dev_state s1) = (V (dev_state s))\<lparr>live := insert h (live (V (dev_state s)))\<rparr>" "s1 = s\<lparr>dev_state := dev_state s1, cells := (cells s)(p \<mapsto> h)\<rparr>" by blast
    have "error_code s1 = error_code s" by (subst h(4)) simp
    then have "error_code s = 0" using ok s' by simp
    then show ?thesis unfolding s' by (intro conjI exI [of _ h] h)
  next
    case False
    note f = create_into_fail [OF L c False]
    obtain s2 where c2: "create_into cu (q\<lparr>prop_handle := Posix_fd\<rparr>) n p s1 = Some (0, s2)" "s' = s2"
      using r ok False by (auto split: if_splits Option.bind_splits prod.splits)
    from create_into_ok [OF L c2(1)] obtain h where h: "cells s1 p \<noteq> None" "h \<notin> live (V (dev_state s1))"
      "V (dev_state s2) = (V (dev_state s1))\<lparr>live := insert h (live (V (dev_state s1)))\<rparr>" "s2 = s1\<lparr>dev_state := dev_state s2, cells := (cells s1)(p \<mapsto> h)\<rparr>" by blast
    have s1: "s1 = s\<lparr>dev_state := dev_state s1\<rparr>"
      using c False by (auto simp: create_into_def Let_def split: if_splits prod.splits)
    have "error_code s2 = error_code s1" by (subst h(4)) simp
    moreover have "s2 = s\<lparr>dev_state := dev_state s2, cells := (cells s)(p \<mapsto> h)\<rparr>" by (subst h(4), subst s1) (simp add: f(2) [unfolded same_def])
    moreover have "error_code s = 0" "cells s p \<noteq> None" using calculation(1) ok c2(2) f h(1) by (auto simp: same_def)
    ultimately show ?thesis unfolding c2(2) using h(2,3) unfolding f(1) by (intro conjI exI [of _ h])
  qed
qed

lemma create_and_map_ok:
  assumes L: "cu_laws b cu V g" and run: "create_and_map cu i n a p s = Some s'" and ok: "error_code s' = 0"
  shows "error_code s = 0 \<and> py_state s' = py_state s \<and> (\<exists>h. h \<notin> live (V (dev_state s)) \<and> cells s p \<noteq> None \<and> cells s' = (cells s)(p \<mapsto> h) \<and>
    V (dev_state s') = (V (dev_state s))\<lparr>live := insert h (live (V (dev_state s))), backing := set_span a n (Some h) (backing (V (dev_state s))),
      resident := resident (V (dev_state s)) \<union> span a n\<rparr>)"
proof -
  define s0 where "s0 = ensure_context cu i s"
  note e = ensure_context_ok [OF L, where i = i and s = s, folded s0_def]
  obtain s1 where c: "create_handle cu i n p s0 = Some s1" using run by (auto simp: create_and_map_def s0_def split: Option.bind_splits)
  have ok1: "error_code s1 = 0" using run c ok by (auto simp: create_and_map_def s0_def split: if_splits Option.bind_splits)
  from create_handle_ok [OF L c ok1] obtain h where h: "h \<notin> live (V (dev_state s0))" "cells s0 p \<noteq> None" "error_code s0 = 0"
    "V (dev_state s1) = (V (dev_state s0))\<lparr>live := insert h (live (V (dev_state s0)))\<rparr>" "s1 = s0\<lparr>dev_state := dev_state s1, cells := (cells s0)(p \<mapsto> h)\<rparr>" by blast
  have f1: "cells s1 = (cells s0)(p \<mapsto> h)" "py_state s1 = py_state s0" by (subst h(5), simp)+
  define s2 where "s2 = check_drv (mem_map cu a n h) s1"
  have s': "s' = (if error_code s2 \<noteq> 0 then s2 else check_drv (mem_set_access cu a n i 1) s2)"
    using run c ok1 f1 by (auto simp: create_and_map_def s0_def [symmetric] load_cell_def s2_def Let_def split: if_splits)
  then have s'2: "error_code s2 = 0" "s' = check_drv (mem_set_access cu a n i 1) s2" using ok by (auto split: if_splits)
  note m = check_drv_ok [of "mem_map cu a n h" s1, folded s2_def, OF s'2(1)]
  note t = check_drv_ok [of "mem_set_access cu a n i 1" s2, folded s'2(2), OF ok]
  have "V (dev_state s2) = (V (dev_state s1))\<lparr>backing := set_span a n (Some h) (backing (V (dev_state s1))), resident := resident (V (dev_state s1)) \<union> span a n\<rparr>"
    using cu(8) [OF L] m by blast
  moreover have "V (dev_state s') = V (dev_state s2)" using cu(10) [OF L] t by blast
  ultimately show ?thesis using h f1 m t e by (auto simp: same_def)
qed

lemma unmap_and_release_ok:
  assumes L: "cu_laws CUDA cu V g" and run: "unmap_and_release cu i n a p s = Some s'" and ok: "error_code s' = 0"
  shows "error_code s = 0 \<and> same s s' \<and> (\<exists>h. cells s p = Some h \<and>
    V (dev_state s') = (V (dev_state s))\<lparr>live := live (V (dev_state s)) - {h}, backing := set_span a n None (backing (V (dev_state s))),
      resident := resident (V (dev_state s)) - span a n\<rparr>)"
proof -
  define s0 where "s0 = ensure_context cu i s"
  note e = ensure_context_ok [OF L, where i = i and s = s, folded s0_def]
  define s1 where "s1 = check_drv (mem_unmap cu a n) s0"
  obtain h where ok1: "error_code s1 = 0" and h: "cells s1 p = Some h" "s' = check_drv (mem_release cu h) s1"
    using run ok by (auto simp: unmap_and_release_def s0_def [symmetric] s1_def [symmetric] load_cell_def split: if_splits Option.bind_splits)
  note m = check_drv_ok [of "mem_unmap cu a n" s0, folded s1_def, OF ok1]
  note t = check_drv_ok [of "mem_release cu h" s1, folded h(2), OF ok]
  have "V (dev_state s1) = (V (dev_state s0))\<lparr>backing := set_span a n None (backing (V (dev_state s0))), resident := resident (V (dev_state s0)) - span a n\<rparr>"
    using cu(9) [OF L] m by auto
  moreover have "V (dev_state s') = (V (dev_state s1))\<lparr>live := live (V (dev_state s1)) - {h}\<rparr>" using cu(7) [OF L] t by blast
  moreover have "same s s'" using e(2) same_drv(2) h(2) s1_def same_trans by metis
  ultimately show ?thesis using h e m by (auto simp: same_def)
qed

section \<open>Chunks\<close>

lemma wrap64_id: "n < 2 ^ 64 \<Longrightarrow> wrap64 n = n"
  by (simp add: wrap64_def)

lemma set_span_wrap: "a + n \<le> 2 ^ 64 \<Longrightarrow> set_span (wrap64 a) n v b = set_span a n v b"
  by (cases "n = 0") (auto simp: set_span_def span_def wrap64_def)

lemma span_wrap: "a + n \<le> 2 ^ 64 \<Longrightarrow> span (wrap64 a) n = span a n"
  by (cases "n = 0") (auto simp: span_def wrap64_def)

lemma span_append: "span a n \<union> span (a + n) m = span a (n + m)"
  by (auto simp: span_def)

lemma total_size_Cons: "total_size (c # cs) = snd c + total_size cs"
  by (simp add: total_size_def)

lemma release_chunks_error: "release_chunks cu cs s = Some s' \<Longrightarrow> error_code s' = error_code s"
  by (induction cs arbitrary: s) (auto split: Option.bind_splits)

lemma unmap_chunks_error: "error_code (unmap_chunks cu a m cs s) = error_code s"
  by (induction cs arbitrary: m s) auto

lemma handles_cong: "(\<And>c. c \<in> set cs \<Longrightarrow> cells s' (fst c) = cells s (fst c)) \<Longrightarrow> handles s' cs = handles s cs"
  by (simp add: handles_def)

lemma create_chunks_ok:
  assumes L: "cu_laws b cu V g"
  shows "create_chunks cu q cs_done cs s = Some (ok, s') \<Longrightarrow> error_code s' = 0 \<Longrightarrow> distinct (map fst cs) \<Longrightarrow>
    ok \<and> error_code s = 0 \<and> py_state s' = py_state s \<and> (\<forall>c \<in> set cs. cells s (fst c) \<noteq> None \<and> cells s' (fst c) \<noteq> None) \<and>
    (\<forall>p. p \<notin> fst ` set cs \<longrightarrow> cells s' p = cells s p) \<and>
    distinct (handles s' cs) \<and> set (handles s' cs) \<inter> live (V (dev_state s)) = {} \<and>
    V (dev_state s') = (V (dev_state s))\<lparr>live := live (V (dev_state s)) \<union> set (handles s' cs)\<rparr>"
proof (induction cs arbitrary: cs_done s)
  case Nil
  then show ?case by (simp add: handles_def)
next
  case (Cons c cs)
  obtain ret s1 where c1: "create_into cu q (snd c) (fst c) s = Some (ret, s1)"
    and r: "(if error_code (cuda_check ret s1) \<noteq> 0 then map_option (\<lambda>s3. (False, s3)) (release_chunks cu cs_done (cuda_check ret s1))
      else create_chunks cu q (cs_done @ [c]) cs (cuda_check ret s1)) = Some (ok, s')"
    using Cons.prems(1) by (auto simp: Let_def simp del: error_check neq0_conv split: Option.bind_splits)
  have z: "error_code (cuda_check ret s1) = 0"
    using r Cons.prems(2) release_chunks_error by (fastforce split: if_splits)
  then have ret: "ret = 0" and r2: "create_chunks cu q (cs_done @ [c]) cs s1 = Some (ok, s')" using r by auto
  from create_into_ok [OF L c1 [unfolded ret]] obtain h where h: "cells s (fst c) \<noteq> None" "h \<notin> live (V (dev_state s))"
    "V (dev_state s1) = (V (dev_state s))\<lparr>live := insert h (live (V (dev_state s)))\<rparr>" and s1: "s1 = s\<lparr>dev_state := dev_state s1, cells := (cells s)(fst c \<mapsto> h)\<rparr>" by blast
  have f: "cells s1 = (cells s)(fst c \<mapsto> h)" "py_state s1 = py_state s" "error_code s1 = error_code s" by (subst s1, simp)+
  have d: "distinct (map fst cs)" "fst c \<notin> fst ` set cs" using Cons.prems(3) by auto
  note I = Cons.IH [OF r2 Cons.prems(2) d(1)]
  have keep: "cells s' (fst c) = Some h" using I d(2) f(1) by simp
  have "handles s' (c # cs) = h # handles s' cs" by (simp add: handles_def keep)
  moreover have "h \<notin> set (handles s' cs)" using I h(3) by auto
  moreover have "\<forall>x \<in> set cs. cells s (fst x) \<noteq> None" using I f(1) d(2) by (metis fun_upd_other image_eqI)
  ultimately show ?case using I h f keep by auto
qed

lemma map_chunks_ok:
  assumes L: "cu_laws b cu V g"
  shows "map_chunks cu a m cs_done cs s = Some (ok, s') \<Longrightarrow> error_code s' = 0 \<Longrightarrow> a + m + total_size cs \<le> 2 ^ 64 \<Longrightarrow> m + total_size cs < 2 ^ 64 \<Longrightarrow>
    ok \<and> error_code s = 0 \<and> same s s' \<and> V (dev_state s') = (V (dev_state s))\<lparr>backing := layout (a + m) cs (cells s) (backing (V (dev_state s))),
      resident := resident (V (dev_state s)) \<union> span (a + m) (total_size cs)\<rparr>"
proof (induction cs arbitrary: m cs_done s)
  case Nil
  then show ?case by (simp add: total_size_def span_def)
next
  case (Cons c cs)
  obtain h where h: "cells s (fst c) = Some h" using Cons.prems(1) by (auto simp: load_cell_def split: Option.bind_splits)
  define s1 where "s1 = check_drv (mem_map cu (wrap64 (a + m)) (snd c) h) s"
  have r: "(if error_code s1 \<noteq> 0 then
         map_option (\<lambda>s3. (False, s3)) (release_chunks cu (cs_done @ c # cs) (unmap_chunks cu a 0 cs_done s1))
       else map_chunks cu a (wrap64 (m + snd c)) (cs_done @ [c]) cs s1) = Some (ok, s')"
    using Cons.prems(1) unfolding map_chunks.simps load_cell_def h s1_def Let_def by (simp only: Option.bind.bind_lunit)
  have z: "error_code s1 = 0"
  proof (rule ccontr)
    assume ne: "error_code s1 \<noteq> 0"
    then have "release_chunks cu (cs_done @ c # cs) (unmap_chunks cu a 0 cs_done s1) = Some s'" using r by auto
    then have "error_code s' = error_code s1" using release_chunks_error unmap_chunks_error by metis
    then show False using ne Cons.prems(2) by simp
  qed
  have sz: "a + m + snd c \<le> 2 ^ 64" "m + snd c < 2 ^ 64" "a + (m + snd c) + total_size cs \<le> 2 ^ 64" "m + snd c + total_size cs < 2 ^ 64"
    using Cons.prems(3,4) by (simp_all add: total_size_Cons)
  have r2: "map_chunks cu a (m + snd c) (cs_done @ [c]) cs s1 = Some (ok, s')" using r z wrap64_id [OF sz(2)] by simp
  note I = Cons.IH [OF r2 Cons.prems(2) sz(3,4)]
  note k = check_drv_ok [of "mem_map cu (wrap64 (a + m)) (snd c) h" s, folded s1_def, OF z]
  have "same s s1" unfolding s1_def by (rule same_drv)
  moreover have "V (dev_state s1) = (V (dev_state s))\<lparr>backing := set_span (a + m) (snd c) (Some h) (backing (V (dev_state s))),
      resident := resident (V (dev_state s)) \<union> span (a + m) (snd c)\<rparr>"
    using cu(8) [OF L conjunct1 [OF conjunct2 [OF k]]] set_span_wrap [OF sz(1)] span_wrap [OF sz(1)] by simp
  moreover have "X \<union> span (a + m) (snd c) \<union> span (a + (m + snd c)) (total_size cs) = X \<union> span (a + m) (total_size (c # cs))" for X
    using span_append [of "a + m" "snd c" "total_size cs"] by (auto simp: total_size_Cons add.assoc)
  ultimately show ?case using I k h same_trans by (auto simp: same_def add.assoc)
qed

lemma unmap_all_ok:
  assumes L: "cu_laws ROCm cu V g"
  shows "unmap_all cu a m fe cs s = (0, s') \<Longrightarrow> a + m + total_size cs \<le> 2 ^ 64 \<Longrightarrow> m + total_size cs < 2 ^ 64 \<Longrightarrow>
    fe = 0 \<and> same s s' \<and> error_code s' = error_code s \<and>
    V (dev_state s') = (V (dev_state s))\<lparr>backing := layout (a + m) cs (\<lambda>_. None) (backing (V (dev_state s)))\<rparr>"
proof (induction cs arbitrary: m fe s)
  case Nil
  then show ?case by simp
next
  case (Cons c cs)
  obtain e s1 where d: "drv (mem_unmap cu (wrap64 (a + m)) (snd c)) s = (e, s1)" by fastforce
  have sz: "a + m + snd c \<le> 2 ^ 64" "m + snd c < 2 ^ 64" "a + (m + snd c) + total_size cs \<le> 2 ^ 64" "m + snd c + total_size cs < 2 ^ 64"
    using Cons.prems(2,3) by (simp_all add: total_size_Cons)
  have r: "unmap_all cu a (m + snd c) (keep_first fe e) cs s1 = (0, s')" using Cons.prems(1) d wrap64_id [OF sz(2)] by simp
  note I = Cons.IH [OF r sz(3,4)]
  then have e: "fe = 0" "e = 0" by (auto simp: keep_first_def split: if_splits)
  note k = drv_fields [OF d]
  have "same s s1" using same_drv(1) [of s] d by (metis snd_conv)
  moreover have "V (dev_state s1) = (V (dev_state s))\<lparr>backing := set_span (a + m) (snd c) None (backing (V (dev_state s)))\<rparr>"
    using cu(9) [OF L, of "wrap64 (a + m)" "snd c"] k e set_span_wrap [OF sz(1)] by auto
  ultimately show ?case using I k e same_trans by (auto simp: add.assoc)
qed

lemma release_all_ok:
  assumes L: "cu_laws b cu V g"
  shows "release_all cu fe cs s = Some (0, s') \<Longrightarrow> fe = 0 \<and> same s s' \<and> error_code s' = error_code s \<and>
    V (dev_state s') = (V (dev_state s))\<lparr>live := live (V (dev_state s)) - set (handles s cs)\<rparr>"
proof (induction cs arbitrary: fe s)
  case Nil
  then show ?case by (simp add: handles_def)
next
  case (Cons c cs)
  obtain h e s1 where h: "cells s (fst c) = Some h" and d: "drv (mem_release cu h) s = (e, s1)" and r: "release_all cu (keep_first fe e) cs s1 = Some (0, s')"
    using Cons.prems by (auto simp: load_cell_def split: Option.bind_splits prod.splits)
  note I = Cons.IH [OF r]
  then have e: "fe = 0" "e = 0" by (auto simp: keep_first_def split: if_splits)
  note k = drv_fields [OF d]
  have "same s s1" using same_drv(1) [of s] d by (metis snd_conv)
  moreover have "V (dev_state s1) = (V (dev_state s))\<lparr>live := live (V (dev_state s)) - {h}\<rparr>" using cu(7) [OF L] k e by metis
  moreover have "handles s1 cs = handles s cs" by (rule handles_cong) (simp add: k)
  moreover have "A - set (handles s (c # cs)) = A - {h} - set (handles s cs)" for A by (auto simp: handles_def h)
  ultimately show ?case using I k e same_trans by auto
qed

lemma create_and_map_rocm_ok:
  assumes L: "cu_laws b cu V g" and run: "create_and_map_rocm cu k i n a cs s = Some s'" and ok: "error_code s' = 0"
    and sz: "distinct (map fst cs)" "a + total_size cs \<le> 2 ^ 64" "total_size cs < 2 ^ 64"
  shows "error_code s = 0 \<and> py_state s' = py_state s \<and> (\<forall>c \<in> set cs. cells s' (fst c) \<noteq> None) \<and>
    distinct (handles s' cs) \<and> set (handles s' cs) \<inter> live (V (dev_state s)) = {} \<and>
    V (dev_state s') = (V (dev_state s))\<lparr>live := live (V (dev_state s)) \<union> set (handles s' cs),
      backing := layout a cs (cells s') (backing (V (dev_state s))), resident := resident (V (dev_state s)) \<union> span a (total_size cs)\<rparr>"
proof -
  define s0 where "s0 = ensure_context cu i s"
  note e = ensure_context_ok [OF L, where i = i and s = s, folded s0_def]
  obtain b1 s1 where c: "create_chunks cu (base_prop i) [] cs s0 = Some (b1, s1)"
    and r1: "(if \<not> b1 then Some s1 else do { (mapped, s2) \<leftarrow> map_chunks cu a 0 [] cs s1;
       if \<not> mapped then Some s2 else Some (check_drv (mem_set_access cu a n i k) s2) }) = Some s'"
    using run by (auto simp: create_and_map_rocm_def s0_def split: Option.bind_splits)
  show ?thesis
  proof (cases b1)
    case False
    then have "s' = s1" using r1 by simp
    then show ?thesis using create_chunks_ok [OF L c] ok sz(1) False by blast
  next
    case True
    obtain b2 s2 where m: "map_chunks cu a 0 [] cs s1 = Some (b2, s2)"
      and r2: "s' = (if \<not> b2 then s2 else check_drv (mem_set_access cu a n i k) s2)"
      using r1 True by (auto split: Option.bind_splits if_splits)
    have ok2: "error_code s2 = 0" using r2 ok check_drv_ok by (metis (full_types))
    note M = map_chunks_ok [OF L m ok2] and sz0 = sz(2,3)
    then have M': "b2" "error_code s1 = 0" "same s1 s2"
      "V (dev_state s2) = (V (dev_state s1))\<lparr>backing := layout a cs (cells s1) (backing (V (dev_state s1))),
        resident := resident (V (dev_state s1)) \<union> span a (total_size cs)\<rparr>" by auto
    note C = create_chunks_ok [OF L c M'(2) sz(1)]
    have s': "s' = check_drv (mem_set_access cu a n i k) s2" using r2 M'(1) by simp
    note t = check_drv_ok [of "mem_set_access cu a n i k" s2, folded s', OF ok]
    have v: "V (dev_state s') = V (dev_state s2)" using cu(10) [OF L] t by blast
    have cl: "cells s' = cells s1" "py_state s' = py_state s1" using t M'(3) by (simp_all add: same_def)
    then have h: "handles s' cs = handles s1 cs" by (simp add: handles_def)
    show ?thesis using C M' v cl e unfolding h by (simp add: same_def)
  qed
qed

lemma unmap_and_release_rocm_ok:
  assumes L: "cu_laws ROCm cu V g" and run: "unmap_and_release_rocm cu i n a cs s = Some s'" and ok: "error_code s' = 0"
    and sz: "a + total_size cs \<le> 2 ^ 64" "total_size cs < 2 ^ 64"
  shows "error_code s = 0 \<and> same s s' \<and>
    V (dev_state s') = (V (dev_state s))\<lparr>live := live (V (dev_state s)) - set (handles s cs),
      backing := set_span a (total_size cs) None (backing (V (dev_state s)))\<rparr>"
proof -
  define s0 where "s0 = ensure_context cu i s"
  note e = ensure_context_ok [OF L, where i = i and s = s, folded s0_def]
  obtain f1 s1 where u: "unmap_all cu a 0 0 cs s0 = (f1, s1)" by fastforce
  then obtain f2 s2 where r: "release_all cu f1 cs s1 = Some (f2, s2)" "s' = (if f2 \<noteq> 0 then cuda_check f2 s2 else s2)"
    using run by (auto simp: unmap_and_release_rocm_def s0_def split: Option.bind_splits)
  then have f2: "f2 = 0" "s' = s2" using ok by (auto split: if_splits)
  note R = release_all_ok [OF L r(1) [unfolded f2(1)]]
  then have f1: "f1 = 0" by blast
  have "a + 0 + total_size cs \<le> 2 ^ 64" "0 + total_size cs < 2 ^ 64" using sz by simp_all
  note U = unmap_all_ok [OF L u [unfolded f1] this]
  have "handles s1 cs = handles s0 cs" "handles s0 cs = handles s cs" using U e(2) by (simp_all add: handles_def same_def)
  moreover have "same s s2" using U R e(2) same_trans by blast
  ultimately show ?thesis using U R e ok f2(2) by (simp add: layout_none)
qed

section \<open>The two builds keep the contract\<close>

lemma raise_errorD: "raise_error s = (None, s') \<Longrightarrow> error_code s = 0 \<and> s' = s"
  by (auto simp: raise_error_def split: if_splits)

lemma re_reserve_ok:
  assumes L: "cu_laws b cu V g" and ok: "error_code (re_reserve cu a n s) = 0"
  shows "error_code s = 0 \<and> same s (re_reserve cu a n s) \<and>
    V (dev_state (re_reserve cu a n s)) = (V (dev_state s))\<lparr>reserved := reserved (V (dev_state s)) - span a n \<union> span a n,
      resident := resident (V (dev_state s)) - span a n\<rparr>"
proof -
  define s1 where "s1 = check_drv (address_free cu a n) s"
  obtain e x d where r: "address_reserve cu n 0 a (dev_state s1) = (e, x, d)" by (metis prod_cases3)
  then have rr: "reserve_rocm_address cu n 0 a s1 = (e, x, s1\<lparr>dev_state := d\<rparr>)" by (simp add: reserve_rocm_address_def)
  define s3 where "s3 = cuda_check e (s1\<lparr>dev_state := d\<rparr>)"
  have eq: "re_reserve cu a n s = (if error_code s = 0 then if error_code s1 = 0 then
      if error_code s3 = 0 \<and> x \<noteq> a then (ignore_drv (address_free cu x n) s3)\<lparr>error_msg := Re_reserve a x, error_code := 1\<rparr> else s3 else s1 else s)"
    by (simp add: re_reserve_def s1_def [symmetric] rr s3_def)
  then have z: "error_code s = 0" "error_code s1 = 0" "error_code s3 = 0" "x = a" "re_reserve cu a n s = s3" using ok by (auto split: if_splits)
  note k = check_drv_ok [of "address_free cu a n" s, folded s1_def, OF z(2)]
  have e: "e = 0" using z(3) by (simp add: s3_def)
  have "V (dev_state s1) = (V (dev_state s))\<lparr>reserved := reserved (V (dev_state s)) - span a n,
      resident := resident (V (dev_state s)) - span a n\<rparr>" using cu(13) [OF L] k by blast
  moreover have "V d = (V (dev_state s1))\<lparr>reserved := reserved (V (dev_state s1)) \<union> span a n\<rparr>" using cu(11) [OF L r [unfolded e]] z(4) by simp
  ultimately show ?thesis using z k same_drv(2) [of s] unfolding z(5) by (simp add: s3_def e) (simp add: s1_def)
qed

lemma clean_restore:
  assumes "well_placed b V v0 s (i, n, a, arg)"
  shows "set_span a n None (layout a (pieces (i, n, a, arg)) hs (backing v0)) = backing v0" "set_span a n None (backing v0) = backing v0"
proof -
  have in_none: "backing v0 x = None" if "x \<in> span a n" for x using assms that by (auto simp: well_placed_def)
  have out: "layout a (pieces (i, n, a, arg)) hs (backing v0) x = backing v0 x" if "x \<notin> span a n" for x
    using layout_out [of x a "pieces (i, n, a, arg)"] assms that by (simp add: well_placed_def)
  show "set_span a n None (layout a (pieces (i, n, a, arg)) hs (backing v0)) = backing v0" "set_span a n None (backing v0) = backing v0"
    using in_none out by (auto simp: set_span_def)
qed

lemma not_resident:
  assumes "well_placed b V v0 s (i, n, a, arg)"
  shows "resident v0 \<union> span a n - span a n = resident v0" "resident v0 - span a n = resident v0"
  using assms by (auto simp: well_placed_def)

lemma well_placed_step:
  assumes "well_placed b V v0 s h" "error_code s' = 0" "reserved (V (dev_state s')) = reserved (V (dev_state s))"
    and "\<forall>c \<in> set (pieces h). cells s' (fst c) \<noteq> None"
  shows "well_placed b V v0 s' h"
  using assms by (cases h) (auto simp: well_placed_def)

lemma well_placed_same: "well_placed b V v0 s h \<Longrightarrow> same s s' \<Longrightarrow> error_code s' = 0 \<Longrightarrow> reserved (V (dev_state s')) = reserved (V (dev_state s)) \<Longrightarrow> well_placed b V v0 s' h"
  by (cases h) (auto simp: well_placed_def same_def handles_def)

lemma new_arrays: "new_array s = (ok1, s1) \<Longrightarrow> new_array s1 = (ok2, s2) \<Longrightarrow> same s s2 \<and> dev_state s2 = dev_state s \<and> error_code s2 = error_code s"
  by (auto simp: new_array_def same_def)

lemma down_cuda:
  assumes up: "awake CUDA cu V g v0 s (i, n, a, Handle p)"
    and run: "unmap_and_release cu i' n a p s = Some s'" "error_code s' = 0"
  shows "asleep CUDA cu V g v0 s' (i, n, a, Handle p)"
proof -
  have L: "cu_laws CUDA cu V g" and W: "well_placed CUDA V v0 s (i, n, a, Handle p)" using up by (simp_all add: awake_def)
  from unmap_and_release_ok [OF L run] obtain h where h: "same s s'" "cells s p = Some h"
    "V (dev_state s') = (V (dev_state s))\<lparr>live := live (V (dev_state s)) - {h}, backing := set_span a n None (backing (V (dev_state s))),
      resident := resident (V (dev_state s)) - span a n\<rparr>" by blast
  have hs: "handles s (pieces (i, n, a, Handle p)) = [h]" using h(2) by (simp add: handles_def)
  have "h \<notin> live v0" using up hs by (simp add: awake_def)
  then have "live (V (dev_state s')) = live v0" using up hs by (simp add: awake_def h(3))
  moreover have "backing (V (dev_state s')) = backing v0" using up clean_restore(1) [OF W, of "cells s"] by (simp add: awake_def h(3))
  moreover have "resident (V (dev_state s')) = resident v0" using up not_resident(1) [OF W] by (simp add: awake_def h(3))
  moreover have "well_placed CUDA V v0 s' (i, n, a, Handle p)" using W h(1) run(2) by (rule well_placed_same) (simp add: h(3))
  moreover have "handles s' (pieces (i, n, a, Handle p)) = [h]" using hs h(1) by (simp add: handles_def same_def)
  ultimately show ?thesis using L \<open>h \<notin> live v0\<close> by (simp add: asleep_def idle_def)
qed

lemma down_rocm:
  assumes up: "awake ROCm cu V g v0 s (i, n, a, Chunks cs)"
    and run: "unmap_and_release_rocm cu i' n' a cs s = Some s'" "error_code s' = 0"
  shows "unmapped cu V g v0 s' (i, n, a, Chunks cs)"
proof -
  have L: "cu_laws ROCm cu V g" and W: "well_placed ROCm V v0 s (i, n, a, Chunks cs)" using up by (simp_all add: awake_def)
  have n: "total_size cs = n" "a + total_size cs \<le> 2 ^ 64" "total_size cs < 2 ^ 64" using W by (simp_all add: well_placed_def)
  note U = unmap_and_release_rocm_ok [OF L run n(2,3)]
  have d: "set (handles s cs) \<inter> live v0 = {}" using up by (simp add: awake_def)
  then have "live (V (dev_state s')) = live v0" using up U by (auto simp: awake_def)
  moreover have "backing (V (dev_state s')) = backing v0" using up U clean_restore(1) [OF W, of "cells s"] n(1) by (simp add: awake_def)
  moreover have "resident (V (dev_state s')) = resident v0 \<union> span a n" using up U by (simp add: awake_def)
  moreover have "well_placed ROCm V v0 s' (i, n, a, Chunks cs)" using W conjunct1 [OF conjunct2 [OF U]] run(2) by (rule well_placed_same) (simp add: U)
  moreover have "handles s' cs = handles s cs" using U by (simp add: handles_def same_def)
  ultimately show ?thesis using L d by (simp add: unmapped_def)
qed

lemma asleep_same:
  assumes "asleep b cu V g v0 s h" "same s s'" "error_code s' = 0" "V (dev_state s') = V (dev_state s)"
  shows "asleep b cu V g v0 s' h"
  using assms well_placed_same [of b V v0 s h s'] by (simp add: asleep_def idle_def same_def handles_def)

lemma awake_same:
  assumes "awake b cu V g v0 s h" "same s s'" "error_code s' = 0" "V (dev_state s') = V (dev_state s)"
  shows "awake b cu V g v0 s' h"
  using assms well_placed_same [of b V v0 s h s'] by (simp add: awake_def same_def handles_def)

lemma up_cuda:
  assumes down: "idle CUDA cu V g v0 s (i, n, a, Handle p)"
    and run: "create_and_map cu i' n a p s = Some s'" "error_code s' = 0"
  shows "awake CUDA cu V g v0 s' (i, n, a, Handle p)"
proof -
  have L: "cu_laws CUDA cu V g" and W: "well_placed CUDA V v0 s (i, n, a, Handle p)" using down by (simp_all add: idle_def)
  from create_and_map_ok [OF L run] obtain h where h: "h \<notin> live (V (dev_state s))" "cells s' = (cells s)(p \<mapsto> h)"
    "V (dev_state s') = (V (dev_state s))\<lparr>live := insert h (live (V (dev_state s))), backing := set_span a n (Some h) (backing (V (dev_state s))),
      resident := resident (V (dev_state s)) \<union> span a n\<rparr>" by blast
  have hs: "handles s' (pieces (i, n, a, Handle p)) = [h]" using h(2) by (simp add: handles_def)
  have "well_placed CUDA V v0 s' (i, n, a, Handle p)"
    using W run(2) by (rule well_placed_step) (use h down hs in \<open>auto simp: idle_def\<close>)
  then show ?thesis using L hs h down by (simp add: awake_def idle_def)
qed

lemma up_rocm:
  assumes down: "idle ROCm cu V g v0 s (i, n, a, Chunks cs)"
    and run: "create_and_map_rocm cu k i' n' a cs s = Some s'" "error_code s' = 0"
  shows "awake ROCm cu V g v0 s' (i, n, a, Chunks cs)"
proof -
  have L: "cu_laws ROCm cu V g" and W: "well_placed ROCm V v0 s (i, n, a, Chunks cs)" using down by (simp_all add: idle_def)
  have n: "distinct (map fst cs)" "a + total_size cs \<le> 2 ^ 64" "total_size cs < 2 ^ 64" and tot: "total_size cs = n" using W by (auto simp: well_placed_def)
  note C = create_and_map_rocm_ok [OF L run n, unfolded tot]
  have "well_placed ROCm V v0 s' (i, n, a, Chunks cs)"
    using W run(2) by (rule well_placed_step) (use C down in \<open>auto simp: idle_def\<close>)
  then show ?thesis using L C down by (simp add: awake_def idle_def)
qed

lemma unmap_op_down:
  assumes "awake b cu V g v0 s h" "unmap_op b cu (Tuple h) s = Some (None, s')"
  shows "asleep b cu V g v0 s' h"
proof (cases b)
  case CUDA
  obtain i n a p where h: "h = (i, n, a, Handle p)" using assms(1) CUDA by (cases h) (auto simp: awake_def well_placed_def split: mem_arg.splits)
  obtain s1 where "unmap_and_release cu i n a p s = Some s1" "raise_error s1 = (None, s')"
    using assms(2) by (auto simp: unmap_op_def CUDA h python_unmap_and_release_def)
  then show ?thesis using down_cuda [OF assms(1) [unfolded CUDA h]] raise_errorD [of s1 s'] unfolding CUDA h by simp
next
  case ROCm
  obtain i n a cs where h: "h = (i, n, a, Chunks cs)" using assms(1) ROCm by (cases h) (auto simp: awake_def well_placed_def split: mem_arg.splits)
  obtain ok1 s1 ok2 s2 where n: "new_array s = (ok1, s1)" "new_array s1 = (ok2, s2)" by (meson surj_pair)
  then obtain s3 where s3: "unmap_and_release_rocm cu i n a cs s2 = Some s3" "raise_error (re_reserve cu a n s3) = (None, s')"
    using assms(2) by (auto simp: unmap_op_def ROCm h python_unmap_and_release_rocm_def split: if_splits Option.bind_splits)
  have z: "error_code (re_reserve cu a n s3) = 0" "s' = re_reserve cu a n s3" using raise_errorD [OF s3(2)] by simp_all
  have L: "cu_laws ROCm cu V g" and e: "error_code s = 0" using assms(1) ROCm by (auto simp: awake_def well_placed_def)
  note R = re_reserve_ok [OF L z(1)]
  have "awake ROCm cu V g v0 s2 h"
    using awake_same [OF assms(1) [unfolded ROCm], of s2] new_arrays [OF n] e by simp
  then have D: "unmapped cu V g v0 s3 (i, n, a, Chunks cs)" using down_rocm [OF _ s3(1)] R unfolding h by blast
  then have W: "well_placed ROCm V v0 s3 (i, n, a, Chunks cs)" by (simp add: unmapped_def)
  have "reserved (V (dev_state s')) = reserved (V (dev_state s3))" using R z(2) W by (auto simp: well_placed_def)
  then have "well_placed ROCm V v0 s' (i, n, a, Chunks cs)" using well_placed_same [OF W, of s'] R z by simp
  moreover have "resident (V (dev_state s')) = resident v0" using R z(2) D not_resident(1) [OF W] by (simp add: unmapped_def)
  moreover have "handles s' cs = handles s3 cs" using R z(2) by (simp add: handles_def same_def)
  ultimately show ?thesis using L D R z(2) unfolding ROCm h by (simp add: asleep_def idle_def unmapped_def)
qed

lemma remap_op_up:
  assumes "asleep b cu V g v0 s h" "remap_op b cu k (Tuple h) s = Some (None, s')"
  shows "awake b cu V g v0 s' h"
proof (cases b)
  case CUDA
  obtain i n a p where h: "h = (i, n, a, Handle p)" using assms(1) CUDA by (cases h) (auto simp: asleep_def idle_def well_placed_def split: mem_arg.splits)
  obtain s1 where "create_and_map cu i n a p s = Some s1" "raise_error s1 = (None, s')"
    using assms(2) by (auto simp: remap_op_def CUDA h python_create_and_map_def)
  then show ?thesis using up_cuda [OF conjunct1 [OF assms(1) [unfolded CUDA h asleep_def]]] raise_errorD [of s1 s'] unfolding CUDA h by simp
next
  case ROCm
  obtain i n a cs where h: "h = (i, n, a, Chunks cs)" using assms(1) ROCm by (cases h) (auto simp: asleep_def idle_def well_placed_def split: mem_arg.splits)
  obtain ok1 s1 ok2 s2 where n: "new_array s = (ok1, s1)" "new_array s1 = (ok2, s2)" by (meson surj_pair)
  then obtain s3 where s3: "create_and_map_rocm cu k i n a cs s2 = Some s3" "raise_error s3 = (None, s')"
    using assms(2) by (auto simp: remap_op_def ROCm h python_create_and_map_rocm_def split: if_splits)
  have e: "error_code s = 0" using assms(1) by (auto simp: asleep_def idle_def well_placed_def)
  have "asleep ROCm cu V g v0 s2 h"
    using asleep_same [OF assms(1) [unfolded ROCm], of s2] new_arrays [OF n] e by simp
  then have "idle ROCm cu V g v0 s2 (i, n, a, Chunks cs)" by (simp add: asleep_def h)
  then show ?thesis using up_rocm [OF _ s3(1)] raise_errorD [OF s3(2)] unfolding ROCm h by blast
qed

interpretation cumem_sleep: sleepable "unmap_op b cu" "remap_op b cu k" "awake b cu V g v0" "asleep b cu V g v0" for b cu k V g v0
proof unfold_locales
  show "asleep b cu V g v0 s' h" if "awake b cu V g v0 s h" "unmap_op b cu (Tuple h) s = Some (None, s')" for s s' h
    using that by (rule unmap_op_down)
  show "awake b cu V g v0 s' h" if "asleep b cu V g v0 s h" "remap_op b cu k (Tuple h) s = Some (None, s')" for s s' h
    using that by (rule remap_op_up)
qed (simp_all add: awake_def asleep_def idle_def well_placed_def handles_def split: prod.splits)

section \<open>Allocation and release\<close>

lemma round_up_eq:
  assumes "0 < g" "n + g \<le> 2 ^ 64"
  shows "round_up n g = (n + g - 1) div g * g" "n \<le> round_up n g" "round_up n g < n + g" "g dvd round_up n g"
proof -
  have "n + g + (2 ^ 64 - 1) = (n + g - 1) + 2 ^ 64" using assms by simp
  then have "wrap64 (n + g + (2 ^ 64 - 1)) = (n + g - 1) mod 2 ^ 64" unfolding wrap64_def by (simp only: mod_add_self2)
  then have "wrap64 (n + g + (2 ^ 64 - 1)) = n + g - 1" using assms by simp
  then show eq: "round_up n g = (n + g - 1) div g * g" by (simp add: round_up_def)
  have "(n + g - 1) div g * g + (n + g - 1) mod g = n + g - 1" by simp
  moreover have "(n + g - 1) mod g < g" using assms(1) by simp
  ultimately show "n \<le> round_up n g" "round_up n g < n + g" unfolding eq using assms(1) by linarith+
  show "g dvd round_up n g" unfolding eq by simp
qed

lemma reserve_ok:
  assumes L: "cu_laws b cu V g" and r: "reserve_rocm_address cu n al x s = (0, a, s')"
  shows "a + n \<le> 2 ^ 64 \<and> span a n \<inter> reserved (V (dev_state s)) = {} \<and> same s s' \<and> error_code s' = error_code s \<and>
    V (dev_state s') = (V (dev_state s))\<lparr>reserved := reserved (V (dev_state s)) \<union> span a n\<rparr>"
proof -
  obtain e1 a1 d1 where 1: "address_reserve cu n al x (dev_state s) = (e1, a1, d1)" by (metis prod_cases3)
  obtain e2 a2 d2 where 2: "address_reserve cu n 0 x d1 = (e2, a2, d2)" by (metis prod_cases3)
  show ?thesis
  proof (cases "e1 = 0")
    case True
    then have "a = a1" "s' = s\<lparr>dev_state := d1\<rparr>" using r 1 by (auto simp: reserve_rocm_address_def)
    then show ?thesis using cu(11) [OF L 1 [unfolded True]] by simp
  next
    case False
    then have "e2 = 0" "a = a2" "s' = s\<lparr>dev_state := d2\<rparr>"
      using r 1 2 by (auto simp: reserve_rocm_address_def Let_def CUDA_ERROR_NOT_SUPPORTED_def split: if_splits)
    then show ?thesis using cu(11) [OF L, of n 0 x d1 a2 d2] 2 cu(12) [OF L 1 False] by simp
  qed
qed

lemma new_cell_some: "new_cell s = (Some p, s') \<Longrightarrow> p = Suc (requests s) \<and> s' = s\<lparr>requests := Suc (requests s), cells := (cells s)(p \<mapsto> 0)\<rparr>"
  by (auto simp: new_cell_def Let_def split: if_splits)

lemma tell_python_ok:
  assumes "tell_python (sonar_interp b) cb h s = (ok, s')"
  shows "ok \<and> cells s' = cells s \<and> dev_state s' = dev_state s \<and> error_code s' = error_code s \<and>
    py_state s' = (py_state s)(fst (snd (snd h)) \<mapsto> \<lparr>ad_handle = h, is_asleep = False\<rparr>)"
  using assms by (auto simp: tell_python_def sonar_interp_def python_malloc_callback_def gil_ensure_def gil_release_def)

definition chunk_size :: "nat \<Rightarrow> nat \<Rightarrow> nat \<Rightarrow> nat" where
  "chunk_size n c i = my_min (wrap64 (n + (2 ^ 64 - wrap64 (i * c)))) c"

lemma alloc_chunks_ok:
  "alloc_chunks n c is cs s = Some (Some cs', s') \<Longrightarrow>
     cs' = cs @ zip [Suc (requests s)..<Suc (requests s + length is)] (map (chunk_size n c) is) \<and> requests s' = requests s + length is \<and>
     (\<forall>p \<in> {requests s<..requests s + length is}. cells s' p \<noteq> None) \<and> (\<forall>p \<le> requests s. cells s' p = cells s p) \<and>
     dev_state s' = dev_state s \<and> error_code s' = error_code s \<and> py_state s' = py_state s"
proof (induction "is" arbitrary: cs s)
  case Nil
  then show ?case by simp
next
  case (Cons i "is")
  obtain p s1 where n: "new_cell s = (Some p, s1)" and r: "alloc_chunks n c is (cs @ [(p, chunk_size n c i)]) s1 = Some (Some cs', s')"
    using Cons.prems by (auto simp: chunk_size_def split: prod.splits option.splits)
  note f = new_cell_some [OF n]
  note I = Cons.IH [OF r]
  have q: "requests s1 = Suc (requests s)" using f by simp
  have "cells s' (Suc (requests s)) = Some 0" using I f by simp
  then have "\<forall>p \<in> {requests s<..requests s + length (i # is)}. cells s' p \<noteq> None"
    using I q by (metis Suc_leI add_Suc_right add_Suc_shift greaterThanAtMost_iff le_neq_implies_less length_Cons option.distinct(1))
  moreover have "[Suc (requests s)..<Suc (requests s + length (i # is))] = Suc (requests s) # [Suc (requests s1)..<Suc (requests s1 + length is)]"
    by (subst upt_conv_Cons) (simp_all add: q)
  ultimately show ?case using I f by simp
qed

lemma chunk_sizes_sum:
  assumes "0 < c" "n + c \<le> 2 ^ 64"
  shows "sum_list (map (chunk_size n c) [0..<(n + c - 1) div c]) = n"
proof -
  define N where "N = (n + c - 1) div c"
  have below: "i * c < n" if "i < N" for i
  proof -
    have "Suc i * c \<le> N * c" using that by (intro mult_le_mono1) simp
    also have "\<dots> \<le> n + c - 1" unfolding N_def by (rule div_times_less_eq_dividend)
    finally show ?thesis using assms(1) by simp
  qed
  have sz: "chunk_size n c i = min (n - i * c) c" if "i < N" for i
  proof -
    have b: "i * c < n" "n < 2 ^ 64" using below [OF that] assms by simp_all
    then have "n + (2 ^ 64 - i * c) = (n - i * c) + 2 ^ 64" by simp
    then have "wrap64 (n + (2 ^ 64 - i * c)) = (n - i * c) mod 2 ^ 64" unfolding wrap64_def by (simp only: mod_add_self2)
    then show ?thesis using b by (simp add: chunk_size_def wrap64_id my_min_def min_def)
  qed
  have "sum_list (map (chunk_size n c) [0..<k]) = min n (k * c)" if "k \<le> N" for k using that
  proof (induction k)
    case (Suc k)
    then show ?case using sz [of k] below [of k] by (auto simp: min_def)
  qed simp
  moreover have "n \<le> N * c" unfolding N_def using round_up_eq(1,2) [OF assms] by simp
  ultimately show ?thesis by (simp add: N_def)
qed

lemma malloc_cuda:
  assumes L: "cu_laws CUDA cu V g" and clean: "\<forall>x. x \<notin> reserved (V (dev_state s0)) \<longrightarrow> backing (V (dev_state s0)) x = None"
      "resident (V (dev_state s0)) \<subseteq> reserved (V (dev_state s0))"
    and run: "my_malloc cu (sonar_interp CUDA) sz device s0 = Some (Some a, s')" and g: "0 < g" "as_size sz + g \<le> 2 ^ 64"
  shows "\<exists>arg. py_state s' a = Some \<lparr>ad_handle = (as_size device, round_up (as_size sz) g, a, arg), is_asleep = False\<rparr> \<and>
    awake CUDA cu V g (V (dev_state s0)) s' (as_size device, round_up (as_size sz) g, a, arg)"
proof -
  define i n s where "i = as_size device" and "n = round_up (as_size sz) g" and "s = ensure_context cu i s0"
  note E = ensure_context_ok [OF L, where i = i and s = s0, folded s_def]
  obtain e gran where gr: "granularity cu (base_prop i) (dev_state s) = (e, gran)" by fastforce
  have e0: "e = 0" "error_code s = 0" using run gr by (auto simp: my_malloc_def s_def i_def Let_def split: if_splits)
  have gran: "gran = g" using cu(4) [OF L] gr e0 by blast
  obtain e2 x d where r: "address_reserve cu n 0 0 (dev_state s) = (e2, x, d)" by (metis prod_cases3)
  define s2 where "s2 = s\<lparr>dev_state := d\<rparr>"
  obtain cell s3 where nc: "new_cell s2 = (cell, s3)" by fastforce
  define p where "p = (case cell of None \<Rightarrow> 0 | Some p \<Rightarrow> p)"
  have e2: "e2 = 0" using run gr e0 gran g r
    by (auto simp: my_malloc_def s_def i_def n_def Let_def ensure_def split: if_splits)
  then obtain cb where cb: "malloc_callback s3 = Some cb" using run gr e0 gran g r nc
    by (auto simp: my_malloc_def s_def i_def n_def s2_def Let_def ensure_def split: if_splits option.splits)
  obtain ok s4 where t: "tell_python (sonar_interp CUDA) cb (i, n, x, Handle p) s3 = (ok, s4)" by fastforce
  note T = tell_python_ok [OF t]
  have c: "create_and_map cu i n x p s4 = Some s' \<and> a = x \<and> error_code s' = 0"
    using run gr e0 gran g r nc cb t T e2
    by (auto simp: my_malloc_def s_def i_def n_def s2_def p_def Let_def ensure_def create_tuple_from_c_integers_def split: if_splits option.splits Option.bind_splits)
  note C = create_and_map_ok [OF L conjunct1 [OF c] conjunct2 [OF conjunct2 [OF c]]]
  have d: "dev_state s4 = d" using T nc by (auto simp: s2_def new_cell_def Let_def split: if_splits)
  note R = cu(11) [OF L r [unfolded e2]]
  have "n < 2 ^ 64" using round_up_eq(3) [OF g] g(2) by (simp add: n_def)
  then have "well_placed CUDA V (V (dev_state s0)) s4 (i, n, x, Handle p)"
    using C R clean E(1) by (auto simp: well_placed_def total_size_def d)
  then have "idle CUDA cu V g (V (dev_state s0)) s4 (i, n, x, Handle p)" using L R E(1) by (simp add: idle_def d)
  then have "awake CUDA cu V g (V (dev_state s0)) s' (i, n, a, Handle p)" using up_cuda c by blast
  moreover have "py_state s' a = Some \<lparr>ad_handle = (i, n, a, Handle p), is_asleep = False\<rparr>" using C T c by simp
  ultimately show ?thesis unfolding i_def n_def by blast
qed

text \<open>A run of \<open>malloc_chunks\<close> that returns an address got its cells, told the registry and mapped every chunk.\<close>

lemma malloc_chunks_run:
  assumes rest: "malloc_chunks cu (sonar_interp ROCm) env k i g n x s = Some (Some a, s')"
    and c: "c = round_up (get_memcreate_chunk_size env) g" and nc: "n + c \<le> 2 ^ 64"
  obtains s4 chunks s5 cb s6 where "0 < c" "same s s4" "dev_state s4 = dev_state s" "error_code s4 = error_code s"
    "alloc_chunks n c [0..<(n + c - 1) div c] [] s4 = Some (Some chunks, s5)"
    "tell_python (sonar_interp ROCm) cb (i, n, x, Chunks chunks) s5 = (True, s6)"
    "create_and_map_rocm cu k i n x chunks s6 = Some s'" "error_code s' = 0" "a = x"
proof -
  obtain ok1 s3 ok2 s4 where na: "new_array s = (ok1, s3)" "new_array s3 = (ok2, s4)" by (meson surj_pair)
  define N where "N = (n + c - 1) div c"
  have c0: "0 < c" using rest by (cases "c = 0") (simp_all add: ensure_def malloc_chunks_def c)
  have "n + c + (2 ^ 64 - 1) = (n + c - 1) + 2 ^ 64" using c0 by simp
  then have "wrap64 (n + c + (2 ^ 64 - 1)) = (n + c - 1) mod 2 ^ 64" unfolding wrap64_def by (simp only: mod_add_self2)
  then have N: "wrap64 (n + c + (2 ^ 64 - 1)) div c = N" using c0 nc by (simp add: N_def)
  note rest2 = rest [unfolded malloc_chunks_def c [symmetric] Let_def na prod.case N]
  have ens: "ensure (c \<noteq> 0) = Some ()" "ensure (N = 0 \<or> ok1 \<and> ok2) = Some ()"
    using rest2 by (auto simp: ensure_def split: if_splits)
  note rest3 = rest2 [unfolded ens Option.bind.bind_lunit]
  obtain res s5 where al: "alloc_chunks n c [0..<N] [] s4 = Some (res, s5)" using rest3 by (cases "alloc_chunks n c [0..<N] [] s4") auto
  note rest4 = rest3 [unfolded al Option.bind.bind_lunit prod.case]
  obtain chunks where chunks: "res = Some chunks" using rest4 by (cases res) auto
  obtain cb where cb: "malloc_callback s5 = Some cb" using rest4 chunks by (cases "malloc_callback s5") auto
  obtain ok s6 where t: "tell_python (sonar_interp ROCm) cb (i, n, x, Chunks chunks) s5 = (ok, s6)" by fastforce
  have ok: "ok" using tell_python_ok [OF t] by blast
  have tup: "create_tuple_from_c_mixed i n x (map fst chunks) (map snd chunks) = (i, n, x, Chunks chunks)"
    by (simp add: create_tuple_from_c_mixed_def zip_map_fst_snd)
  note rest5 = rest4 [unfolded chunks cb option.case tup t prod.case]
  have "create_and_map_rocm cu k i n x chunks s6 = Some s'" "error_code s' = 0" "a = x"
    using rest5 ok by (auto split: Option.bind_splits if_splits)
  then show thesis using that [OF c0 _ _ _ al [unfolded N_def chunks] t [unfolded eqTrueI [OF ok]]] new_arrays [OF na] by blast
qed

lemma malloc_chunks_awake:
  assumes L: "cu_laws ROCm cu V g" and clean: "\<forall>y. y \<notin> reserved v0 \<longrightarrow> backing v0 y = None" "resident v0 \<subseteq> reserved v0"
    and rest: "malloc_chunks cu (sonar_interp ROCm) env k i g n x s = Some (Some a, s')"
    and c: "c = round_up (get_memcreate_chunk_size env) g" and nc: "n + c \<le> 2 ^ 64"
    and v0: "V (dev_state s) = v0\<lparr>reserved := reserved v0 \<union> span x n\<rparr>" "x + n \<le> 2 ^ 64" "span x n \<inter> reserved v0 = {}" "error_code s = 0"
  shows "\<exists>arg. py_state s' a = Some \<lparr>ad_handle = (i, n, a, arg), is_asleep = False\<rparr> \<and> awake ROCm cu V g v0 s' (i, n, a, arg)"
proof -
  from malloc_chunks_run [OF rest c nc] obtain s4 chunks s5 cb s6 where c0: "0 < c" and A: "same s s4" "dev_state s4 = dev_state s" "error_code s4 = error_code s"
    and al: "alloc_chunks n c [0..<(n + c - 1) div c] [] s4 = Some (Some chunks, s5)"
    and t: "tell_python (sonar_interp ROCm) cb (i, n, x, Chunks chunks) s5 = (True, s6)"
    and cm: "create_and_map_rocm cu k i n x chunks s6 = Some s'" "error_code s' = 0" "a = x" by blast
  define N where "N = (n + c - 1) div c"
  note B = alloc_chunks_ok [OF al, folded N_def] and T = tell_python_ok [OF t]
  have fsts: "map fst chunks = [Suc (requests s4)..<Suc (requests s4 + N)]" using B by simp
  have "map snd chunks = map (chunk_size n c) [0..<N]" using B by simp
  then have tot: "total_size chunks = n" using chunk_sizes_sum [OF c0 nc] by (simp add: total_size_def N_def)
  have cells: "\<forall>y \<in> set chunks. cells s6 (fst y) \<noteq> None"
  proof
    fix y assume "y \<in> set chunks"
    then have "fst y \<in> set (map fst chunks)" by simp
    then have "fst y \<in> {requests s4<..requests s4 + N}" unfolding fsts by auto
    then show "cells s6 (fst y) \<noteq> None" using B T by simp
  qed
  have v: "V (dev_state s6) = v0\<lparr>reserved := reserved v0 \<union> span x n\<rparr>" and err: "error_code s6 = 0" using T B A v0 by simp_all
  have n: "n < 2 ^ 64" using nc c0 by simp
  then have "well_placed ROCm V v0 s6 (i, n, x, Chunks chunks)" using v0 clean tot cells err v fsts by (simp add: well_placed_def)
  then have "idle ROCm cu V g v0 s6 (i, n, x, Chunks chunks)" using L v by (simp add: idle_def)
  from up_rocm [OF this cm(1,2)] have W: "awake ROCm cu V g v0 s' (i, n, a, Chunks chunks)" using cm(3) by simp
  have "distinct (map fst chunks)" "x + total_size chunks \<le> 2 ^ 64" "total_size chunks < 2 ^ 64" using fsts v0 tot n by simp_all
  from create_and_map_rocm_ok [OF L cm(1,2) this] have "py_state s' = py_state s6" by blast
  then have "py_state s' a = Some \<lparr>ad_handle = (i, n, a, Chunks chunks), is_asleep = False\<rparr>" using T cm(3) by simp
  then show ?thesis using W by blast
qed

text \<open>The chunk size must not make the round-up to the granularity wrap around.\<close>

lemma malloc_rocm:
  assumes L: "cu_laws ROCm cu V g" and clean: "\<forall>x. x \<notin> reserved (V (dev_state s0)) \<longrightarrow> backing (V (dev_state s0)) x = None"
      "resident (V (dev_state s0)) \<subseteq> reserved (V (dev_state s0))"
    and run: "my_malloc_rocm cu (sonar_interp ROCm) env k sz device s0 = Some (Some a, s')" and g: "0 < g" "as_size sz + get_memcreate_chunk_size env + 2 * g \<le> 2 ^ 64"
  shows "\<exists>arg. py_state s' a = Some \<lparr>ad_handle = (as_size device, round_up (as_size sz) g, a, arg), is_asleep = False\<rparr> \<and>
    awake ROCm cu V g (V (dev_state s0)) s' (as_size device, round_up (as_size sz) g, a, arg)"
proof -
  define i n s where "i = as_size device" and "n = round_up (as_size sz) g" and "s = ensure_context cu i s0"
  have nc: "n + round_up (get_memcreate_chunk_size env) g \<le> 2 ^ 64"
    using round_up_eq(3) [OF g(1), of "as_size sz"] round_up_eq(3) [OF g(1), of "get_memcreate_chunk_size env"] g(2) by (simp add: n_def)
  note E = ensure_context_ok [OF L, where i = i and s = s0, folded s_def]
  obtain e gran where gr: "granularity cu (base_prop i) (dev_state s) = (e, gran)" by fastforce
  have e0: "e = 0" "error_code s = 0" using run gr by (auto simp: my_malloc_rocm_def s_def i_def Let_def split: if_splits)
  have gran: "gran = g" using cu(4) [OF L] gr e0 by blast
  obtain e2 x s2 where r: "reserve_rocm_address cu n g 0 s = (e2, x, s2)" by (metis prod_cases3)
  have e2: "e2 = 0" using run gr e0 gran g r by (auto simp: my_malloc_rocm_def s_def i_def n_def Let_def ensure_def split: if_splits)
  note R = reserve_ok [OF L r [unfolded e2]]
  have "malloc_chunks cu (sonar_interp ROCm) env k i g n x s2 = Some (Some a, s')"
    using run gr e0 gran g r e2 R
    by (simp add: my_malloc_rocm_def s_def [symmetric] i_def [symmetric] n_def [symmetric] ensure_def Let_def)
  from malloc_chunks_awake [OF L clean this refl nc] show ?thesis using R E(1) e0(2) unfolding i_def n_def by simp
qed

lemma phase_cong:
  assumes "cells s' = cells s" "dev_state s' = dev_state s" "error_code s' = error_code s"
  shows "awake b cu V g v0 s' h = awake b cu V g v0 s h" "asleep b cu V g v0 s' h = asleep b cu V g v0 s h"
  using assms by (simp_all add: awake_def asleep_def idle_def well_placed_def handles_def)

text \<open>What is left once the physical memory is gone.\<close>

definition emptied :: "('d \<Rightarrow> cu_view) \<Rightarrow> cu_view \<Rightarrow> nat \<Rightarrow> nat \<Rightarrow> ('d, 'c, 'p) cumem \<Rightarrow> bool" where
  "emptied V v0 a n s \<longleftrightarrow> span a n \<inter> reserved v0 = {} \<and> resident v0 \<subseteq> reserved v0 \<and>
     (\<exists>r \<in> {resident v0, resident v0 \<union> span a n}. V (dev_state s) = v0\<lparr>reserved := reserved v0 \<union> span a n, resident := r\<rparr>)"

lemma asleep_emptied: "asleep b cu V g v0 s (i, n, a, arg) \<Longrightarrow> emptied V v0 a n s"
  by (auto simp: asleep_def idle_def well_placed_def emptied_def intro!: cu_view.equality)

lemma unmapped_emptied: "unmapped cu V g v0 s (i, n, a, arg) \<Longrightarrow> emptied V v0 a n s"
  by (auto simp: unmapped_def well_placed_def emptied_def intro!: cu_view.equality)

lemma address_free_restores:
  assumes L: "cu_laws b cu V g" and "emptied V v0 a n s" "error_code (check_drv (address_free cu a n) s) = 0"
  shows "V (dev_state (check_drv (address_free cu a n) s)) = v0"
proof -
  obtain r where r: "r = resident v0 \<or> r = resident v0 \<union> span a n" "V (dev_state s) = v0\<lparr>reserved := reserved v0 \<union> span a n, resident := r\<rparr>"
    and d: "span a n \<inter> reserved v0 = {}" "resident v0 \<subseteq> reserved v0"
    using assms(2) [unfolded emptied_def] by blast
  have "address_free cu a n (dev_state s) = (0, dev_state (check_drv (address_free cu a n) s))" using check_drv_ok [OF assms(3)] by blast
  from cu(13) [OF L this] have "V (dev_state (check_drv (address_free cu a n) s)) = v0\<lparr>reserved := reserved v0 \<union> span a n - span a n, resident := r - span a n\<rparr>"
    using r(2) by simp
  moreover have "reserved v0 \<union> span a n - span a n = reserved v0" "r - span a n = resident v0" using d r(1) by auto
  ultimately show ?thesis by simp
qed

lemma free_cell_fields: "free_cell p s = Some s' \<Longrightarrow> dev_state s' = dev_state s \<and> error_code s' = error_code s \<and> py_state s' = py_state s"
  by (auto simp: free_cell_def split: if_splits)

lemma free_cells_fields: "free_cells ps s = Some s' \<Longrightarrow> dev_state s' = dev_state s \<and> error_code s' = error_code s \<and> py_state s' = py_state s"
  by (induction ps arbitrary: s) (auto dest: free_cell_fields split: Option.bind_splits)

lemma free_cuda:
  assumes ph: "if asl then asleep CUDA cu V g v0 s (i, n, a, arg) else awake CUDA cu V g v0 s (i, n, a, arg)"
    and reg: "py_state s a = Some \<lparr>ad_handle = (i, n, a, arg), is_asleep = asl\<rparr>" and cb: "free_callback s = Some cb"
    and run: "my_free cu (sonar_interp CUDA) a sz device s = Some s'" "as_size sz = n" and ok: "error_code s' = 0"
  shows "V (dev_state s') = v0 \<and> py_state s' a = None"
proof -
  obtain p where arg: "arg = Handle p" using ph by (cases arg) (auto simp: awake_def asleep_def idle_def well_placed_def split: if_splits)
  have L: "cu_laws CUDA cu V g" using ph by (auto simp: awake_def asleep_def idle_def well_placed_def split: if_splits)
  define s1 where "s1 = gil_release ((gil_ensure s)\<lparr>py_state := (py_state s)(a := None)\<rparr>)"
  have f: "cells s1 = cells s" "dev_state s1 = dev_state s" "error_code s1 = error_code s" "py_state s1 = (py_state s)(a := None)"
    by (simp_all add: s1_def gil_release_def gil_ensure_def)
  obtain s2 where u: "unmap_and_release cu (as_size device) n a p s1 = Some s2" "free_cell p (check_drv (address_free cu a n) s2) = Some s'"
    using run cb reg
    by (auto simp: my_free_def sonar_interp_def python_free_callback_def arg s1_def gil_ensure_def split: Option.bind_splits)
  note F = free_cell_fields [OF u(2)]
  have z: "error_code (check_drv (address_free cu a n) s2) = 0" using F ok by simp
  note k = check_drv_ok [OF z]
  have "emptied V v0 a n s2"
  proof (cases asl)
    case False
    then have "awake CUDA cu V g v0 s1 (i, n, a, Handle p)" using ph phase_cong(1) [OF f(1-3)] arg by simp
    then have "asleep CUDA cu V g v0 s2 (i, n, a, Handle p)" using u(1) by (rule down_cuda) (simp add: k)
    then show ?thesis by (rule asleep_emptied)
  next
    case True
    then have S: "asleep CUDA cu V g v0 s1 (i, n, a, Handle p)" using ph phase_cong(2) [OF f(1-3)] arg by simp
    from unmap_and_release_ok [OF L u(1) conjunct1 [OF k]] obtain h where h: "cells s1 p = Some h"
      "V (dev_state s2) = (V (dev_state s1))\<lparr>live := live (V (dev_state s1)) - {h}, backing := set_span a n None (backing (V (dev_state s1))),
        resident := resident (V (dev_state s1)) - span a n\<rparr>" by blast
    have "h \<notin> live v0" using S h(1) by (simp add: asleep_def handles_def)
    moreover have "set_span a n None (backing v0) = backing v0" using S clean_restore(2) unfolding asleep_def idle_def by blast
    moreover have W: "well_placed CUDA V v0 s1 (i, n, a, Handle p)" using S by (simp add: asleep_def idle_def)
    ultimately have "V (dev_state s2) = v0\<lparr>reserved := reserved v0 \<union> span a n\<rparr>"
      using h(2) S not_resident(2) [OF W] by (auto simp: asleep_def idle_def well_placed_def intro!: cu_view.equality)
    then show ?thesis using W by (simp add: emptied_def well_placed_def)
  qed
  from address_free_restores [OF L this z] have "V (dev_state s') = v0" using F by simp
  moreover have "py_state s2 = py_state s1" using unmap_and_release_ok [OF L u(1)] k by (auto simp: same_def)
  ultimately show ?thesis using F k f(4) by simp
qed

lemma free_rocm:
  assumes ph: "if asl then asleep ROCm cu V g v0 s (i, n, a, arg) else awake ROCm cu V g v0 s (i, n, a, arg)"
    and reg: "py_state s a = Some \<lparr>ad_handle = (i, n, a, arg), is_asleep = asl\<rparr>" and cb: "free_callback s = Some cb"
    and run: "my_free_rocm cu (sonar_interp ROCm) a sz device s = Some s'" "as_size sz = n" and ok: "error_code s' = 0"
    and mem: "\<forall>q. malloc_ok s q"
  shows "V (dev_state s') = v0 \<and> py_state s' a = None"
proof -
  obtain cs where arg: "arg = Chunks cs" using ph by (cases arg) (auto simp: awake_def asleep_def idle_def well_placed_def split: if_splits)
  have L: "cu_laws ROCm cu V g" using ph by (auto simp: awake_def asleep_def idle_def well_placed_def split: if_splits)
  define cs' where "cs' = (if asl then [] else cs)"
  define s0 where "s0 = (gil_ensure s)\<lparr>py_state := (py_state s)(a := None)\<rparr>"
  obtain ok1 t1 ok2 t2 where na: "new_array s0 = (ok1, t1)" "new_array t1 = (ok2, t2)" by (meson surj_pair)
  then have oks: "ok1" "ok2" using mem by (auto simp: new_array_def s0_def gil_ensure_def)
  define s1 where "s1 = gil_release t2"
  have f: "cells s1 = cells s" "dev_state s1 = dev_state s" "error_code s1 = error_code s" "py_state s1 = (py_state s)(a := None)"
    using new_arrays [OF na] by (simp_all add: s1_def s0_def gil_release_def gil_ensure_def same_def)
  obtain s2 where u: "(if cs' \<noteq> [] then unmap_and_release_rocm cu (as_size device) n a cs' s1 else Some s1) = Some s2"
    and fc: "free_cells (map fst cs') (check_drv (address_free cu a n) s2) = Some s'"
    using run cb reg na oks
    by (cases asl) (auto simp: my_free_rocm_def sonar_interp_def python_free_callback_def arg s1_def s0_def gil_ensure_def cs'_def Let_def split: Option.bind_splits if_splits)
  note F = free_cells_fields [OF fc]
  have z: "error_code (check_drv (address_free cu a n) s2) = 0" using F ok by simp
  note k = check_drv_ok [OF z]
  have e: "emptied V v0 a n s2 \<and> py_state s2 = py_state s1"
  proof (cases asl)
    case True
    then have "asleep ROCm cu V g v0 s1 (i, n, a, arg)" using ph phase_cong(2) [OF f(1-3)] by simp
    then show ?thesis using asleep_emptied u True by (auto simp: cs'_def)
  next
    case False
    then have W: "awake ROCm cu V g v0 s1 (i, n, a, Chunks cs)" using ph phase_cong(1) [OF f(1-3)] arg by simp
    show ?thesis
    proof (cases "cs = []")
      case True
      then have "s2 = s1" using u False by (simp add: cs'_def)
      then show ?thesis using W True by (auto simp: awake_def well_placed_def emptied_def handles_def intro!: cu_view.equality)
    next
      case cs: False
      then have u': "unmap_and_release_rocm cu (as_size device) n a cs s1 = Some s2" using u False by (simp add: cs'_def)
      have "a + total_size cs \<le> 2 ^ 64" "total_size cs < 2 ^ 64" using W by (simp_all add: awake_def well_placed_def)
      then have "py_state s2 = py_state s1" using unmap_and_release_rocm_ok [OF L u'] k by (simp add: same_def)
      moreover have "unmapped cu V g v0 s2 (i, n, a, Chunks cs)" using W u' by (rule down_rocm) (simp add: k)
      ultimately show ?thesis using unmapped_emptied by simp
    qed
  qed
  from address_free_restores [OF L conjunct1 [OF e] z] have "V (dev_state s') = v0" using F by simp
  then show ?thesis using F k f(4) e by simp
qed

section \<open>The life of an allocation\<close>

text \<open>What the driver holds for an allocation of \<open>n\<close> bytes at \<open>ptr\<close>, besides what it held before: when awake, one live handle per piece, each
  backing exactly its own part of the range; when asleep, only the reserved addresses.\<close>

definition holds_memory :: "cu_view \<Rightarrow> cu_view \<Rightarrow> nat \<Rightarrow> nat \<Rightarrow> (nat \<times> nat) list \<Rightarrow> nat list \<Rightarrow> bool" where
  "holds_memory v0 v ptr n cs hs \<longleftrightarrow>
     total_size cs = n \<and> length hs = length cs \<and> distinct hs \<and> set hs \<inter> live v0 = {} \<and> live v = live v0 \<union> set hs \<and>
     (\<forall>j < length cs. \<forall>x \<in> span (ptr + total_size (take j cs)) (snd (cs ! j)). backing v x = Some (hs ! j)) \<and>
     (\<forall>x. x \<notin> span ptr n \<longrightarrow> backing v x = backing v0 x) \<and> resident v = resident v0 \<union> span ptr n"

lemma malloc_phase:
  assumes L: "cu_laws b cu V g" and g: "0 < g" "as_size sz + get_memcreate_chunk_size env + 2 * g \<le> 2 ^ 64"
    and clean: "\<forall>x. x \<notin> reserved (V (dev_state s0)) \<longrightarrow> backing (V (dev_state s0)) x = None"
      "resident (V (dev_state s0)) \<subseteq> reserved (V (dev_state s0))"
    and alloc: "malloc_op b cu env k sz device s0 = Some (Some ptr, s1)"
  shows "\<exists>arg. py_state s1 ptr = Some \<lparr>ad_handle = (as_size device, round_up (as_size sz) g, ptr, arg), is_asleep = False\<rparr> \<and>
    awake b cu V g (V (dev_state s0)) s1 (as_size device, round_up (as_size sz) g, ptr, arg)"
proof (cases b)
  case CUDA
  then have "my_malloc cu (sonar_interp CUDA) sz device s0 = Some (Some ptr, s1)" using alloc by (simp add: malloc_op_def)
  then show ?thesis unfolding CUDA by (rule malloc_cuda [OF L [unfolded CUDA] clean]) (use g in simp_all)
next
  case ROCm
  then have "my_malloc_rocm cu (sonar_interp ROCm) env k sz device s0 = Some (Some ptr, s1)" using alloc by (simp add: malloc_op_def)
  then show ?thesis unfolding ROCm by (rule malloc_rocm [OF L [unfolded ROCm] clean]) (use g in simp_all)
qed

lemma multiple_kept: "0 < g \<Longrightarrow> g dvd m \<Longrightarrow> m \<le> n \<Longrightarrow> n < m + g \<Longrightarrow> g dvd n \<Longrightarrow> n = (m :: nat)"
  by (metis add.commute add_less_cancel_right dvd_diff_nat le_add_diff_inverse2 nat_dvd_not_less neq0_conv add_0)

lemma awake_holds:
  assumes "awake b cu V g v0 s (i, n, a, arg)"
  shows "holds_memory v0 (V (dev_state s)) a n (pieces (i, n, a, arg)) (handles s (pieces (i, n, a, arg)))"
proof -
  define cs where "cs = pieces (i, n, a, arg)"
  have tot: "total_size cs = n" and b: "backing (V (dev_state s)) = layout a cs (cells s) (backing v0)" and c: "\<forall>c \<in> set cs. cells s (fst c) \<noteq> None"
    using assms by (auto simp: awake_def well_placed_def cs_def)
  have "backing (V (dev_state s)) x = Some (handles s cs ! j)" if "j < length cs" "x \<in> span (a + total_size (take j cs)) (snd (cs ! j))" for j x
    using layout_at [OF that] c nth_mem [OF that(1)] that(1) by (auto simp: b handles_def)
  moreover have "backing (V (dev_state s)) x = backing v0 x" if "x \<notin> span a n" for x using layout_out [of x a cs] that tot by (simp add: b)
  ultimately show ?thesis using assms tot unfolding holds_memory_def cs_def [symmetric] by (auto simp: awake_def cs_def [symmetric] handles_def)
qed

text \<open>C7. In both builds, an address that \<open>my_malloc\<close> returns stays reserved and belongs to nobody else through any number of sleeps and wakes
  that raise no error.  The range has the requested size rounded up to the granularity.  While it is awake, its pieces cover the
  range exactly, each backed by a live handle of its own, and nothing outside the range has changed; while it is asleep, the handles are
  released and no physical memory of the range is resident, which on ROCm takes the freeing of the addresses and their immediate
  reservation.  Freeing it in either phase without an error, with the size that was asked for and if this is a multiple of the granularity,
  brings the driver back to the state before the allocation.\<close>

theorem sleep_wake_free:
  assumes L: "cu_laws b cu V g" and g: "0 < g" "as_size sz + get_memcreate_chunk_size env + 2 * g \<le> 2 ^ 64"
    and clean: "\<forall>x. x \<notin> reserved (V (dev_state s0)) \<longrightarrow> backing (V (dev_state s0)) x = None"
      "resident (V (dev_state s0)) \<subseteq> reserved (V (dev_state s0))"
    and alloc: "malloc_op b cu env k sz device s0 = Some (Some ptr, s1)"
    and run: "sleep_cycle (unmap_op b cu) (remap_op b cu k) ptr s1 s"
  shows "\<exists>n arg a. py_state s ptr = Some \<lparr>ad_handle = (as_size device, n, ptr, arg), is_asleep = a\<rparr> \<and> as_size sz \<le> n \<and> n < as_size sz + g \<and> g dvd n \<and>
    span ptr n \<inter> reserved (V (dev_state s0)) = {} \<and> reserved (V (dev_state s)) = reserved (V (dev_state s0)) \<union> span ptr n \<and>
    (if a then live (V (dev_state s)) = live (V (dev_state s0)) \<and> backing (V (dev_state s)) = backing (V (dev_state s0)) \<and>
       resident (V (dev_state s)) = resident (V (dev_state s0))
     else holds_memory (V (dev_state s0)) (V (dev_state s)) ptr n (pieces (as_size device, n, ptr, arg)) (handles s (pieces (as_size device, n, ptr, arg)))) \<and>
    (\<forall>cb s'. free_callback s = Some cb \<longrightarrow> (\<forall>q. malloc_ok s q) \<longrightarrow> g dvd as_size sz \<longrightarrow> free_op b cu ptr sz device s = Some s' \<longrightarrow> error_code s' = 0 \<longrightarrow>
       V (dev_state s') = V (dev_state s0) \<and> py_state s' ptr = None)"
proof -
  define n where "n = round_up (as_size sz) g"
  have g2: "as_size sz + g \<le> 2 ^ 64" using g by simp
  obtain arg where reg: "py_state s1 ptr = Some \<lparr>ad_handle = (as_size device, n, ptr, arg), is_asleep = False\<rparr>"
    and W: "awake b cu V g (V (dev_state s0)) s1 (as_size device, n, ptr, arg)"
    using malloc_phase [OF L g clean alloc] unfolding n_def by blast
  from cumem_sleep.cycle_phase [OF run reg W] obtain a where a: "py_state s ptr = Some \<lparr>ad_handle = (as_size device, n, ptr, arg), is_asleep = a\<rparr>"
    and ph: "if a then asleep b cu V g (V (dev_state s0)) s (as_size device, n, ptr, arg) else awake b cu V g (V (dev_state s0)) s (as_size device, n, ptr, arg)" by blast
  have sz: "as_size sz \<le> n" "n < as_size sz + g" "g dvd n" using round_up_eq [OF g(1) g2] by (simp_all add: n_def)
  have res: "span ptr n \<inter> reserved (V (dev_state s0)) = {}" "reserved (V (dev_state s)) = reserved (V (dev_state s0)) \<union> span ptr n"
    using ph by (auto simp: awake_def asleep_def idle_def well_placed_def split: if_splits)
  have mem: "if a then live (V (dev_state s)) = live (V (dev_state s0)) \<and> backing (V (dev_state s)) = backing (V (dev_state s0)) \<and>
       resident (V (dev_state s)) = resident (V (dev_state s0))
     else holds_memory (V (dev_state s0)) (V (dev_state s)) ptr n (pieces (as_size device, n, ptr, arg)) (handles s (pieces (as_size device, n, ptr, arg)))"
    using ph awake_holds by (auto simp: asleep_def idle_def split: if_splits)
  have free: "V (dev_state s') = V (dev_state s0) \<and> py_state s' ptr = None"
    if "free_callback s = Some cb" "\<forall>q. malloc_ok s q" "g dvd as_size sz" "free_op b cu ptr sz device s = Some s'" "error_code s' = 0" for cb s'
  proof -
    have n: "as_size sz = n" using multiple_kept [OF g(1) that(3) sz] by simp
    show ?thesis
    proof (cases b)
      case CUDA
      then show ?thesis using free_cuda [OF ph [unfolded CUDA] a that(1) _ n that(5)] that(4) by (simp add: free_op_def)
    next
      case ROCm
      then show ?thesis using free_rocm [OF ph [unfolded ROCm] a that(1) _ n that(5,2)] that(4) by (simp add: free_op_def)
    qed
  qed
  show ?thesis using a sz res mem free by blast
qed

section \<open>Error paths\<close>

text \<open>An error code stays: while it is set, nothing can be allocated.\<close>

lemma ensure_context_sticky: "error_code s \<noteq> 0 \<Longrightarrow> error_code (ensure_context cu i s) \<noteq> 0"
  by (auto simp: ensure_context_def check_drv_def drv_def cuda_check_def Let_def split: prod.splits)

lemma my_malloc_sticky:
  assumes "error_code s \<noteq> 0"
  shows "\<exists>s'. my_malloc cu it sz device s = Some (None, s')" "\<exists>s'. my_malloc_rocm cu it env k sz device s = Some (None, s')"
  using ensure_context_sticky [OF assms, of cu "as_size device"]
  by (auto simp: my_malloc_def my_malloc_rocm_def cuda_check_def Let_def split: prod.splits)

text \<open>The interpreter lock is not given back when the free callback does not return a tuple.\<close>

lemma my_free_keeps_gil:
  assumes "free_callback s = Some cb" "call_free it cb ptr (py_state s) = (Not_a_tuple, py)"
  shows "map_option gil (my_free cu it ptr sz device s) = Some (gil s + 1)" "map_option gil (my_free_rocm cu it ptr sz device s) = Some (gil s + 1)"
  using assms by (simp_all add: my_free_def my_free_rocm_def gil_ensure_def Let_def)

text \<open>A chunk size close to \<open>2 ^ 64\<close> bytes passes the overflow test and is rounded up to zero, after which \<open>my_malloc\<close> divides by zero.\<close>

lemma chunk_size_wraps:
  "get_memcreate_chunk_size (Some ''17592186044415'') = 17592186044415 * 1024 * 1024" "round_up (17592186044415 * 1024 * 1024) 0x200000 = 0"
  "round_up (get_memcreate_chunk_size env) gran = 0 \<Longrightarrow> malloc_chunks cu it env k i gran n a s = None"
proof -
  show "get_memcreate_chunk_size (Some ''17592186044415'') = 17592186044415 * 1024 * 1024"
    by (simp add: get_memcreate_chunk_size_def strtoull_def base_and_digits_def is_space_def digit_value_def Let_def wrap64_def)
  show "round_up (17592186044415 * 1024 * 1024) 0x200000 = 0" by (simp add: round_up_def wrap64_def)
  show "round_up (get_memcreate_chunk_size env) gran = 0 \<Longrightarrow> malloc_chunks cu it env k i gran n a s = None" by (simp add: malloc_chunks_def ensure_def)
qed

section \<open>An instance\<close>

text \<open>A driver that grants every request that is sound: it counts up the handles and the addresses.\<close>

definition demo_cu :: "(nat \<times> nat \<times> cu_view) cu" where
  "demo_cu = \<lparr>ctx_get_current = (\<lambda>d. (0, 1, d)), ctx_retain = (\<lambda>_ d. (0, 1, d)), ctx_set_current = (\<lambda>_ d. (0, d)),
     device_attribute = (\<lambda>_ _ _. (0, 0)), granularity = (\<lambda>_ _. (0, 0x200000)),
     mem_create = (\<lambda>_ _ (h, a, v). if h \<in> live v then (2, 0, (h, a, v)) else (0, h, (h + 1, a, v\<lparr>live := insert h (live v)\<rparr>))),
     mem_release = (\<lambda>x (h, a, v). (0, (h, a, v\<lparr>live := live v - {x}\<rparr>))),
     mem_map = (\<lambda>x n y (h, a, v). (0, (h, a, v\<lparr>backing := set_span x n (Some y) (backing v), resident := resident v \<union> span x n\<rparr>))),
     mem_unmap = (\<lambda>x n (h, a, v). (0, (h, a, v\<lparr>backing := set_span x n None (backing v)\<rparr>))),
     mem_set_access = (\<lambda>_ _ _ _ d. (0, d)),
     address_reserve = (\<lambda>n _ x (h, a, v). let p = (if x = 0 then a else x) in
        if p + n \<le> 2 ^ 64 \<and> span p n \<inter> reserved v = {} then (0, p, (h, a + n, v\<lparr>reserved := reserved v \<union> span p n\<rparr>)) else (2, 0, (h, a, v))),
     address_free = (\<lambda>x n (h, a, v). (0, (h, a, v\<lparr>reserved := reserved v - span x n, resident := resident v - span x n\<rparr>)))\<rparr>"

definition empty_view :: cu_view where
  "empty_view = \<lparr>live = {}, reserved = {}, backing = (\<lambda>_. None), resident = {}\<rparr>"

definition demo_cumem :: "(nat \<times> nat \<times> cu_view, unit) state" where
  "demo_cumem = \<lparr>dev_state = (1, 0x10000000, empty_view), py_state = (\<lambda>_. None), error_code = 0, error_msg = No_message,
     malloc_callback = Some (), free_callback = Some (), cells = (\<lambda>_. None), requests = 0, malloc_ok = (\<lambda>_. True), gil = 0\<rparr>"

lemma demo_laws: "cu_laws ROCm demo_cu (\<lambda>d. snd (snd d)) 0x200000"
  unfolding cu_laws_def demo_cu_def by (auto simp: Let_def split: if_splits prod.splits)

text \<open>An allocation of 3 MB, with the default chunk size of 256 MB.\<close>

lemma demo_malloc: "\<exists>s. malloc_op ROCm demo_cu None 2 0x300000 0 demo_cumem = Some (Some 0x10000000, s) \<and>
   py_state s = [0x10000000 \<mapsto> \<lparr>ad_handle = (0, 0x400000, 0x10000000, Chunks [(3, 0x400000)]), is_asleep = False\<rparr>] \<and> cells s = [3 \<mapsto> 1] \<and>
   dev_state s = (2, 0x10400000, \<lparr>live = {1}, reserved = span 0x10000000 0x400000, backing = set_span 0x10000000 0x400000 (Some 1) (\<lambda>_. None),
     resident = span 0x10000000 0x400000\<rparr>) \<and>
   error_code s = 0 \<and> malloc_ok s = (\<lambda>_. True) \<and> free_callback s = Some () \<and> requests s = 3"
  by (simp add: malloc_op_def my_malloc_rocm_def malloc_chunks_def demo_cu_def demo_cumem_def empty_view_def ensure_context_def cuda_check_def ensure_def
      as_size_def round_up_def wrap64_def reserve_rocm_address_def get_memcreate_chunk_size_def DEFAULT_MEMCREATE_CHUNK_SIZE_def new_array_def new_cell_def
      my_min_def tell_python_def sonar_interp_def python_malloc_callback_def gil_ensure_def gil_release_def create_tuple_from_c_mixed_def
      create_and_map_rocm_def create_into_def store_cell_def load_cell_def check_drv_def drv_def Let_def) (simp add: numeral_3_eq_3)

lemma demo_sleep:
  assumes "py_state s = [0x10000000 \<mapsto> \<lparr>ad_handle = (0, 0x400000, 0x10000000, Chunks [(3, 0x400000)]), is_asleep = False\<rparr>]" "cells s = [3 \<mapsto> 1]"
    "dev_state s = (2, 0x10400000, \<lparr>live = {1}, reserved = span 0x10000000 0x400000, backing = set_span 0x10000000 0x400000 (Some 1) (\<lambda>_. None),
     resident = span 0x10000000 0x400000\<rparr>)"
    "error_code s = 0" "malloc_ok s = (\<lambda>_. True)"
  shows "\<exists>s'. put_to_sleep (unmap_op ROCm demo_cu) 0x10000000 s = Some (None, s') \<and>
    py_state s' 0x10000000 = Some \<lparr>ad_handle = (0, 0x400000, 0x10000000, Chunks [(3, 0x400000)]), is_asleep = True\<rparr>"
  using assms
  by (simp add: put_to_sleep_def unmap_op_def python_unmap_and_release_rocm_def unmap_and_release_rocm_def demo_cu_def ensure_context_def cuda_check_def
      new_array_def drv_def load_cell_def keep_first_def wrap64_def re_reserve_def check_drv_def reserve_rocm_address_def raise_error_def Let_def)

theorem sleep_wake_free_witness:
  "\<exists>s1 s. malloc_op ROCm demo_cu None 2 0x300000 0 demo_cumem = Some (Some 0x10000000, s1) \<and>
     sleep_cycle (unmap_op ROCm demo_cu) (remap_op ROCm demo_cu 2) 0x10000000 s1 s \<and>
     live (snd (snd (dev_state s))) = {} \<and> resident (snd (snd (dev_state s))) = {} \<and> reserved (snd (snd (dev_state s))) = span 0x10000000 0x400000"
proof -
  obtain s1 where m: "malloc_op ROCm demo_cu None 2 0x300000 0 demo_cumem = Some (Some 0x10000000, s1)"
    and f: "py_state s1 = [0x10000000 \<mapsto> \<lparr>ad_handle = (0, 0x400000, 0x10000000, Chunks [(3, 0x400000)]), is_asleep = False\<rparr>]" "cells s1 = [3 \<mapsto> 1]"
      "dev_state s1 = (2, 0x10400000, \<lparr>live = {1}, reserved = span 0x10000000 0x400000, backing = set_span 0x10000000 0x400000 (Some 1) (\<lambda>_. None),
     resident = span 0x10000000 0x400000\<rparr>)"
      "error_code s1 = 0" "malloc_ok s1 = (\<lambda>_. True)"
    using demo_malloc by blast
  obtain s where p: "put_to_sleep (unmap_op ROCm demo_cu) 0x10000000 s1 = Some (None, s)"
    and r: "py_state s 0x10000000 = Some \<lparr>ad_handle = (0, 0x400000, 0x10000000, Chunks [(3, 0x400000)]), is_asleep = True\<rparr>" using demo_sleep [OF f] by blast
  have d: "py_state s1 0x10000000 = Some \<lparr>ad_handle = (0, 0x400000, 0x10000000, Chunks [(3, 0x400000)]), is_asleep = False\<rparr>" by (simp add: f)
  have c: "sleep_cycle (unmap_op ROCm demo_cu) (remap_op ROCm demo_cu 2) 0x10000000 s1 s"
    by (rule sleep_cycle.Sleep [OF sleep_cycle.Start d _ p]) simp
  have hyps: "as_size 0x300000 + get_memcreate_chunk_size None + 2 * 0x200000 \<le> 2 ^ 64" "snd (snd (dev_state demo_cumem)) = empty_view"
    by (simp_all add: as_size_def get_memcreate_chunk_size_def DEFAULT_MEMCREATE_CHUNK_SIZE_def demo_cumem_def)
  have "live (snd (snd (dev_state s))) = {} \<and> resident (snd (snd (dev_state s))) = {} \<and> reserved (snd (snd (dev_state s))) = span 0x10000000 0x400000"
    using sleep_wake_free [OF demo_laws _ hyps(1) _ _ m c] r hyps(2) by (auto simp: empty_view_def)
  then show ?thesis using m c by blast
qed

end
