(* ===== verification/Spec2Isabelle.thy ===== *)
theory Spec2Isabelle
  imports Phrase_Matcher Proof_Receipt Scalar_Type Batch_Tokens Spec_Steps Dry Vmm_Allocator Fs_Io Float_Convert Spinloop Cumem_Cycle
begin

text \<open>
  A verification library for the native core of Sonar, an inference server for language models.  The files under \<open>src/csrc\<close> that hold
  logic rather than numerical kernels are modelled as executable functions, and their properties are proved.

  \<^bold>\<open>The parts and how they meet.\<close>  A model runner keeps one row of state per request and a paged cache of keys and values.  Before each
  forward pass the input kernels turn the schedule into token ids, positions and cache slots; after it the sampling kernels accept or
  reject draft tokens and write the result back.  The cache lives in virtual memory that an allocator backs with physical pages on
  demand; weights live in allocations that can be put to sleep; cache blocks are also stored in files.  Output text is scanned for stop
  phrases as it is produced.  A worker can prove which weights it serves by sealing hashes of random windows of them in a receipt.

  \<^bold>\<open>Shared theories.\<close>
  \<^item> \<open>Prelude\<close>: machine integers, buffers with bounds-checked access, counted loops, and the total-correctness predicate \<open>yields\<close> with its
    rules (\<open>yields_intros\<close>).
  \<^item> \<open>Bytes\<close>: big- and little-endian byte strings.
  \<^item> \<open>Kernels\<close>: tensors with strides, checked 32- and 64-bit arithmetic, offset arrays and their segments, stores of several buffers,
    OpenMP loops whose iterations run in any order, and the rules for loops that write disjoint regions.
  \<^item> \<open>Float32\<close>: IEEE binary32 bit patterns with correctly rounded operations; \<open>Float64\<close>: rounding to 53 bits, which is monotone.

  \<^bold>\<open>Components.\<close>  Each theory follows the order of its source file and uses its names.
  \<^item> \<open>Phrase_Matcher\<close> (\<open>phrase_matcher.cpp\<close>): \<open>Automaton\<close> with \<open>add\<close>, \<open>finish\<close> and \<open>advance\<close>, and the Python functions \<open>compile\<close> and \<open>scan\<close>.  The
    breadth-first construction gives each state its longest proper suffix; a scan in chunks reports the earliest start of a phrase.
  \<^item> \<open>Cbor\<close> (\<open>proof/canonical_cbor.cpp\<close>): the encoder; a decoder written for the proof inverts it on exactly the canonical encodings.
  \<^item> \<open>Sha256\<close>, \<open>Crypto\<close> (\<open>proof/crypto.cpp\<close>): the streaming hash refines FIPS 180-4 (locale \<open>streaming_hash\<close>), and HMAC and HKDF rest on that
    contract; the authenticated encryption, base64, key parsing and the random source.
  \<^item> \<open>Proof_Receipt\<close> (\<open>proof/proof.cpp\<close>): the tensor registry, the windows and \<open>dphn_prove_v2\<close>; a receipt opens to the payload under the
    gateway's key, and is bound to its request.
  \<^item> \<open>Scalar_Type\<close> (\<open>core/scalar_type.hpp\<close>): packed identifiers and extreme values of sub-byte types.
  \<^item> \<open>Block_Table\<close> (\<open>cpu/block_table.cpp\<close>), \<open>Input_Batch\<close> and \<open>Batch_Tokens\<close> (\<open>cpu/input_batch.cpp\<close>): the input kernels and the update after a
    step, which refines an abstract record per request.
  \<^item> \<open>Spec_Decode\<close>, \<open>Spec_Inputs\<close>, \<open>Spec_Steps\<close> (\<open>cpu/spec_decode_utils.cpp\<close>): greedy and random rejection sampling (two instances of the locale
    \<open>rejection_sampler\<close>), recovered tokens, and the inputs of the draft models.
  \<^item> \<open>Dry\<close> (\<open>cpu/dry.cpp\<close>): the repetition scan, against a specification by repeated substrings.
  \<^item> \<open>Vmm\<close>, \<open>Vmm_Safety\<close>, \<open>Vmm_Allocator\<close> (\<open>vmm/\<close>): pages, tensors over reserved addresses and the allocator, as a state machine with one step per
    public operation; its invariant ties the page tables to the driver.  A build with \<open>NDEBUG\<close>, where assertions are off, is a flag of the model.
  \<^item> \<open>Cumem\<close>, \<open>Cumem_Cycle\<close> (\<open>cumem_allocator.cpp\<close>, and the registry in \<open>src/sonar/device_allocator/cumem.py\<close>): the allocations that can
    sleep, for the CUDA and the ROCm build; both provide the contract of the locale \<open>sleepable\<close>.  On ROCm unmapped memory stays resident
    until its addresses are freed, which is why a sleep frees and reserves them again.
  \<^item> \<open>Fs_Io\<close> (\<open>fs_io.cpp\<close>): block files, one system call per step, so that processes interleave, any call may fail, and a read or
    write may be short.
  \<^item> \<open>Float_Convert\<close> (\<open>cpu/float_convert.hpp\<close>): conversions between binary32 and the 16-bit formats.
  \<^item> \<open>Spinloop\<close> (\<open>spinloop.cpp\<close>): waiting for a store with a callback, a clock and hardware waits.
  \<^item> This theory: one step of the CPU runner, the position kernel followed by the slot kernel.

  \<^bold>\<open>State, errors and undefined behaviour.\<close>  A class is a record, an exception or an error code a value of a sum or of a status type, and undefined
  behaviour (an access out of bounds, signed overflow, a double free, a division by zero) is \<open>None\<close>.  A theorem that an operation
  returns \<open>Some\<close> therefore says that it is safe.

  \<^bold>\<open>Parameters.\<close>  Code outside the repository is an argument with its documented behaviour as a named hypothesis, and every theorem with one has
  an instance: the CUDA and HIP driver (\<open>driver_laws\<close>, \<open>cu_laws\<close>), Monocypher and BLAKE3, the random source of the kernel, the clock
  (\<open>time_passes\<close>, \<open>steady\<close>), the order of a hash table, Python callbacks.

  \<^bold>\<open>Loops.\<close>  A loop that may not end is a \<open>partial_function\<close>, and it is proved to return: \<open>advance\<close> and \<open>finish\<close> of the phrase matcher, the padding loop of
  SHA-256, the random source, the normalisation of a half, and the spin wait, which ends after the timeout rounded up plus one second,
  times the number of units of time between two ticks of the clock, and at most fifteen waits more.  Nothing that models the program uses fuel; the decoder that \<open>Cbor\<close> adds for its
  proofs has fuel for the nesting depth, the length of the input, which each level uses up at least in part.

  \<^bold>\<open>Not modelled.\<close>
  \<^item> GPU kernels (CUDA, ROCm, Metal, XQA, CUTLASS, quantisation, experts, collectives): they need the execution and memory model of the
    device, and their contract is a numerical tolerance that the sources do not state.
  \<^item> CPU attention, matrix multiplication, normalisation, activation and sampling kernels: vector code over transcendental functions or
    external libraries.
  \<^item> \<open>cpu/shm.cpp\<close>: synchronisation of processes through volatile flags, which depends on the ordering of the hardware.
  \<^item> Registration tables, thread binding, and the Python and Rust layers around the core, but for the registry named above.
  \<^item> In the modelled files: log output, reference counts of Python objects, and failures of the allocation of Python objects.
\<close>

section \<open>One step over a batch\<close>

text \<open>What the slots of a step must be: each token has the slot of its own position, no slot is given twice, and none is the slot of a position that is
  already computed.\<close>

definition step_slots_spec :: "int tensor2 \<Rightarrow> int \<Rightarrow> int list \<Rightarrow> int list \<Rightarrow> int list \<Rightarrow> int list \<Rightarrow> bool" where
  "step_slots_spec block_table block_size idx_mapping query_start_loc num_computed_tokens slots \<longleftrightarrow>
     (let n = int (length idx_mapping); tokens = {Prelude.at query_start_loc 0..<Prelude.at query_start_loc n};
          start = (\<lambda>b. Prelude.at num_computed_tokens (Prelude.at idx_mapping b)) in
      (\<forall>b \<in> {0..<n}. \<forall>t \<in> segment query_start_loc b.
         Prelude.at slots t = slot_value block_table block_size (Prelude.at idx_mapping b) (start b + (t - Prelude.at query_start_loc b))) \<and>
      inj_on (Prelude.at slots) tokens \<and>
      (\<forall>b \<in> {0..<n}. \<forall>p \<in> {0..<start b}. \<forall>t \<in> tokens. Prelude.at slots t \<noteq> slot_value block_table block_size (Prelude.at idx_mapping b) p))"

text \<open>The entries of the block table that hold the positions from \<open>first b\<close> up to the last scheduled one of each request \<open>b\<close> of the batch: with
  the number of computed tokens for \<open>first\<close> the entries that the step writes, with zero all entries that the requests use.\<close>

definition step_entries :: "int list \<Rightarrow> int list \<Rightarrow> int list \<Rightarrow> int \<Rightarrow> (int \<Rightarrow> int) \<Rightarrow> (int \<times> int) set" where
  "step_entries idx_mapping query_start_loc num_computed_tokens block_size first =
     (\<Union>b \<in> {0..<int (length idx_mapping)}.
        (\<lambda>p. (Prelude.at idx_mapping b, p div block_size)) ` {first b..<Prelude.at num_computed_tokens (Prelude.at idx_mapping b) +
          (Prelude.at query_start_loc (b + 1) - Prelude.at query_start_loc b)})"

text \<open>The blocks that a step writes belong to one entry of one request: no entry that a request of the batch uses names them a second time.
  Blocks with positions that are already computed may be shared between requests.\<close>

definition owns_written_blocks :: "int tensor2 \<Rightarrow> int \<Rightarrow> int list \<Rightarrow> int list \<Rightarrow> int list \<Rightarrow> bool" where
  "owns_written_blocks block_table block_size idx_mapping query_start_loc num_computed_tokens \<longleftrightarrow>
     private_blocks block_table
       (step_entries idx_mapping query_start_loc num_computed_tokens block_size
         (\<lambda>b. Prelude.at num_computed_tokens (Prelude.at idx_mapping b)))
       (step_entries idx_mapping query_start_loc num_computed_tokens block_size (\<lambda>b. 0))"

lemma step_entriesI:
  "b \<in> {0..<int (length idx_mapping)} \<Longrightarrow> first b \<le> p \<Longrightarrow>
    p < Prelude.at num_computed_tokens (Prelude.at idx_mapping b) + (Prelude.at query_start_loc (b + 1) - Prelude.at query_start_loc b) \<Longrightarrow>
    (Prelude.at idx_mapping b, p div bs) \<in> step_entries idx_mapping query_start_loc num_computed_tokens bs first"
  by (force simp: step_entries_def)

lemma step_slots_specI:
  assumes off: "offsets_ok query_start_loc (int (length idx_mapping)) bound"
    and table: "owns_written_blocks block_table block_size idx_mapping query_start_loc num_computed_tokens" "distinct idx_mapping" "0 < block_size"
    and nonneg: "\<forall>b \<in> {0..<int (length idx_mapping)}. 0 \<le> Prelude.at num_computed_tokens (Prelude.at idx_mapping b)"
    and slot: "\<forall>b \<in> {0..<int (length idx_mapping)}. \<forall>t \<in> segment query_start_loc b. Prelude.at slots t =
       slot_value block_table block_size (Prelude.at idx_mapping b) (Prelude.at num_computed_tokens (Prelude.at idx_mapping b) + (t - Prelude.at query_start_loc b))"
  shows "step_slots_spec block_table block_size idx_mapping query_start_loc num_computed_tokens slots"
proof -
  define n where "n = int (length idx_mapping)"
  define start where "start b = Prelude.at num_computed_tokens (Prelude.at idx_mapping b)" for b
  define tokens where "tokens = {Prelude.at query_start_loc 0..<Prelude.at query_start_loc n}"
  define position where "position b t = start b + (t - Prelude.at query_start_loc b)" for b t
  let ?E = "step_entries idx_mapping query_start_loc num_computed_tokens block_size"
  have priv: "private_blocks block_table (?E start) (?E (\<lambda>b. 0))"
    using table(1) by (simp add: owns_written_blocks_def start_def [abs_def])
  have owner: "\<exists>b \<in> {0..<n}. t \<in> segment query_start_loc b" if "t \<in> tokens" for t
    using segment_owner [OF off, of t] that by (auto simp: tokens_def n_def)
  have s: "Prelude.at slots t = slot_value block_table block_size (Prelude.at idx_mapping b) (position b t)"
    if "b \<in> {0..<n}" "t \<in> segment query_start_loc b" for b t
    using slot that by (simp add: n_def position_def start_def)
  have c: "(Prelude.at idx_mapping b, position b t div block_size) \<in> ?E start"
    "(Prelude.at idx_mapping b, position b t div block_size) \<in> ?E (\<lambda>b. 0)" "start b \<le> position b t"
    if "b \<in> {0..<n}" "t \<in> segment query_start_loc b" for b t
    using that nonneg by (auto simp: n_def position_def start_def segment_def intro!: step_entriesI)
  have old: "(Prelude.at idx_mapping b, p div block_size) \<in> ?E (\<lambda>b. 0)" if "b \<in> {0..<n}" "p \<in> {0..<start b}" for b p
    using that offsets_mono [OF off, of b "b + 1"] by (auto simp: n_def start_def intro!: step_entriesI)
  have same: "b = b'" if "b \<in> {0..<n}" "b' \<in> {0..<n}" "Prelude.at idx_mapping b = Prelude.at idx_mapping b'" for b b'
    using distinct_at [OF table(2), of b b'] that by (simp add: n_def)
  have inj: "inj_on (Prelude.at slots) tokens"
  proof (rule inj_onI)
    fix t t' assume t: "t \<in> tokens" "t' \<in> tokens" and eq: "Prelude.at slots t = Prelude.at slots t'"
    obtain b b' where b: "b \<in> {0..<n}" "t \<in> segment query_start_loc b" "b' \<in> {0..<n}" "t' \<in> segment query_start_loc b'" using owner t by blast
    have "Prelude.at idx_mapping b = Prelude.at idx_mapping b' \<and> position b t = position b' t'"
      using slot_value_inj [OF priv c(1) [OF b(1,2)] c(2) [OF b(3,4)] table(3)] eq s [OF b(1,2)] s [OF b(3,4)] by simp
    then show "t = t'" using same [OF b(1,3)] by (simp add: position_def)
  qed
  have fresh: "Prelude.at slots t \<noteq> slot_value block_table block_size (Prelude.at idx_mapping b) p"
    if b: "b \<in> {0..<n}" "p \<in> {0..<start b}" and t: "t \<in> tokens" for b p t
  proof
    assume eq: "Prelude.at slots t = slot_value block_table block_size (Prelude.at idx_mapping b) p"
    obtain b' where b': "b' \<in> {0..<n}" "t \<in> segment query_start_loc b'" using owner t by blast
    have "Prelude.at idx_mapping b' = Prelude.at idx_mapping b \<and> position b' t = p"
      using slot_value_inj [OF priv c(1) [OF b'] old [OF b] table(3)] eq s [OF b'] by simp
    then show False using same [OF b'(1) b(1)] c(3) [OF b'] b(2) by simp
  qed
  show ?thesis using s inj fresh
    unfolding step_slots_spec_def Let_def n_def [symmetric] start_def [symmetric] tokens_def [symmetric] position_def [symmetric] by blast
qed

text \<open>C3. One step of the CPU runner over a batch: the positions that \<open>prepare_pos_seq_lens_cpu\<close> writes, used by \<open>compute_slot_mapping_cpu\<close>.  When the
  requests of the batch are distinct and own the blocks that the step writes, both kernels return; every token gets the slot of its own
  position; no two tokens of the batch share a slot; and no token gets the slot of a position that a request has already computed, so that the cached keys and values are not overwritten.\<close>

theorem step_slots_safe:
  assumes pos: "pos_ok idx_mapping query_start_loc num_computed_tokens pos seq_lens"
    and off: "offsets_ok query_start_loc (int (length idx_mapping)) (int (length slot_mapping))"
    and table: "wf2 block_table" "owns_written_blocks block_table block_size idx_mapping query_start_loc num_computed_tokens"
      "distinct idx_mapping" "0 < block_size"
    and cov: "\<forall>b \<in> {0..<int (length idx_mapping)}.
       \<forall>p \<in> {Prelude.at num_computed_tokens (Prelude.at idx_mapping b)..<
           Prelude.at num_computed_tokens (Prelude.at idx_mapping b) + (Prelude.at query_start_loc (b + 1) - Prelude.at query_start_loc b)}.
         covered block_table block_size (Prelude.at idx_mapping b) p"
  shows "\<exists>s slots. prepare_pos_seq_lens_cpu idx_mapping query_start_loc num_computed_tokens pos seq_lens = Some s \<and>
    compute_slot_mapping_cpu block_table slot_mapping idx_mapping query_start_loc (s Pos) block_size True pad = Some slots \<and>
    step_slots_spec block_table block_size idx_mapping query_start_loc num_computed_tokens slots"
proof -
  let ?at = Prelude.at and ?n = "int (length idx_mapping)"
  obtain s where s: "prepare_pos_seq_lens_cpu idx_mapping query_start_loc num_computed_tokens pos seq_lens = Some s" "length (s Pos) = length pos"
    and p: "\<forall>b t. 0 \<le> b \<longrightarrow> b < ?n \<longrightarrow> t \<in> segment query_start_loc b \<longrightarrow>
       ?at (s Pos) t = ?at num_computed_tokens (?at idx_mapping b) + (t - ?at query_start_loc b)"
    using pos_seq_lens_correct [OF pos, THEN yieldsD] by blast
  have off': "offsets_ok query_start_loc ?n (int (length pos))" and nonneg: "\<forall>b \<in> {0..<?n}. 0 \<le> ?at num_computed_tokens (?at idx_mapping b)"
    using pos by (auto simp: pos_ok_def)
  have "in_bounds (s Pos) t \<and> covered block_table block_size (?at idx_mapping b) (?at (s Pos) t)"
    if "b \<in> {0..<?n}" "t \<in> segment query_start_loc b" for b t
    using in_segment [OF off' _ _ that(2)] p that cov nonneg s(2) by (auto simp: segment_def)
  then have "slots_ok block_table slot_mapping idx_mapping query_start_loc (s Pos) block_size True"
    unfolding slots_ok_def using table(1) off by blast
  from slot_mapping_correct [OF this, of pad, THEN yieldsD] obtain slots where
    c: "compute_slot_mapping_cpu block_table slot_mapping idx_mapping query_start_loc (s Pos) block_size True pad = Some slots"
    and m: "\<forall>b t. 0 \<le> b \<longrightarrow> b < ?n \<longrightarrow> t \<in> segment query_start_loc b \<longrightarrow>
       ?at slots t = mapped_slot block_table idx_mapping (s Pos) block_size True pad b t" by blast
  have "?at slots t = slot_value block_table block_size (?at idx_mapping b) (?at num_computed_tokens (?at idx_mapping b) + (t - ?at query_start_loc b))"
    if "b \<in> {0..<?n}" "t \<in> segment query_start_loc b" for b t
  proof -
    have "0 \<le> ?at idx_mapping b" using pos that(1) by (simp add: pos_ok_def)
    moreover have b: "0 \<le> b" "b < ?n" using that(1) by simp_all
    ultimately show ?thesis
      using m [rule_format, OF b that(2)] p [rule_format, OF b that(2)] by (simp add: mapped_slot_def)
  qed
  then have "step_slots_spec block_table block_size idx_mapping query_start_loc num_computed_tokens slots"
    using step_slots_specI [OF off table(2-4) nonneg] by blast
  then show ?thesis using s(1) c by blast
qed

text \<open>A table of three rows, one of them unused.  Rows 0 and 1 share their first block, which is full, and then own a block each; the entries
  behind are unused and hold zero.\<close>

definition demo_blocks :: "int tensor2" where
  "demo_blocks = \<lparr>dat = [7, 9, 0, 7, 5, 0, 0, 0, 0], size0 = 3, size1 = 3, stride0 = 3, stride1 = 1\<rparr>"

lemma demo_covered: "r \<in> {0, 1} \<Longrightarrow> p \<in> {16..<32} \<Longrightarrow> covered demo_blocks 16 r p"
proof -
  assume r: "r \<in> {0, 1}" and p: "p \<in> {16..<32}"
  then have "p div 16 = 1" by auto
  then show ?thesis using r p by (auto simp: covered_def demo_blocks_def el2_def Prelude.at_def in_i64_def)
qed

theorem step_slots_safe_witness:
  "\<exists>s slots. prepare_pos_seq_lens_cpu [1, 0] [0, 2, 4] [16, 17] [0, 0, 0, 0] [0, 0] = Some s \<and>
    compute_slot_mapping_cpu demo_blocks [0, 0, 0, 0] [1, 0] [0, 2, 4] (s Pos) 16 True (-1) = Some slots \<and>
    step_slots_spec demo_blocks 16 [1, 0] [0, 2, 4] [16, 17] slots"
proof (rule step_slots_safe)
  have idx: "{0..<2} = {0, 1 :: int}" "{0..1} = {0, 1 :: int}" by auto
  show "pos_ok [1, 0] [0, 2, 4] [16, 17] [0, 0, 0, 0] [0, 0]"
    by (simp add: pos_ok_def offsets_ok_def Prelude.at_def in_i32_def idx)
  show "offsets_ok [0, 2, 4] (int (length [1, 0 :: int])) (int (length [0, 0, 0, 0 :: int]))" by (simp add: offsets_ok_def Prelude.at_def idx)
  show "wf2 demo_blocks" by (simp add: wf2_def demo_blocks_def)
  show "owns_written_blocks demo_blocks 16 [1, 0] [0, 2, 4] [16, 17]" by code_simp
  show "distinct [1, 0 :: int]" by simp
  show "\<forall>b \<in> {0..<int (length [1, 0 :: int])}.
     \<forall>p \<in> {Prelude.at [16, 17] (Prelude.at [1, 0] b)..<Prelude.at [16, 17] (Prelude.at [1, 0] b) + (Prelude.at [0, 2, 4] (b + 1) - Prelude.at [0, 2, 4] b)}.
       covered demo_blocks 16 (Prelude.at [1, 0] b) p"
    using demo_covered by (simp add: Prelude.at_def idx)
qed simp

end
